(* ===== verification/Prelude.thy ===== *)
theory Prelude
  imports Main "HOL-Library.Word" "HOL-Library.List_Lexorder" "HOL-Library.Sublist"
begin

text \<open>
  Shared vocabulary of the development: bytes and byte strings, the result
  combinator every fallible operation is written with, the lexicographic order
  that the store keeps its keys in, half-open key ranges, and the binary search
  of Go's \<^verbatim>\<open>sort.Search\<close>. Byte strings are ordered by
  \<^verbatim>\<open>HOL-Library.List_Lexorder\<close>, which is the order of Go's
  \<^verbatim>\<open>bytes.Compare\<close> and of \<open><\<close> on Go strings.
\<close>

unbundle bit_operations_syntax

section \<open>Collections of rewrite rules\<close>

named_theorems key_defs \<open>definitions of the key builders\<close>
named_theorems lex_simps \<open>rewriting the order of concatenated byte strings\<close>

section \<open>Types\<close>

type_synonym byte = "8 word"
type_synonym bytes = "byte list"

text \<open>A Go string literal as the bytes it stands for.\<close>

definition str :: "string \<Rightarrow> bytes" where
  "str s = map of_char s"

lemma length_str [simp]: "length (str s) = length s"
  by (simp add: str_def)

section \<open>Results\<close>

text \<open>
  A fallible operation returns \<open>Inl e\<close> or \<open>Inr v\<close>. \<open>bindR\<close> is the early
  return \<^verbatim>\<open>if err != nil { return err }\<close>.
\<close>

fun bindR :: "'e + 'a \<Rightarrow> ('a \<Rightarrow> 'e + 'b) \<Rightarrow> 'e + 'b" where
  "bindR (Inl e) f = Inl e"
| "bindR (Inr v) f = f v"

lemma bindR_eq_Inr: "bindR r f = Inr b \<longleftrightarrow> (\<exists>a. r = Inr a \<and> f a = Inr b)"
  by (cases r) auto

lemma bindR_eq_Inl: "bindR r f = Inl e \<longleftrightarrow> r = Inl e \<or> (\<exists>a. r = Inr a \<and> f a = Inl e)"
  by (cases r) auto

lemma bindR_cong [fundef_cong]:
  "r = r' \<Longrightarrow> (\<And>a. r' = Inr a \<Longrightarrow> f a = f' a) \<Longrightarrow> bindR r f = bindR r' f'"
  by (cases r') auto

section \<open>Lexicographic order\<close>

lemma append_less_same_length [lex_simps]:
  fixes u v x y :: "'a::linorder list"
  assumes "length u = length v"
  shows "u @ x < v @ y \<longleftrightarrow> u < v \<or> u = v \<and> x < y"
  using assms by (induction u v rule: list_induct2) auto

lemma append_less_append_iff [simp]:
  fixes u x y :: "'a::linorder list"
  shows "u @ x < u @ y \<longleftrightarrow> x < y"
  by (simp add: append_less_same_length)

lemma append_le_append_iff [simp]:
  fixes u x y :: "'a::linorder list"
  shows "u @ x \<le> u @ y \<longleftrightarrow> x \<le> y"
  by (auto simp: list_le_def)

lemma le_append [simp]:
  fixes u x :: "'a::linorder list"
  shows "u \<le> u @ x"
  using append_le_append_iff [of u "[]" x] by simp

lemma less_append_snoc [simp]:
  fixes u :: "'a::linorder list"
  shows "u < u @ [c]"
  using append_less_append_iff [of u "[]" "[c]"] by simp

lemma prefix_less_mono:
  fixes p u k :: "'a::linorder list"
  assumes "p < u" "\<not> prefix p u" "prefix p k"
  shows "k < u"
  using assms
proof (induction p arbitrary: u k)
  case Nil
  then show ?case by simp
next
  case (Cons a p)
  then obtain k' where k: "k = a # k'" "prefix p k'" by (cases k) auto
  from Cons.prems obtain b u' where u: "u = b # u'" by (cases u) auto
  show ?case using Cons k u by auto
qed

text \<open>The half-open ranges the store is scanned by; \<open>None\<close> is a nil upper bound.\<close>

fun in_range :: "bytes \<times> bytes option \<Rightarrow> bytes \<Rightarrow> bool" where
  "in_range (lower, None) k \<longleftrightarrow> lower \<le> k"
| "in_range (lower, Some upper) k \<longleftrightarrow> lower \<le> k \<and> k < upper"

lemma in_range_alt:
  "in_range r k \<longleftrightarrow> fst r \<le> k \<and> (case snd r of None \<Rightarrow> True | Some u \<Rightarrow> k < u)"
  by (cases r; cases "snd r") auto

section \<open>Binary search\<close>

text \<open>
  Go's \<^verbatim>\<open>sort.Search\<close>, the loop as the standard library writes it: \<open>i\<close> and
  \<open>j\<close> close in on the least index whose element satisfies the predicate.
\<close>

function search_loop :: "(nat \<Rightarrow> bool) \<Rightarrow> nat \<Rightarrow> nat \<Rightarrow> nat" where
  "search_loop f i j =
     (if i < j
      then (let h = (i + j) div 2
            in if f h then search_loop f i h else search_loop f (Suc h) j)
      else i)"
  by pat_completeness auto
termination
  by (relation "measure (\<lambda>(f, i, j). j - i)") (auto simp: Let_def)

declare search_loop.simps [simp del]

definition SearchStrings :: "bytes list \<Rightarrow> bytes \<Rightarrow> nat" where
  "SearchStrings a x = search_loop (\<lambda>i. x \<le> a ! i) 0 (length a)"

lemma search_loop_spec:
  assumes "i \<le> m" "m \<le> j" "\<And>k. i \<le> k \<Longrightarrow> k < j \<Longrightarrow> f k \<longleftrightarrow> m \<le> k"
  shows "search_loop f i j = m"
  using assms
proof (induction f i j rule: search_loop.induct)
  case (1 f i j)
  show ?case
  proof (cases "i < j")
    case False
    with 1 show ?thesis by (simp add: search_loop.simps)
  next
    case True
    define h where "h = (i + j) div 2"
    have h: "i \<le> h" "h < j" using True by (auto simp: h_def)
    show ?thesis
    proof (cases "f h")
      case fh: True
      then have "m \<le> h" using 1(5) [of h] h by simp
      then have "search_loop f i h = m"
        using 1(1) [OF True h_def fh] 1(3,5) h by simp
      then show ?thesis using True fh by (simp add: search_loop.simps [of f i j] h_def Let_def)
    next
      case nf: False
      then have "Suc h \<le> m" using 1(5) [of h] h by simp
      then have "search_loop f (Suc h) j = m"
        using 1(2) [OF True h_def nf] 1(4,5) h by simp
      then show ?thesis using True nf by (simp add: search_loop.simps [of f i j] h_def Let_def)
    qed
  qed
qed

lemma takeWhile_split_index:
  assumes "sorted ks" "i < length ks"
  shows "x \<le> ks ! i \<longleftrightarrow> length (takeWhile (\<lambda>k. k < x) ks) \<le> i"
  using assms
proof (induction ks arbitrary: i)
  case Nil
  then show ?case by simp
next
  case (Cons k ks)
  show ?case
  proof (cases i)
    case 0
    then show ?thesis by (auto simp: not_less)
  next
    case (Suc j)
    with Cons.prems have "k \<le> ks ! j" by simp
    then have "x \<le> ks ! j" if "\<not> k < x" using that by simp
    with Suc Cons show ?thesis by (cases "k < x") simp_all
  qed
qed

text \<open>On a sorted list the search finds the insertion point.\<close>

lemma SearchStrings_sorted:
  assumes "sorted ks"
  shows "SearchStrings ks x = length (takeWhile (\<lambda>k. k < x) ks)"
  unfolding SearchStrings_def
  using assms
  by (intro search_loop_spec) (auto simp: takeWhile_split_index length_takeWhile_le)

end
