(* ===== verification/Errs.thy ===== *)
theory Errs
  imports Prelude
begin

text \<open>
  The classified errors of \<^verbatim>\<open>src/internal/errs/errs.go\<close>. An error value is a chain:
  \<open>Error\<close> is the package's \<^verbatim>\<open>*Error\<close>, \<open>Plain\<close> an error of the standard library
  with its message, and \<open>Wrapped\<close> the chain link \<^verbatim>\<open>fmt.Errorf("...%w")\<close> makes.
  Formatted arguments of messages are left out; kinds, operations and the
  wrapping structure are kept, because those are what the code branches on.
\<close>

datatype kind =
    Unclassified | NotFound | Conflict | Invalid | Unauthorized | Forbidden | Storage
  | Corruption | Unavailable | MigrationRequired | IncompatibleVersion | NotLeader
  | Transient | RateLimited

datatype error = Error (err_kind: kind) (err_op: string) (err_err: error)
  | Plain string
  | Wrapped string error

type_synonym 'a res = "error + 'a"

fun kind_String :: "kind \<Rightarrow> string" where
  "kind_String Unclassified = ''unclassified''"
| "kind_String NotFound = ''not_found''"
| "kind_String Conflict = ''conflict''"
| "kind_String Invalid = ''invalid''"
| "kind_String Unauthorized = ''unauthorized''"
| "kind_String Forbidden = ''forbidden''"
| "kind_String Storage = ''storage''"
| "kind_String Corruption = ''corruption''"
| "kind_String Unavailable = ''unavailable''"
| "kind_String MigrationRequired = ''migration_required''"
| "kind_String IncompatibleVersion = ''incompatible_version''"
| "kind_String NotLeader = ''not_leader''"
| "kind_String Transient = ''transient''"
| "kind_String RateLimited = ''rate_limited''"

definition retryableKinds :: "kind \<Rightarrow> bool" where
  "retryableKinds k \<longleftrightarrow> k \<in> {Storage, Unavailable, NotLeader, Transient, RateLimited}"

text \<open>\<^verbatim>\<open>errs.E\<close>: a nil cause stays nil, so a caller may wrap unconditionally.\<close>

definition E :: "kind \<Rightarrow> string \<Rightarrow> error option \<Rightarrow> error option" where
  "E k op err = (case err of None \<Rightarrow> None | Some e \<Rightarrow> Some (Error k op e))"

text \<open>\<^verbatim>\<open>errors.As\<close> at the target \<^verbatim>\<open>*Error\<close>: the first \<open>Error\<close> of the unwrap chain.\<close>

fun as_Error :: "error \<Rightarrow> (kind \<times> string \<times> error) option" where
  "as_Error (Error k op e) = Some (k, op, e)"
| "as_Error (Wrapped m e) = as_Error e"
| "as_Error (Plain m) = None"

definition KindOf :: "error option \<Rightarrow> kind" where
  "KindOf err =
     (case err of
        None \<Rightarrow> Unclassified
      | Some e \<Rightarrow>
          (case as_Error e of
             Some (k, op, e') \<Rightarrow> if k \<noteq> Unclassified then k else Storage
           | None \<Rightarrow> Storage))"

definition Is :: "error option \<Rightarrow> kind \<Rightarrow> bool" where
  "Is err k = (case err of None \<Rightarrow> False | Some e \<Rightarrow> KindOf err = k)"

definition Retryable :: "error option \<Rightarrow> bool" where
  "Retryable err = (case err of None \<Rightarrow> False | Some e \<Rightarrow> retryableKinds (KindOf err))"

text \<open>The two shapes every refusal below takes.\<close>

definition err :: "kind \<Rightarrow> string \<Rightarrow> string \<Rightarrow> error" where
  "err k op msg = Error k op (Plain msg)"

definition fail :: "kind \<Rightarrow> string \<Rightarrow> string \<Rightarrow> 'a res" where
  "fail k op msg = Inl (err k op msg)"

definition is_kind :: "error \<Rightarrow> kind \<Rightarrow> bool" where
  "is_kind e k = Is (Some e) k"

lemma KindOf_Some_classified: "KindOf (Some e) \<noteq> Unclassified"
  by (auto simp: KindOf_def split: option.splits)

lemma KindOf_Error [simp]:
  "KindOf (Some (Error k op e)) = (if k = Unclassified then Storage else k)"
  by (simp add: KindOf_def)

lemma is_kind_err [simp]:
  "is_kind (err k op msg) k' \<longleftrightarrow> (if k = Unclassified then Storage else k) = k'"
  by (simp add: is_kind_def Is_def err_def)

lemma is_kind_Error [simp]:
  "is_kind (Error k op e) k' \<longleftrightarrow> (if k = Unclassified then Storage else k) = k'"
  by (simp add: is_kind_def Is_def)

lemma fail_neq_Inr [simp]: "fail k op msg \<noteq> Inr v" "Inr v \<noteq> fail k op msg"
  by (simp_all add: fail_def)

lemma fail_eq_Inl [simp]: "fail k op msg = Inl e \<longleftrightarrow> e = err k op msg"
  by (auto simp: fail_def)

lemma bindR_fail [simp]: "bindR (fail k op msg) f = fail k op msg"
  by (simp add: fail_def)

end
