(* ===== verification/Wire.thy ===== *)
theory Wire
  imports Errs
begin

text \<open>
  The part of Go's \<^verbatim>\<open>encoding/binary\<close> that the durable formats are written with:
  fixed-width big-endian integers and unsigned varints. Both are part of the
  language's standard library; the definitions follow its loops. The lemmas are the
  laws the key, row and token codecs rest on: round trips, lengths, the order of
  big-endian encodings, and that a varint of minimal length is the encoder's own.
\<close>

section \<open>Big-endian integers\<close>

text \<open>
  \<open>be n w\<close> is \<^verbatim>\<open>append(b, byte(w>>8(n-1)), ..., byte(w))\<close>, the body of
  \<^verbatim>\<open>binary.BigEndian.AppendUint16/32/64\<close>; \<open>unbe\<close> reads it back.
\<close>

primrec be :: "nat \<Rightarrow> 'a::len word \<Rightarrow> bytes" where
  "be 0 w = []"
| "be (Suc n) w = ucast (drop_bit (8 * n) w) # be n w"

definition unbe :: "bytes \<Rightarrow> 'a::len word" where
  "unbe bs = foldl (\<lambda>acc b. push_bit 8 acc OR ucast b) 0 bs"

abbreviation be16 :: "16 word \<Rightarrow> bytes" where "be16 \<equiv> be 2"
abbreviation be32 :: "32 word \<Rightarrow> bytes" where "be32 \<equiv> be 4"
abbreviation be64 :: "64 word \<Rightarrow> bytes" where "be64 \<equiv> be 8"

lemma length_be [simp]: "length (be n w) = n"
  by (induction n) auto

lemma unat_be_head: "unat (ucast (drop_bit m w) :: byte) = unat w div 2 ^ m mod 256"
proof -
  have "unat (drop_bit m w) = unat w div 2 ^ m"
    by (simp only: unat_drop_bit_eq) (simp add: drop_bit_eq_div)
  then show ?thesis by (simp add: unsigned_ucast_eq take_bit_eq_mod)
qed

lemma take_bit_8_Suc:
  "take_bit (8 * Suc n) x = (x div 2 ^ (8 * n) mod 256) * 2 ^ (8 * n) + take_bit (8 * n) (x :: nat)"
proof -
  have "x mod (2 ^ (8 * n) * 256) = 2 ^ (8 * n) * (x div 2 ^ (8 * n) mod 256) + x mod 2 ^ (8 * n)"
    by (rule mod_mult2_eq)
  then show ?thesis by (simp add: take_bit_eq_mod power_add mult.commute)
qed

lemma radix_less_iff:
  fixes a b r s m :: nat
  assumes "r < m" "s < m"
  shows "a * m + r < b * m + s \<longleftrightarrow> a < b \<or> a = b \<and> r < s"
proof -
  have "a * m + r < b * m + s" if "a < b"
  proof -
    have "a * m + r < Suc a * m" using assms by simp
    also have "\<dots> \<le> b * m" using that by (intro mult_right_mono) auto
    finally show ?thesis by simp
  qed
  moreover have "b * m + s < a * m + r" if "b < a"
  proof -
    have "b * m + s < Suc b * m" using assms by simp
    also have "\<dots> \<le> a * m" using that by (intro mult_right_mono) auto
    finally show ?thesis by simp
  qed
  ultimately show ?thesis by (cases a b rule: linorder_cases) auto
qed

lemma be_less_take_bit:
  "be n a < be n b \<longleftrightarrow> take_bit (8 * n) (unat a) < take_bit (8 * n) (unat b)"
proof (induction n)
  case 0
  then show ?case by simp
next
  case (Suc n)
  show ?case
    unfolding be.simps take_bit_8_Suc Cons_less_Cons Suc.IH
    by (subst radix_less_iff)
       (auto simp: word_less_nat_alt word_unat_eq_iff unat_be_head simp flip: take_bit_eq_mod
         intro: take_bit_nat_less_exp)
qed

lemma be_eq_take_bit:
  "be n a = be n b \<longleftrightarrow> take_bit (8 * n) (unat a) = take_bit (8 * n) (unat b)"
  using be_less_take_bit [of n a b] be_less_take_bit [of n b a] by (metis neq_iff)

lemma unat_take_bit_full: "LENGTH('a) \<le> m \<Longrightarrow> take_bit m (unat (w :: 'a::len word)) = unat w"
  by (intro take_bit_nat_eq_self) (meson le_trans less_le_trans one_le_numeral power_increasing unsigned_less)

text \<open>The order of big-endian encodings is the order of the numbers.\<close>

lemma be_less_iff [simp]:
  "LENGTH('a) \<le> 8 * n \<Longrightarrow> be n a < be n b \<longleftrightarrow> (a :: 'a::len word) < b"
  by (simp add: be_less_take_bit unat_take_bit_full word_less_nat_alt)

lemma be_eq_iff [simp]:
  "LENGTH('a) \<le> 8 * n \<Longrightarrow> be n a = be n b \<longleftrightarrow> (a :: 'a::len word) = b"
  by (simp add: be_eq_take_bit unat_take_bit_full flip: word_unat_eq_iff)

lemma unbe_be_aux:
  fixes w :: "'a::len word"
  shows "foldl (\<lambda>acc b. push_bit 8 acc OR ucast b) (drop_bit (8 * n) w) (be n w) = w"
proof (induction n)
  case 0
  then show ?case by simp
next
  case (Suc n)
  have "push_bit 8 (drop_bit (8 * Suc n) w) OR ucast (ucast (drop_bit (8 * n) w) :: byte) = drop_bit (8 * n) w"
    by (rule bit_eqI) (auto simp: bit_simps)
  then show ?case using Suc by simp
qed

lemma unbe_be [simp]:
  assumes "LENGTH('a) \<le> 8 * n"
  shows "unbe (be n w) = (w :: 'a::len word)"
proof -
  have "drop_bit (8 * n) w = 0"
    by (rule bit_eqI) (use assms in \<open>auto simp: bit_simps dest: bit_imp_le_length\<close>)
  then show ?thesis using unbe_be_aux [of n w] by (simp add: unbe_def)
qed

lemma be_append_snoc: "be (Suc n) (push_bit 8 w OR ucast (b :: byte)) = be n w @ [b]"
  if "8 * Suc n \<le> LENGTH('a)" for w :: "'a::len word"
  using that
proof (induction n)
  case 0
  have "ucast (push_bit 8 w OR ucast b) = b" by (rule bit_eqI) (use 0 in \<open>auto simp: bit_simps\<close>)
  then show ?case by simp
next
  case (Suc n)
  have "ucast (drop_bit (8 * Suc n) (push_bit 8 w OR ucast b)) = (ucast (drop_bit (8 * n) w) :: byte)"
    by (rule bit_eqI) (use Suc.prems in \<open>auto simp: bit_simps dest: bit_imp_le_length\<close>)
  with Suc show ?case by simp
qed

lemma unbe_snoc: "unbe (bs @ [b]) = push_bit 8 (unbe bs) OR ucast b"
  by (simp add: unbe_def)

lemma be_unbe:
  assumes "8 * length bs \<le> LENGTH('a)"
  shows "be (length bs) (unbe bs :: 'a::len word) = bs"
  using assms
proof (induction bs rule: rev_induct)
  case Nil
  then show ?case by simp
next
  case (snoc b bs)
  then show ?case by (simp add: unbe_snoc be_append_snoc del: be.simps)
qed


section \<open>Unsigned varints\<close>

text \<open>\<^verbatim>\<open>binary.AppendUvarint\<close>: seven bits a byte, the high bit set on all but the last.\<close>

function AppendUvarint :: "bytes \<Rightarrow> 64 word \<Rightarrow> bytes" where
  "AppendUvarint b v =
     (if 0x80 \<le> v then AppendUvarint (b @ [ucast v OR 0x80]) (drop_bit 7 v) else b @ [ucast v])"
  by pat_completeness auto
termination
proof (relation "measure (\<lambda>(b, v). unat v)")
  fix b :: bytes and v :: "64 word"
  assume "0x80 \<le> v"
  then have "128 \<le> unat v" by (simp add: word_le_nat_alt)
  then show "((b @ [ucast v OR 0x80], drop_bit 7 v), b, v) \<in> measure (\<lambda>(b, v). unat v)"
    by (simp only: in_measure prod.case unat_drop_bit_eq) (simp add: drop_bit_eq_div)
qed simp

declare AppendUvarint.simps [simp del]

text \<open>
  \<^verbatim>\<open>binary.Uvarint\<close>: the value and the number of bytes read, which is zero when the
  buffer ends inside the varint and negative when the varint overflows 64 bits.
\<close>

fun uvarint_loop :: "nat \<Rightarrow> 64 word \<Rightarrow> nat \<Rightarrow> bytes \<Rightarrow> 64 word \<times> int" where
  "uvarint_loop i x s [] = (0, 0)"
| "uvarint_loop i x s (b # bs) =
     (if i = 10 then (0, - (int i + 1))
      else if b < 0x80 then
        (if i = 9 \<and> 1 < b then (0, - (int i + 1))
         else (x OR push_bit s (ucast b), int i + 1))
      else uvarint_loop (Suc i) (x OR push_bit s (ucast (b AND 0x7F))) (s + 7) bs)"

definition Uvarint :: "bytes \<Rightarrow> 64 word \<times> int" where
  "Uvarint buf = uvarint_loop 0 0 0 buf"

text \<open>The encoding on its own, and the two functions that describe it.\<close>

abbreviation uvarint :: "64 word \<Rightarrow> bytes" where
  "uvarint \<equiv> AppendUvarint []"

fun vbytes :: "bytes \<Rightarrow> bool" where
  "vbytes [] = False"
| "vbytes [b] = (b < 0x80)"
| "vbytes (b # bs) = (0x80 \<le> b \<and> vbytes bs)"

fun uvval :: "bytes \<Rightarrow> nat" where
  "uvval [] = 0"
| "uvval (b # bs) = unat b mod 128 + 128 * uvval bs"

lemma AppendUvarint_append: "AppendUvarint (a @ b) v = a @ AppendUvarint b v"
proof (induction b v arbitrary: a rule: AppendUvarint.induct)
  case (1 b v)
  then show ?case by (simp add: AppendUvarint.simps [of _ v])
qed

lemma AppendUvarint_uvarint: "AppendUvarint b v = b @ uvarint v"
  using AppendUvarint_append [of b "[]" v] by simp

lemma uvarint_rec:
  "uvarint v = (if 0x80 \<le> v then (ucast v OR 0x80) # uvarint (drop_bit 7 v) else [ucast v])"
  by (simp add: AppendUvarint.simps [of "[]" v] AppendUvarint_uvarint [of "[ucast v OR 0x80]"])

lemma unat_mod_128: "unat (w :: 'a::len word) mod 128 = unat (take_bit 7 w)"
  by (simp only: unsigned_take_bit_eq) (simp add: take_bit_eq_mod)

lemma unat_cont_byte: "unat (ucast v OR 0x80 :: byte) mod 128 = unat (v :: 64 word) mod 128"
proof -
  have "take_bit 7 (ucast v OR 0x80 :: byte) = ucast (take_bit 7 v)"
    by (rule bit_eqI) (auto simp: bit_simps)
  moreover have "unat (ucast (take_bit 7 v) :: byte) = unat (take_bit 7 v)"
    by (simp add: unsigned_ucast_eq unsigned_take_bit_eq)
  ultimately show ?thesis by (simp only: unat_mod_128)
qed

lemma cont_byte_ge [simp]: "0x80 \<le> (x OR 0x80 :: byte)"
  by (metis le_word_or1)

lemma unat_drop_bit_7: "unat (drop_bit 7 (v :: 'a::len word)) = unat v div 128"
  by (simp only: unat_drop_bit_eq) (simp add: drop_bit_eq_div)

lemma uvarint_induct [case_names small large]:
  assumes small: "\<And>v. v < 0x80 \<Longrightarrow> P v"
    and large: "\<And>v. 0x80 \<le> v \<Longrightarrow> P (drop_bit 7 v) \<Longrightarrow> P v"
  shows "P (v :: 64 word)"
proof (induction v rule: measure_induct_rule [of unat])
  case (less v)
  show ?case
  proof (cases "0x80 \<le> v")
    case True
    then have "128 \<le> unat v" by (simp add: word_le_nat_alt)
    then have "unat (drop_bit 7 v) < unat v" by (simp add: unat_drop_bit_7)
    then show ?thesis using large [OF True] less by blast
  next
    case False
    then show ?thesis using small by simp
  qed
qed

lemma vbytes_Cons: "bs \<noteq> [] \<Longrightarrow> vbytes (b # bs) \<longleftrightarrow> 0x80 \<le> b \<and> vbytes bs"
  by (cases bs) auto

lemma uvarint_neq_Nil [simp]: "uvarint v \<noteq> []"
  by (subst uvarint_rec) simp

lemma uvarint_small: "v < 0x80 \<Longrightarrow> uvarint v = [ucast v]"
  by (subst uvarint_rec) (simp add: leD)

lemma uvarint_large: "0x80 \<le> v \<Longrightarrow> uvarint v = (ucast v OR 0x80) # uvarint (drop_bit 7 v)"
  by (subst uvarint_rec) simp

lemma vbytes_uvarint [simp]: "vbytes (uvarint v)"
proof (induction v rule: uvarint_induct)
  case (small v)
  then have "unat v < 128" by (simp add: word_less_nat_alt)
  then have "(ucast v :: byte) < 0x80"
    by (simp add: word_less_nat_alt unsigned_ucast_eq take_bit_eq_mod)
  with small show ?case by (simp add: uvarint_small)
next
  case (large v)
  then show ?case by (simp add: uvarint_large vbytes_Cons)
qed

lemma uvval_uvarint [simp]: "uvval (uvarint v) = unat v"
proof (induction v rule: uvarint_induct)
  case (small v)
  then have "unat v < 128" by (simp add: word_less_nat_alt)
  with small show ?case
    by (simp add: uvarint_small unsigned_ucast_eq take_bit_eq_mod)
next
  case (large v)
  then show ?case by (simp add: uvarint_large unat_cont_byte unat_drop_bit_7)
qed

text \<open>Two varints of one length and one value are the same bytes.\<close>

lemma vbytes_unique:
  "vbytes us \<Longrightarrow> vbytes vs \<Longrightarrow> length us = length vs \<Longrightarrow> uvval us = uvval vs \<Longrightarrow> us = vs"
proof (induction us arbitrary: vs)
  case Nil
  then show ?case by simp
next
  case (Cons u us)
  then obtain v vs' where vs: "vs = v # vs'" by (cases vs) auto
  have val: "unat u mod 128 + 128 * uvval us = unat v mod 128 + 128 * uvval vs'"
    using Cons.prems vs by simp
  have digit: "unat u mod 128 = unat v mod 128" and rest: "uvval us = uvval vs'"
    using arg_cong [OF val, of "\<lambda>x. x mod 128"] arg_cong [OF val, of "\<lambda>x. x div 128"] by simp_all
  show ?case
  proof (cases us)
    case Nil
    with Cons.prems vs digit show ?thesis
      by (simp add: word_less_nat_alt word_unat_eq_iff)
  next
    case (Cons u' us')
    then have ne: "us \<noteq> []" "vs' \<noteq> []" using Cons.prems vs by auto
    with Cons.prems vs have hi: "0x80 \<le> u" "0x80 \<le> v" "vbytes us" "vbytes vs'"
      by (auto simp: vbytes_Cons)
    have "unat w mod 128 = unat w - 128 \<and> 128 \<le> unat w" if "0x80 \<le> w" for w :: byte
    proof -
      have w: "128 \<le> unat w" "unat w < 256"
        using that unsigned_less [of w] by (simp_all add: word_le_nat_alt)
      then have "unat w mod 128 = (unat w - 128) mod 128" by (intro le_mod_geq)
      with w show ?thesis by simp
    qed
    then have "unat u = unat v" using digit hi(1,2) by (metis eq_diff_iff)
    then show ?thesis using Cons.IH [OF hi(3,4)] rest Cons.prems(3) vs
      by (simp add: word_unat_eq_iff)
  qed
qed

lemma unat_or_push_bit:
  fixes x y :: "64 word"
  assumes "unat x < 2 ^ s" "unat y * 2 ^ s < 2 ^ 64"
  shows "unat (x OR push_bit s y) = unat x + unat y * 2 ^ s"
proof -
  have "unat (push_bit s y) = unat y * 2 ^ s"
    using assms(2) by (simp only: unsigned_push_bit_eq) (simp add: push_bit_eq_mult take_bit_nat_eq_self)
  moreover have "unat x OR unat y * 2 ^ s = unat x + unat y * 2 ^ s"
  proof (rule disjunctive_add [symmetric])
    fix n
    have "unat x = take_bit s (unat x)" using assms(1) by (simp add: take_bit_nat_eq_self)
    then have "bit (unat x) n \<Longrightarrow> n < s" by (metis bit_take_bit_iff)
    moreover have "bit (unat y * 2 ^ s) n \<Longrightarrow> s \<le> n"
      by (simp add: bit_push_bit_iff flip: push_bit_eq_mult)
    ultimately show "\<not> bit (unat x) n \<or> \<not> bit (unat y * 2 ^ s) n" by fastforce
  qed
  ultimately show ?thesis by (simp only: unsigned_or_eq)
qed

lemma unat_ucast_byte [simp]: "unat (ucast (c :: byte) :: 64 word) = unat c"
proof -
  have "unat c < 2 ^ 8" using unsigned_less [of c] by simp
  then have "unat c < 2 ^ 64" by (rule less_le_trans) simp
  then show ?thesis by (simp add: unsigned_ucast_eq take_bit_nat_eq_self)
qed

lemma unat_and_7F: "unat (b AND 0x7F :: byte) = unat b mod 128"
proof -
  have "b AND 0x7F = take_bit 7 b" by (simp add: take_bit_eq_mask mask_eq_exp_minus_1)
  then show ?thesis by (simp only: unat_mod_128)
qed

text \<open>What the reader accepts: a run of continuation bytes, its last byte, and the value they spell.\<close>

lemma varint_shift_fits:
  fixes d :: nat
  assumes "i \<le> 9" "d < 128" "i = 9 \<Longrightarrow> d \<le> 1"
  shows "d * 2 ^ (7 * i) < 2 ^ 64"
proof (cases "i = 9")
  case True
  with assms have "d * 2 ^ (7 * i) \<le> 2 ^ 63" by simp
  then show ?thesis by (rule le_less_trans) simp
next
  case False
  with assms have "7 * i \<le> 56" by simp
  have "d * 2 ^ (7 * i) < 2 ^ 7 * 2 ^ (7 * i)" using assms by simp
  also have "\<dots> \<le> 2 ^ 7 * 2 ^ 56" using \<open>7 * i \<le> 56\<close> by (intro mult_left_mono power_increasing) auto
  finally show ?thesis by simp
qed

lemma uvarint_loop_sound:
  assumes "uvarint_loop i x (7 * i) k = (n, w)" "0 < w" "unat x < 2 ^ (7 * i)" "i \<le> 9"
  shows "\<exists>vs rest. k = vs @ rest \<and> vbytes vs \<and> w = int (i + length vs) \<and>
           unat n = unat x + 2 ^ (7 * i) * uvval vs"
  using assms
proof (induction k arbitrary: i x)
  case Nil
  then show ?case by simp
next
  case (Cons b bs)
  show ?case
  proof (cases "b < 0x80")
    case True
    then have small: "unat b < 128" by (simp add: word_less_nat_alt)
    from Cons.prems True have le: "\<not> (i = 9 \<and> 1 < b)"
      and n: "n = x OR push_bit (7 * i) (ucast b)" and w: "w = int i + 1"
      by (auto split: if_splits)
    have "unat b * 2 ^ (7 * i) < 2 ^ 64"
      using le small Cons.prems(4) by (intro varint_shift_fits) (auto simp: word_less_nat_alt)
    then have "unat n = unat x + unat b * 2 ^ (7 * i)"
      unfolding n using Cons.prems(3) by (subst unat_or_push_bit) auto
    then show ?thesis using True small w
      by (intro exI [of _ "[b]"] exI [of _ bs]) (simp add: mult.commute)
  next
    case False
    let ?x = "x OR push_bit (7 * i) (ucast (b AND 0x7F))"
    from Cons.prems False have step: "uvarint_loop (Suc i) ?x (7 * Suc i) bs = (n, w)" and "i \<noteq> 10"
      by (auto simp: add.commute)
    have i: "i \<noteq> 9" using step Cons.prems(2) by (cases bs) auto
    have fits: "unat b mod 128 * 2 ^ (7 * i) < 2 ^ 64"
      using i Cons.prems(4) by (intro varint_shift_fits) auto
    then have x: "unat ?x = unat x + unat b mod 128 * 2 ^ (7 * i)"
      using Cons.prems(3) by (subst unat_or_push_bit) (auto simp: unat_and_7F)
    have "unat x + unat b mod 128 * 2 ^ (7 * i) < 2 ^ (7 * i) + 127 * 2 ^ (7 * i)"
      using Cons.prems(3) by (intro add_less_le_mono mult_right_mono) (auto simp: less_Suc_eq_le [symmetric])
    then have "unat ?x < 2 ^ (7 * Suc i)" by (simp add: x power_add)
    then obtain vs rest where vs: "bs = vs @ rest" "vbytes vs" "w = int (Suc i + length vs)"
      "unat n = unat ?x + 2 ^ (7 * Suc i) * uvval vs"
      using Cons.IH [OF step Cons.prems(2)] i Cons.prems(4) by auto
    then have "vs \<noteq> []" by auto
    with vs False show ?thesis unfolding x
      by (intro exI [of _ "b # vs"] exI [of _ rest])
         (auto simp: vbytes_Cons power_add algebra_simps)
  qed
qed

lemma Uvarint_sound:
  assumes "Uvarint k = (n, w)" "0 < w"
  shows "\<exists>vs rest. k = vs @ rest \<and> vbytes vs \<and> w = int (length vs) \<and> unat n = uvval vs"
  using uvarint_loop_sound [of 0 0 k n w] assms by (simp add: Uvarint_def)

text \<open>The round trip: what the writer appends, the reader reads, and no byte more.\<close>

lemma uvarint_loop_uvarint:
  assumes "unat v * 2 ^ (7 * i) < 2 ^ 64" "unat x < 2 ^ (7 * i)" "i \<le> 9"
  shows "\<exists>n. uvarint_loop i x (7 * i) (uvarint v @ rest) = (n, int (i + length (uvarint v))) \<and>
           unat n = unat x + unat v * 2 ^ (7 * i)"
  using assms
proof (induction v arbitrary: i x rule: uvarint_induct)
  case (small v)
  then have v: "unat v < 128" "unat (ucast v :: byte) = unat v"
    by (simp_all add: word_less_nat_alt unsigned_ucast_eq take_bit_eq_mod)
  have "\<not> (i = 9 \<and> 1 < (ucast v :: byte))"
    using small.prems(1) v by (auto simp: word_less_nat_alt)
  moreover have "unat (x OR push_bit (7 * i) (ucast (ucast v :: byte))) = unat x + unat v * 2 ^ (7 * i)"
    using small.prems v by (subst unat_or_push_bit) auto
  ultimately show ?case using small v by (auto simp: uvarint_small word_less_nat_alt)
next
  case (large v)
  then have v: "128 \<le> unat v" by (simp add: word_le_nat_alt)
  have i: "i \<le> 8"
  proof (rule ccontr)
    assume "\<not> i \<le> 8"
    with large.prems have "i = 9" by simp
    with large.prems(1) v show False by simp
  qed
  let ?b = "ucast v OR 0x80 :: byte"
  let ?x = "x OR push_bit (7 * i) (ucast (?b AND 0x7F))"
  have fits: "unat v mod 128 * 2 ^ (7 * i) < 2 ^ 64"
    using i by (intro varint_shift_fits) auto
  then have x: "unat ?x = unat x + unat v mod 128 * 2 ^ (7 * i)"
    using large.prems by (subst unat_or_push_bit) (auto simp: unat_and_7F unat_cont_byte)
  have "unat x + unat v mod 128 * 2 ^ (7 * i) < 2 ^ (7 * i) + 127 * 2 ^ (7 * i)"
    using large.prems by (intro add_less_le_mono mult_right_mono) (auto simp: less_Suc_eq_le [symmetric])
  then have xb: "unat ?x < 2 ^ (7 * Suc i)" by (simp add: x power_add)
  have split: "unat v * 2 ^ (7 * i) =
      unat v mod 128 * 2 ^ (7 * i) + unat (drop_bit 7 v) * 2 ^ (7 * Suc i)"
  proof -
    define d m where "d = unat v div 128" and "m = unat v mod 128"
    then have "unat v = m + d * 128" by simp
    moreover have "(m + d * 128) * 2 ^ (7 * i) = m * 2 ^ (7 * i) + d * 2 ^ (7 * Suc i)"
      by (simp add: power_add algebra_simps)
    ultimately show ?thesis by (simp add: unat_drop_bit_7 d_def m_def)
  qed
  then have "unat (drop_bit 7 v) * 2 ^ (7 * Suc i) < 2 ^ 64" using large.prems(1) by linarith
  from large.IH [OF this xb] i obtain n where
    "uvarint_loop (Suc i) ?x (7 * Suc i) (uvarint (drop_bit 7 v) @ rest) =
       (n, int (Suc i + length (uvarint (drop_bit 7 v))))"
    "unat n = unat ?x + unat (drop_bit 7 v) * 2 ^ (7 * Suc i)" by auto
  with i x split large.hyps show ?case by (simp add: uvarint_large leD add.commute)
qed

lemma Uvarint_uvarint [simp]: "Uvarint (uvarint v @ rest) = (v, int (length (uvarint v)))"
proof -
  have "unat v < 2 ^ 64" using unsigned_less [of v] by simp
  then show ?thesis using uvarint_loop_uvarint [of v 0 0 rest]
    by (auto simp: Uvarint_def word_unat_eq_iff)
qed

text \<open>A varint no longer than the writer's own is the writer's own.\<close>

lemma Uvarint_canonical:
  assumes "Uvarint k = (n, w)" "0 < w" "nat w = length (uvarint n)"
  shows "k = uvarint n @ drop (nat w) k"
proof -
  obtain vs rest where vs: "k = vs @ rest" "vbytes vs" "w = int (length vs)" "unat n = uvval vs"
    using Uvarint_sound [OF assms(1,2)] by blast
  then have "vs = uvarint n" using assms(3) by (intro vbytes_unique) auto
  with vs show ?thesis by simp
qed

end
