(* ===== verification/Key_Order.thy ===== *)
theory Key_Order
  imports Wire
begin

text \<open>
  The order-preserving value encoding of \<^verbatim>\<open>src/internal/keys/order.go\<close>. Every
  \<^verbatim>\<open>Put\<close> appends to \<open>dst\<close>; every \<^verbatim>\<open>Get\<close> returns the value and the bytes
  after it. A signed 64-bit integer is its two's complement word and a float is its
  IEEE-754 bit pattern, which is what \<^verbatim>\<open>math.Float64bits\<close> hands the code.
  The contract all of them meet is the locale \<open>order_codec\<close>; it is interpreted on
  each pair of functions below.
\<close>

section \<open>The operations\<close>

definition short :: "string \<Rightarrow> 'a res" where
  "short op = fail Corruption op ''need more bytes''"

definition signBit64 :: "64 word" where
  "signBit64 = push_bit 63 1"

definition signBit32 :: "32 word" where
  "signBit32 = push_bit 31 1"

definition PutUint64 :: "bytes \<Rightarrow> 64 word \<Rightarrow> bytes" where
  "PutUint64 dst v = dst @ be64 v"

definition GetUint64 :: "bytes \<Rightarrow> (64 word \<times> bytes) res" where
  "GetUint64 b = (if length b < 8 then short ''keys.GetUint64'' else Inr (unbe (take 8 b), drop 8 b))"

definition PutInt64 :: "bytes \<Rightarrow> 64 word \<Rightarrow> bytes" where
  "PutInt64 dst v = dst @ be64 (v XOR signBit64)"

definition GetInt64 :: "bytes \<Rightarrow> (64 word \<times> bytes) res" where
  "GetInt64 b =
     (if length b < 8 then short ''keys.GetInt64'' else Inr (unbe (take 8 b) XOR signBit64, drop 8 b))"

definition orderFloat64 :: "64 word \<Rightarrow> 64 word" where
  "orderFloat64 bits = (if bits AND signBit64 \<noteq> 0 then NOT bits else bits OR signBit64)"

definition unorderFloat64 :: "64 word \<Rightarrow> 64 word" where
  "unorderFloat64 bits = (if bits AND signBit64 \<noteq> 0 then bits AND NOT signBit64 else NOT bits)"

definition orderFloat32 :: "32 word \<Rightarrow> 32 word" where
  "orderFloat32 bits = (if bits AND signBit32 \<noteq> 0 then NOT bits else bits OR signBit32)"

definition unorderFloat32 :: "32 word \<Rightarrow> 32 word" where
  "unorderFloat32 bits = (if bits AND signBit32 \<noteq> 0 then bits AND NOT signBit32 else NOT bits)"

definition PutFloat64 :: "bytes \<Rightarrow> 64 word \<Rightarrow> bytes" where
  "PutFloat64 dst v = dst @ be64 (orderFloat64 v)"

definition GetFloat64 :: "bytes \<Rightarrow> (64 word \<times> bytes) res" where
  "GetFloat64 b =
     (if length b < 8 then short ''keys.GetFloat64''
      else Inr (unorderFloat64 (unbe (take 8 b)), drop 8 b))"

definition PutFloat32 :: "bytes \<Rightarrow> 32 word \<Rightarrow> bytes" where
  "PutFloat32 dst v = dst @ be32 (orderFloat32 v)"

definition GetFloat32 :: "bytes \<Rightarrow> (32 word \<times> bytes) res" where
  "GetFloat32 b =
     (if length b < 4 then short ''keys.GetFloat32''
      else Inr (unorderFloat32 (unbe (take 4 b)), drop 4 b))"

definition PutUint32 :: "bytes \<Rightarrow> 32 word \<Rightarrow> bytes" where
  "PutUint32 dst v = dst @ be32 v"

definition GetUint32 :: "bytes \<Rightarrow> (32 word \<times> bytes) res" where
  "GetUint32 b = (if length b < 4 then short ''keys.GetUint32'' else Inr (unbe (take 4 b), drop 4 b))"

definition PutUint8 :: "bytes \<Rightarrow> 8 word \<Rightarrow> bytes" where
  "PutUint8 dst v = dst @ [v]"

fun GetUint8 :: "bytes \<Rightarrow> (8 word \<times> bytes) res" where
  "GetUint8 [] = short ''keys.GetUint8''"
| "GetUint8 (b # bs) = Inr (b, bs)"

definition PutBool :: "bytes \<Rightarrow> bool \<Rightarrow> bytes" where
  "PutBool dst v = (if v then dst @ [0x01] else dst @ [0x00])"

fun GetBool :: "bytes \<Rightarrow> (bool \<times> bytes) res" where
  "GetBool [] = short ''keys.GetBool''"
| "GetBool (b # bs) =
     (if b = 0x00 then Inr (False, bs)
      else if b = 0x01 then Inr (True, bs)
      else fail Corruption ''keys.GetBool'' ''a bool is 0x00 or 0x01'')"

text \<open>The loop of \<^verbatim>\<open>PutString\<close>: a NUL is escaped, and the terminator follows the last byte.\<close>

fun PutString :: "bytes \<Rightarrow> bytes \<Rightarrow> bytes" where
  "PutString dst [] = dst @ [0x00, 0x00]"
| "PutString dst (c # cs) =
     (if c = 0x00 then PutString (dst @ [0x00, 0xFF]) cs else PutString (dst @ [c]) cs)"

fun GetString_loop :: "bytes \<Rightarrow> bytes \<Rightarrow> (bytes \<times> bytes) res" where
  "GetString_loop out [] = fail Corruption ''keys.GetString'' ''string is not terminated''"
| "GetString_loop out (c # cs) =
     (if c \<noteq> 0x00 then GetString_loop (out @ [c]) cs
      else
        (case cs of
           [] \<Rightarrow> fail Corruption ''keys.GetString'' ''string ends after an escape byte''
         | d # ds \<Rightarrow>
             if d = 0x00 then Inr (out, ds)
             else if d = 0xFF then GetString_loop (out @ [0x00]) ds
             else fail Corruption ''keys.GetString'' ''0x00 must be followed by 0x00 or 0xFF''))"

definition GetString :: "bytes \<Rightarrow> (bytes \<times> bytes) res" where
  "GetString b = GetString_loop [] b"

section \<open>The contract\<close>

text \<open>
  What a value encoder owes the key it is placed in. \<open>lt\<close> is the order the
  encoder claims to preserve. The laws: the decoder inverts the encoder and stops at
  its end, it accepts nothing else, and smaller values encode below larger
  ones whatever follows either.
\<close>

locale order_codec =
  fixes put :: "bytes \<Rightarrow> 'a \<Rightarrow> bytes"
    and get :: "bytes \<Rightarrow> ('a \<times> bytes) res"
    and lt :: "'a \<Rightarrow> 'a \<Rightarrow> bool"
  assumes put_append: "put dst v = dst @ put [] v"
    and get_put: "get (put [] v @ rest) = Inr (v, rest)"
    and get_canonical: "get b = Inr (v, rest) \<Longrightarrow> b = put [] v @ rest"
    and lt_put: "lt u v \<Longrightarrow> put [] u @ x < put [] v @ y"
    and lt_total: "u \<noteq> v \<Longrightarrow> lt u v \<or> lt v u"
begin

lemma put_append_eq_iff: "put [] u @ x = put [] v @ y \<longleftrightarrow> u = v \<and> x = y"
proof
  assume "put [] u @ x = put [] v @ y"
  from arg_cong [OF this, of get] show "u = v \<and> x = y" by (simp add: get_put)
qed simp

lemma put_append_less_iff: "put [] u @ x < put [] v @ y \<longleftrightarrow> lt u v \<or> u = v \<and> x < y"
proof (cases "u = v")
  case True
  then show ?thesis using lt_put [of u v x x] by auto
next
  case False
  then show ?thesis using lt_put [of u v x y] lt_put [of v u y x] lt_total [of u v] by auto
qed

lemma put_inject: "put dst u = put dst v \<longleftrightarrow> u = v"
  using put_append_eq_iff [of u "[]" v "[]"] put_append [of dst u] put_append [of dst v] by simp

lemma put_less_iff: "put [] u < put [] v \<longleftrightarrow> lt u v"
  using put_append_less_iff [of u "[]" v "[]"] by simp

lemma put_prefix_free: "prefix (put [] u) (put [] v @ y) \<longleftrightarrow> u = v"
  by (auto simp: prefix_def put_append_eq_iff)

lemma get_iff: "get b = Inr (v, rest) \<longleftrightarrow> b = put [] v @ rest"
  using get_put get_canonical by blast

end

section \<open>Fixed-width integers\<close>

lemma be_split_iff:
  assumes "LENGTH('a) = 8 * n"
  shows "b = be n v @ rest \<longleftrightarrow> n \<le> length b \<and> unbe (take n b) = (v :: 'a::len word) \<and> drop n b = rest"
proof
  assume "b = be n v @ rest"
  then show "n \<le> length b \<and> unbe (take n b) = v \<and> drop n b = rest" using assms by simp
next
  assume r: "n \<le> length b \<and> unbe (take n b) = v \<and> drop n b = rest"
  then have "be n v = take n b" using be_unbe [of "take n b", where 'a='a] assms by auto
  with r show "b = be n v @ rest" by auto
qed

lemma be_append_less_iff [lex_simps]:
  assumes "LENGTH('a) \<le> 8 * n"
  shows "be n u @ x < be n v @ y \<longleftrightarrow> (u :: 'a::len word) < v \<or> u = v \<and> x < y"
  using assms by (simp add: append_less_same_length)

lemma GetUint64_iff: "GetUint64 b = Inr (v, rest) \<longleftrightarrow> b = be64 v @ rest"
  by (subst be_split_iff) (auto simp: GetUint64_def short_def not_less)

lemma GetUint32_iff: "GetUint32 b = Inr (v, rest) \<longleftrightarrow> b = be32 v @ rest"
  by (subst be_split_iff) (auto simp: GetUint32_def short_def not_less)

lemma GetUint8_iff: "GetUint8 b = Inr (v, rest) \<longleftrightarrow> b = v # rest"
  by (cases b) (auto simp: short_def)

lemma GetBool_iff: "GetBool b = Inr (v, rest) \<longleftrightarrow> b = (if v then 0x01 else 0x00) # rest"
  by (cases b) (auto simp: short_def)

interpretation uint64_codec: order_codec PutUint64 GetUint64 "(<)"
  by unfold_locales (auto simp: PutUint64_def GetUint64_iff be_append_less_iff)

interpretation uint32_codec: order_codec PutUint32 GetUint32 "(<)"
  by unfold_locales (auto simp: PutUint32_def GetUint32_iff be_append_less_iff)

interpretation uint8_codec: order_codec PutUint8 GetUint8 "(<)"
  by unfold_locales (auto simp: PutUint8_def GetUint8_iff)

interpretation bool_codec: order_codec PutBool GetBool "(<)"
  by unfold_locales (auto simp: PutBool_def GetBool_iff)

section \<open>Signed integers\<close>

text \<open>
  The sign bit of a word of any width, so that the facts below serve the 64-bit and
  the 32-bit encoders alike.
\<close>

definition sgnbit :: "'a::len word" where
  "sgnbit = push_bit (LENGTH('a) - 1) 1"

lemma signBit64_sgnbit: "signBit64 = sgnbit"
  by (simp add: signBit64_def sgnbit_def)

lemma signBit32_sgnbit: "signBit32 = sgnbit"
  by (simp add: signBit32_def sgnbit_def)

lemma bit_sgnbit [bit_simps]: "bit (sgnbit :: 'a::len word) n \<longleftrightarrow> n = LENGTH('a) - 1"
  unfolding sgnbit_def bit_push_bit_iff bit_1_iff by (auto simp: possible_bit_def)

lemma unat_sgnbit: "unat (sgnbit :: 'a::len word) = 2 ^ (LENGTH('a) - 1)"
proof -
  have "unat (push_bit (LENGTH('a) - 1) (1 :: 'a word)) = take_bit LENGTH('a) (2 ^ (LENGTH('a) - 1))"
    by (simp only: unsigned_push_bit_eq) (simp add: push_bit_eq_mult)
  then show ?thesis by (simp add: sgnbit_def take_bit_nat_eq_self)
qed

lemma sgnbit_add_self: "sgnbit + sgnbit = (0 :: 'a::len word)"
proof -
  have "unat (sgnbit + sgnbit :: 'a word) = 0"
    by (simp add: unat_word_ariths unat_sgnbit mult_2 [symmetric] power_Suc [symmetric] del: power_Suc)
  then show ?thesis by (simp only: unat_eq_0)
qed

lemma xor_sgnbit_add: "v XOR sgnbit = v + (sgnbit :: 'a::len word)"
proof (cases "bit v (LENGTH('a) - 1)")
  case False
  then have "v AND sgnbit = 0" by (intro bit_eqI) (auto simp: bit_simps)
  then show ?thesis by (simp add: disjunctive_add_eq_xor)
next
  case True
  define u where "u = v XOR sgnbit"
  then have v: "v = u XOR sgnbit" by (auto intro!: bit_eqI simp: bit_simps)
  have "u AND sgnbit = 0" using True by (intro bit_eqI) (auto simp: bit_simps u_def)
  then have "v = u + sgnbit" using v by (simp add: disjunctive_add_eq_xor)
  then have "v + sgnbit = u" by (simp add: add.assoc sgnbit_add_self)
  then show ?thesis by (simp add: u_def)
qed

lemma sint_flip: "sint v = uint (v XOR sgnbit) - 2 ^ (LENGTH('a) - 1)" for v :: "'a::len word"
proof -
  have "sint v = take_bit LENGTH('a) (uint v + 2 ^ (LENGTH('a) - 1)) - 2 ^ (LENGTH('a) - 1)"
    using signed_take_bit_eq_take_bit_shift [of "LENGTH('a) - 1" "uint v"] by (simp add: sint_uint)
  moreover have "uint (v + sgnbit) = take_bit LENGTH('a) (uint v + uint (sgnbit :: 'a word))"
    by (simp add: uint_word_ariths take_bit_eq_mod)
  moreover have "uint (sgnbit :: 'a word) = 2 ^ (LENGTH('a) - 1)"
  proof -
    have "int (unat (sgnbit :: 'a word)) = 2 ^ (LENGTH('a) - 1)" by (simp only: unat_sgnbit) simp
    then show ?thesis by (simp only: of_nat_unat)
  qed
  ultimately show ?thesis by (simp add: xor_sgnbit_add)
qed

lemma flip_less_iff: "u XOR sgnbit < v XOR sgnbit \<longleftrightarrow> sint u < sint (v :: 'a::len word)"
  by (simp add: sint_flip word_less_def)

lemma flip_flip [simp]: "(v XOR w) XOR w = (v :: 'a::len word)"
  by (simp add: xor.assoc)

lemma GetInt64_iff: "GetInt64 b = Inr (v, rest) \<longleftrightarrow> b = be64 (v XOR signBit64) @ rest"
  by (subst be_split_iff) (auto simp: GetInt64_def short_def not_less)

interpretation int64_codec: order_codec PutInt64 GetInt64 "\<lambda>u v. sint u < sint v"
proof
  fix u v :: "64 word"
  show "u \<noteq> v \<Longrightarrow> sint u < sint v \<or> sint v < sint u"
    by (metis neq_iff signed_word_eqI)
qed (auto simp: PutInt64_def GetInt64_iff be_append_less_iff signBit64_sgnbit flip_less_iff)

section \<open>Floats\<close>

text \<open>
  A float of \<open>p\<close> fraction bits is a sign and a magnitude. \<open>fmag p m\<close> is the value
  the magnitude bits \<open>m\<close> stand for, in units of the smallest subnormal: the fraction
  itself below the first normal number, the significand scaled by the exponent from there
  on. Infinity takes the place after the largest finite number, which is where the
  comparison operators put it. \<open>f32_val\<close> and \<open>f64_val\<close> add the sign; both zeroes
  have the value 0.
\<close>

definition fmag :: "nat \<Rightarrow> nat \<Rightarrow> nat" where
  "fmag p m = (if m < 2 ^ p then m else (2 ^ p + m mod 2 ^ p) * 2 ^ (m div 2 ^ p - 1))"

definition fneg :: "'a::len word \<Rightarrow> bool" where
  "fneg w = bit w (LENGTH('a) - 1)"

definition fbits :: "'a::len word \<Rightarrow> nat" where
  "fbits w = unat (take_bit (LENGTH('a) - 1) w)"

definition f32_val :: "32 word \<Rightarrow> int" where
  "f32_val w = (if fneg w then - int (fmag 23 (fbits w)) else int (fmag 23 (fbits w)))"

definition f64_val :: "64 word \<Rightarrow> int" where
  "f64_val w = (if fneg w then - int (fmag 52 (fbits w)) else int (fmag 52 (fbits w)))"

definition f32_isNaN :: "32 word \<Rightarrow> bool" where
  "f32_isNaN w = (0x7F800000 < fbits w)"

definition f64_isNaN :: "64 word \<Rightarrow> bool" where
  "f64_isNaN w = (0x7FF0000000000000 < fbits w)"

text \<open>Go's \<open><\<close> on floats: false as soon as one side is not a number.\<close>

definition f32_less :: "32 word \<Rightarrow> 32 word \<Rightarrow> bool" where
  "f32_less a b \<longleftrightarrow> \<not> f32_isNaN a \<and> \<not> f32_isNaN b \<and> f32_val a < f32_val b"

definition f64_less :: "64 word \<Rightarrow> 64 word \<Rightarrow> bool" where
  "f64_less a b \<longleftrightarrow> \<not> f64_isNaN a \<and> \<not> f64_isNaN b \<and> f64_val a < f64_val b"

text \<open>The order of the encodings: negative before positive, magnitudes reversed below zero.\<close>

definition ftotal :: "'a::len word \<Rightarrow> 'a word \<Rightarrow> bool" where
  "ftotal a b =
     (if fneg a = fneg b then (if fneg a then fbits b < fbits a else fbits a < fbits b) else fneg a)"

lemma fmag_strict_mono: "m < n \<Longrightarrow> fmag p m < fmag p n"
proof -
  have step: "fmag p m < fmag p (Suc m)" for m
  proof -
    consider "Suc m < 2 ^ p" | "Suc m = 2 ^ p" | "2 ^ p < Suc m" by linarith
    then show ?thesis
    proof cases
      case 3
      then have m: "2 ^ p \<le> m" by simp
      define q r where "q = m div 2 ^ p" and "r = m mod 2 ^ p"
      have qr: "m = q * 2 ^ p + r" "r < 2 ^ p"
        using div_mult_mod_eq [of m "2 ^ p"] by (simp_all add: q_def r_def)
      have q: "0 < q" using m by (simp add: q_def div_greater_zero_iff)
      show ?thesis
      proof (cases "Suc r = 2 ^ p")
        case True
        then have "Suc m = Suc q * 2 ^ p" using qr by simp
        then have div: "Suc m div 2 ^ p = Suc q" "Suc m mod 2 ^ p = 0" by simp_all
        have "fmag p m = (2 ^ p + r) * 2 ^ (q - 1)" using m by (simp add: fmag_def q_def r_def)
        also have "\<dots> < (2 ^ p + 2 ^ p) * 2 ^ (q - 1)" using qr by simp
        also have "\<dots> = 2 ^ p * 2 ^ q" using q by (cases q) simp_all
        also have "\<dots> = fmag p (Suc m)" using 3 div by (simp add: fmag_def)
        finally show ?thesis .
      next
        case False
        then have "Suc m = q * 2 ^ p + Suc r" "Suc r < 2 ^ p" using qr by simp_all
        then have div: "Suc m div 2 ^ p = q" "Suc m mod 2 ^ p = Suc r"
          using div_mult_self3 [of "2 ^ p" q "Suc r"] mod_mult_self3 [of q "2 ^ p" "Suc r"]
          by simp_all
        show ?thesis using 3 m div by (simp add: fmag_def q_def r_def)
      qed
    qed (simp_all add: fmag_def)
  qed
  show "m < n \<Longrightarrow> fmag p m < fmag p n"
    using lift_Suc_mono_less [of "fmag p" m n] step by blast
qed

lemma fmag_less_iff [simp]: "fmag p m < fmag p n \<longleftrightarrow> m < n"
  by (metis fmag_strict_mono linorder_neqE_nat order_less_asym)

lemma fmag_0 [simp]: "fmag p 0 = 0"
  by (simp add: fmag_def)

lemma fmag_eq_0_iff [simp]: "fmag p m = 0 \<longleftrightarrow> m = 0"
  using fmag_less_iff [of p 0 m] by auto

lemma and_sgnbit_iff: "w AND sgnbit \<noteq> 0 \<longleftrightarrow> fneg w"
proof -
  have "w AND sgnbit = (if fneg w then sgnbit else 0)"
    by (rule bit_eqI) (auto simp: bit_simps fneg_def)
  moreover have "(sgnbit :: 'a word) \<noteq> 0" using unat_sgnbit [where 'a='a] by (metis power_not_zero unat_0 zero_neq_numeral)
  ultimately show ?thesis by simp
qed

lemma fbits_less: "fbits (w :: 'a::len word) < 2 ^ (LENGTH('a) - 1)"
  unfolding fbits_def by (simp only: unsigned_take_bit_eq take_bit_nat_less_exp)

lemma unat_sign_split:
  "unat w = (if fneg w then 2 ^ (LENGTH('a) - 1) else 0) + fbits w" for w :: "'a::len word"
proof -
  have "w = (if fneg w then sgnbit else 0) OR take_bit (LENGTH('a) - 1) w"
  proof (rule bit_eqI)
    fix n assume "possible_bit TYPE('a word) n"
    then have "n < LENGTH('a) - 1 \<or> n = LENGTH('a) - 1" by (auto simp: possible_bit_def)
    then show "bit w n = bit ((if fneg w then sgnbit else 0) OR take_bit (LENGTH('a) - 1) w) n"
      by (auto simp: bit_simps fneg_def)
  qed
  moreover have "(if fneg w then sgnbit else 0) AND take_bit (LENGTH('a) - 1) w = 0"
    by (rule bit_eqI) (auto simp: bit_simps)
  ultimately have w: "w = (if fneg w then sgnbit else 0) + take_bit (LENGTH('a) - 1) w"
    by (simp add: disjunctive_add_eq_or)
  have "unat (if fneg w then sgnbit else 0 :: 'a word) + fbits w < 2 ^ LENGTH('a)"
    using fbits_less [of w] power_Suc [of "2 :: nat" "LENGTH('a) - 1"]
    by (simp add: unat_sgnbit del: power_Suc)
  then have "unat ((if fneg w then sgnbit else 0) + take_bit (LENGTH('a) - 1) w) =
      unat (if fneg w then sgnbit else 0 :: 'a word) + fbits w"
    by (simp only: fbits_def unat_word_ariths) simp
  then show ?thesis using w by (simp add: unat_sgnbit split: if_splits)
qed

lemma unat_NOT: "unat (NOT w) = 2 ^ LENGTH('a) - 1 - unat w" for w :: "'a::len word"
proof -
  have "NOT w = -1 - w" by (simp add: not_eq_complement)
  moreover have "unat (-1 - w) = unat (-1 :: 'a word) - unat w" by (rule unat_sub) simp
  ultimately show ?thesis by (simp add: unsigned_minus_1_eq_mask mask_eq_exp_minus_1)
qed

text \<open>The transform and its inverse at any width; the two instances are the source's functions.\<close>

definition ford :: "'a::len word \<Rightarrow> 'a word" where
  "ford w = (if w AND sgnbit \<noteq> 0 then NOT w else w OR sgnbit)"

definition unford :: "'a::len word \<Rightarrow> 'a word" where
  "unford w = (if w AND sgnbit \<noteq> 0 then w AND NOT sgnbit else NOT w)"

lemma orderFloat64_ford: "orderFloat64 = ford" "unorderFloat64 = unford"
  by (simp_all add: fun_eq_iff orderFloat64_def unorderFloat64_def ford_def unford_def signBit64_sgnbit)

lemma orderFloat32_ford: "orderFloat32 = ford" "unorderFloat32 = unford"
  by (simp_all add: fun_eq_iff orderFloat32_def unorderFloat32_def ford_def unford_def signBit32_sgnbit)

lemma fneg_ford: "fneg (ford w) = (\<not> fneg w)"
  by (auto simp: ford_def and_sgnbit_iff fneg_def bit_simps)

lemma unford_ford [simp]: "unford (ford w) = w"
  unfolding unford_def and_sgnbit_iff fneg_ford
  by (rule bit_eqI) (auto simp: ford_def and_sgnbit_iff fneg_def bit_simps dest: bit_imp_le_length)

lemma ford_unford [simp]: "ford (unford w) = w"
proof -
  have "fneg (unford w) = (\<not> fneg w)"
    by (auto simp: unford_def and_sgnbit_iff fneg_def bit_simps)
  then show ?thesis
    unfolding ford_def and_sgnbit_iff
    by (intro bit_eqI) (auto simp: unford_def and_sgnbit_iff fneg_def bit_simps dest: bit_imp_le_length)
qed

lemma unat_ford:
  "unat (ford w) = (if fneg w then 2 ^ (LENGTH('a) - 1) - 1 - fbits w else 2 ^ (LENGTH('a) - 1) + fbits w)"
  for w :: "'a::len word"
proof (cases "fneg w")
  case True
  have "(2 :: nat) ^ LENGTH('a) = 2 * 2 ^ (LENGTH('a) - 1)"
    using power_Suc [of "2 :: nat" "LENGTH('a) - 1"] by (simp del: power_Suc)
  with True show ?thesis
    using unat_sign_split [of w] by (simp add: ford_def and_sgnbit_iff unat_NOT)
next
  case False
  have "fbits (ford w) = fbits w"
  proof -
    have "take_bit (LENGTH('a) - 1) (ford w) = take_bit (LENGTH('a) - 1) w"
      using False by (intro bit_eqI) (auto simp: bit_simps ford_def and_sgnbit_iff)
    then show ?thesis by (simp add: fbits_def)
  qed
  with False show ?thesis using unat_sign_split [of "ford w"] fneg_ford [of w] by simp
qed

lemma ford_less_iff: "ford a < ford b \<longleftrightarrow> ftotal a b" for a b :: "'a::len word"
  using fbits_less [of a] fbits_less [of b]
  by (auto simp: word_less_nat_alt unat_ford ftotal_def)

lemma ftotal_total: "a \<noteq> b \<Longrightarrow> ftotal a b \<or> ftotal b a"
  using ford_less_iff [of a b] ford_less_iff [of b a] unford_ford by (metis neq_iff)

lemma GetFloat64_iff: "GetFloat64 b = Inr (v, rest) \<longleftrightarrow> b = be64 (ford v) @ rest"
proof -
  have "unford w = v \<longleftrightarrow> w = ford v" for w :: "64 word" using ford_unford unford_ford by metis
  then show ?thesis
    by (subst be_split_iff) (auto simp: GetFloat64_def short_def not_less orderFloat64_ford)
qed

lemma GetFloat32_iff: "GetFloat32 b = Inr (v, rest) \<longleftrightarrow> b = be32 (ford v) @ rest"
proof -
  have "unford w = v \<longleftrightarrow> w = ford v" for w :: "32 word" using ford_unford unford_ford by metis
  then show ?thesis
    by (subst be_split_iff) (auto simp: GetFloat32_def short_def not_less orderFloat32_ford)
qed

interpretation float64_codec: order_codec PutFloat64 GetFloat64 ftotal
  by unfold_locales
     (auto simp: PutFloat64_def GetFloat64_iff orderFloat64_ford be_append_less_iff ford_less_iff ftotal_total)

interpretation float32_codec: order_codec PutFloat32 GetFloat32 ftotal
  by unfold_locales
     (auto simp: PutFloat32_def GetFloat32_iff orderFloat32_ford be_append_less_iff ford_less_iff ftotal_total)

text \<open>
  On numbers the encoding order refines the numeric one: it agrees with \<open><\<close>
  except that it tells the two zeroes apart.
\<close>

lemma fmag_pos_iff [simp]: "0 < fmag p m \<longleftrightarrow> 0 < m"
  using fmag_less_iff [of p 0 m] by simp

lemma fmag_opposite: "- int (fmag p m) < int (fmag p n) \<longleftrightarrow> m \<noteq> 0 \<or> n \<noteq> 0"
proof -
  have "- int x < int y \<longleftrightarrow> x \<noteq> 0 \<or> y \<noteq> 0" for x y :: nat by linarith
  then show ?thesis by simp
qed

lemma ftotal_f32_val:
  "ftotal a b \<longleftrightarrow> f32_val a < f32_val b \<or> (fneg a \<and> \<not> fneg b \<and> fbits a = 0 \<and> fbits b = 0)"
  by (auto simp: ftotal_def f32_val_def fmag_opposite)

lemma ftotal_f64_val:
  "ftotal a b \<longleftrightarrow> f64_val a < f64_val b \<or> (fneg a \<and> \<not> fneg b \<and> fbits a = 0 \<and> fbits b = 0)"
  by (auto simp: ftotal_def f64_val_def fmag_opposite)

lemma sign_bits_eqI: "fneg a = fneg b \<Longrightarrow> fbits a = fbits b \<Longrightarrow> a = b"
  using ftotal_total [of a b] by (cases "a = b") (auto simp: ftotal_def split: if_splits)

lemma minus_zero_iff:
  "a = signBit64 \<longleftrightarrow> fneg a \<and> fbits a = 0" "c = signBit32 \<longleftrightarrow> fneg c \<and> fbits c = 0"
  "b = 0 \<longleftrightarrow> \<not> fneg b \<and> fbits b = 0"
proof -
  have "fneg signBit64" "fbits signBit64 = 0" "fneg signBit32" "fbits signBit32 = 0" by code_simp+
  then show "a = signBit64 \<longleftrightarrow> fneg a \<and> fbits a = 0" "c = signBit32 \<longleftrightarrow> fneg c \<and> fbits c = 0"
    using sign_bits_eqI [of a signBit64] sign_bits_eqI [of c signBit32] by auto
  show "b = 0 \<longleftrightarrow> \<not> fneg b \<and> fbits b = 0"
    using sign_bits_eqI [of b 0] by (auto simp: fneg_def fbits_def)
qed

section \<open>Strings\<close>

lemma PutString_append: "PutString dst v = dst @ PutString [] v"
proof (induction v arbitrary: dst)
  case Nil
  then show ?case by simp
next
  case (Cons c cs)
  show ?case using Cons.IH [of "dst @ [0, 0xFF]"] Cons.IH [of "dst @ [c]"] Cons.IH [of "[0, 0xFF]"] Cons.IH [of "[c]"]
    by simp
qed

lemma PutString_Nil: "PutString [] [] = [0, 0]"
  by simp

lemma PutString_Cons:
  "PutString [] (c # cs) = (if c = 0 then 0 # 0xFF # PutString [] cs else c # PutString [] cs)"
  using PutString_append [of "[0, 0xFF]" cs] PutString_append [of "[c]" cs] by simp

lemma GetString_loop_PutString: "GetString_loop out (PutString [] v @ rest) = Inr (out @ v, rest)"
proof (induction v arbitrary: out)
  case Nil
  then show ?case by simp
next
  case (Cons c cs)
  then show ?case by (simp add: PutString_Cons del: PutString.simps)
qed

lemma GetString_loop_sound:
  "GetString_loop out b = Inr (v, rest) \<Longrightarrow> \<exists>u. v = out @ u \<and> b = PutString [] u @ rest"
proof (induction out b rule: GetString_loop.induct)
  case (1 out)
  then show ?case by simp
next
  case (2 out c cs)
  show ?case
  proof (cases "c = 0")
    case False
    with 2 obtain u where "v = out @ [c] @ u" "cs = PutString [] u @ rest" by auto
    with False show ?thesis
      by (intro exI [of _ "c # u"]) (simp add: PutString_Cons del: PutString.simps)
  next
    case True
    with 2 obtain d ds where cs: "cs = d # ds" by (cases cs) auto
    consider "d = 0" | "d = 0xFF" using 2 True cs by (auto split: if_splits)
    then show ?thesis
    proof cases
      case 1
      with 2 True cs show ?thesis by (intro exI [of _ "[]"]) simp
    next
      case 2
      with "2.IH" "2.prems" True cs obtain u where "v = out @ [0] @ u" "ds = PutString [] u @ rest"
        by (auto split: if_splits)
      with 2 True cs show ?thesis
        by (intro exI [of _ "0 # u"]) (simp add: PutString_Cons del: PutString.simps)
    qed
  qed
qed

lemma PutString_less: "u < v \<Longrightarrow> PutString [] u @ x < PutString [] v @ y"
proof (induction u arbitrary: v)
  case Nil
  then obtain c cs where "v = c # cs" by (cases v) auto
  then show ?case by (auto simp: PutString_Cons word_neq_0_conv simp del: PutString.simps) (simp_all add: PutString_Nil)
next
  case (Cons c cs)
  then obtain d ds where v: "v = d # ds" by (cases v) auto
  with Cons show ?case
    by (cases "c = d") (auto simp: PutString_Cons word_neq_0_conv simp del: PutString.simps)
qed

interpretation string_codec: order_codec PutString GetString "(<)"
proof
  fix b v rest
  assume "GetString b = Inr (v, rest)"
  then show "b = PutString [] v @ rest" using GetString_loop_sound [of "[]" b v rest] by (auto simp: GetString_def)
qed (auto simp: GetString_def GetString_loop_PutString PutString_less intro: PutString_append)

section \<open>The order-preserving encoding\<close>

text \<open>
  C3: The encodings of integers, booleans and strings sort as the values do. With more key behind
  each value, the bytes compare as the values first and as what follows only when the values are
  equal, which is what lets a bounded scan of the index replace a sort.
\<close>

theorem put_order_preserving:
  "(PutUint64 [] u @ x < PutUint64 [] v @ y \<longleftrightarrow> u < v \<or> u = v \<and> x < y) \<and>
   (PutUint32 [] u32 @ x < PutUint32 [] v32 @ y \<longleftrightarrow> u32 < v32 \<or> u32 = v32 \<and> x < y) \<and>
   (PutInt64 [] i @ x < PutInt64 [] j @ y \<longleftrightarrow> sint i < sint j \<or> i = j \<and> x < y) \<and>
   (PutBool [] b @ x < PutBool [] c @ y \<longleftrightarrow> b < c \<or> b = c \<and> x < y) \<and>
   (PutString [] s @ x < PutString [] t @ y \<longleftrightarrow> s < t \<or> s = t \<and> x < y)"
  by (simp only: uint64_codec.put_append_less_iff uint32_codec.put_append_less_iff
      int64_codec.put_append_less_iff bool_codec.put_append_less_iff string_codec.put_append_less_iff
      simp_thms)

text \<open>
  C4: The float encodings sort as Go's \<open><\<close> does on every pair of numbers, infinities
  and subnormals included, except that minus zero, which compares equal to plus zero, is put
  before it.
\<close>

theorem put_float_order_preserving:
  assumes "\<not> f64_isNaN a" "\<not> f64_isNaN b" "\<not> f32_isNaN c" "\<not> f32_isNaN d"
  shows "(PutFloat64 [] a < PutFloat64 [] b \<longleftrightarrow> f64_less a b \<or> (a = signBit64 \<and> b = 0)) \<and>
         (PutFloat32 [] c < PutFloat32 [] d \<longleftrightarrow> f32_less c d \<or> (c = signBit32 \<and> d = 0))"
  using assms
  by (auto simp: float64_codec.put_less_iff float32_codec.put_less_iff ftotal_f64_val ftotal_f32_val
      f64_less_def f32_less_def minus_zero_iff)

theorem put_float_order_preserving_witness:
  "PutFloat64 [] 0x8000000000000001 < PutFloat64 [] 0x3FF0000000000000 \<and>
   PutFloat32 [] 0x00000001 < PutFloat32 [] 0x3F800000"
proof -
  have "\<not> f64_isNaN 0x8000000000000001" "\<not> f64_isNaN 0x3FF0000000000000"
    "\<not> f32_isNaN 0x00000001" "\<not> f32_isNaN 0x3F800000"
    by (simp_all add: f64_isNaN_def f32_isNaN_def fbits_def)
  moreover have "f64_less 0x8000000000000001 0x3FF0000000000000" "f32_less 0x00000001 0x3F800000"
    by (simp_all add: f64_less_def f32_less_def f64_val_def f32_val_def f64_isNaN_def f32_isNaN_def
        fbits_def fneg_def fmag_def)
  ultimately show ?thesis
    using put_float_order_preserving [of "0x8000000000000001" "0x3FF0000000000000" "0x00000001" "0x3F800000"]
    by simp
qed

text \<open>
  C5: A decoder gives back a value and a remainder exactly when the bytes are the encoding of that
  value followed by that remainder: encode then decode is the identity, and no byte string other than
  the encoder's own is accepted.
\<close>

theorem get_exact_inverse:
  "(GetUint64 b = Inr (u, rest) \<longleftrightarrow> b = PutUint64 [] u @ rest) \<and>
   (GetUint32 b = Inr (u32, rest) \<longleftrightarrow> b = PutUint32 [] u32 @ rest) \<and>
   (GetInt64 b = Inr (i, rest) \<longleftrightarrow> b = PutInt64 [] i @ rest) \<and>
   (GetFloat64 b = Inr (f, rest) \<longleftrightarrow> b = PutFloat64 [] f @ rest) \<and>
   (GetFloat32 b = Inr (g, rest) \<longleftrightarrow> b = PutFloat32 [] g @ rest) \<and>
   (GetBool b = Inr (c, rest) \<longleftrightarrow> b = PutBool [] c @ rest) \<and>
   (GetString b = Inr (s, rest) \<longleftrightarrow> b = PutString [] s @ rest)"
  by (simp only: uint64_codec.get_iff uint32_codec.get_iff int64_codec.get_iff float64_codec.get_iff
      float32_codec.get_iff bool_codec.get_iff string_codec.get_iff simp_thms)


end
