(* ===== verification/Identity.thy ===== *)
theory Identity
  imports Key_Order
begin

text \<open>
  The identities a key is built from: tenants and namespaces
  (\<^verbatim>\<open>src/internal/tenant/tenant.go\<close>), record ids (\<^verbatim>\<open>src/internal/id/id.go\<close>) and
  instants of time. A Go string is its bytes. A record id, Go's \<^verbatim>\<open>[16]byte\<close>, is the
  128-bit word those bytes spell in big-endian order, so that \<^verbatim>\<open>id.Zero\<close> is 0 and
  byte-wise comparison is \<open><\<close>; \<open>id_bytes\<close> is \<^verbatim>\<open>rid[:]\<close>. An instant, Go's
  \<^verbatim>\<open>time.Time\<close>, is its distance in nanoseconds from the zero instant, the first of
  January of the year 1.
\<close>

section \<open>Tenants and namespaces\<close>

type_synonym tenant = bytes
type_synonym nspace = bytes

definition DefaultNamespace :: nspace where
  "DefaultNamespace = str ''default''"

definition MaxIDLen :: nat where
  "MaxIDLen = 128"

definition valid_char :: "byte \<Rightarrow> bool" where
  "valid_char c \<longleftrightarrow> (0x61 \<le> c \<and> c \<le> 0x7A) \<or> (0x30 \<le> c \<and> c \<le> 0x39) \<or> c = 0x5F \<or> c = 0x2D"

fun validate_chars :: "bytes \<Rightarrow> error option" where
  "validate_chars [] = None"
| "validate_chars (c # cs) =
     (if valid_char c then validate_chars cs else Some (Plain ''only [a-z0-9_-] is allowed''))"

definition validate :: "bytes \<Rightarrow> error option" where
  "validate s =
     (if length s = 0 then Some (Plain ''must not be empty'')
      else if MaxIDLen < length s then Some (Plain ''is over the limit'')
      else validate_chars s)"

definition tenant_Parse :: "bytes \<Rightarrow> tenant res" where
  "tenant_Parse s =
     (case validate s of Some e \<Rightarrow> Inl (Error Invalid ''tenant.Parse'' e) | None \<Rightarrow> Inr s)"

definition ParseNamespace :: "bytes \<Rightarrow> nspace res" where
  "ParseNamespace s =
     (case validate s of Some e \<Rightarrow> Inl (Error Invalid ''tenant.ParseNamespace'' e) | None \<Rightarrow> Inr s)"

definition tenant_Valid :: "tenant \<Rightarrow> bool" where
  "tenant_Valid t \<longleftrightarrow> validate t = None"

definition namespace_Valid :: "nspace \<Rightarrow> bool" where
  "namespace_Valid ns \<longleftrightarrow> validate ns = None"

lemma validate_chars_iff: "validate_chars s = None \<longleftrightarrow> list_all valid_char s"
  by (induction s) auto

lemma validate_iff: "validate s = None \<longleftrightarrow> s \<noteq> [] \<and> length s \<le> 128 \<and> list_all valid_char s"
  by (auto simp: validate_def MaxIDLen_def validate_chars_iff)

section \<open>Record ids\<close>

type_synonym id = "128 word"

definition id_bytes :: "id \<Rightarrow> bytes" where
  "id_bytes i = be 16 i"

definition idLen :: nat where
  "idLen = 16"

definition FromBytes :: "bytes \<Rightarrow> id res" where
  "FromBytes b =
     (if length b \<noteq> 16 then fail Invalid ''id.FromBytes'' ''an id is 16 bytes'' else Inr (unbe b))"

definition id_IsZero :: "id \<Rightarrow> bool" where
  "id_IsZero i \<longleftrightarrow> i = 0"

definition id_Version :: "id \<Rightarrow> nat" where
  "id_Version i = unat (drop_bit 4 (id_bytes i ! 6))"

lemma length_id_bytes [simp]: "length (id_bytes i) = 16"
  by (simp add: id_bytes_def)

lemma id_bytes_eq_iff [simp]: "id_bytes i = id_bytes j \<longleftrightarrow> i = j"
  by (simp add: id_bytes_def)

lemma id_bytes_less_iff [simp]: "id_bytes i < id_bytes j \<longleftrightarrow> i < j"
  by (simp add: id_bytes_def)

lemma id_bytes_le_iff [simp]: "id_bytes i \<le> id_bytes j \<longleftrightarrow> i \<le> j"
  by (simp add: le_less)

lemma id_bytes_append_less_iff [lex_simps]:
  "id_bytes i @ x < id_bytes j @ y \<longleftrightarrow> i < j \<or> i = j \<and> x < y"
  by (simp add: append_less_same_length)

lemma FromBytes_id_bytes [simp]: "FromBytes (id_bytes i) = Inr i"
  by (simp add: FromBytes_def id_bytes_def)

lemma FromBytes_iff: "FromBytes b = Inr i \<longleftrightarrow> b = id_bytes i"
  using be_unbe [of b, where 'a=128] by (auto simp: FromBytes_def id_bytes_def)

section \<open>Instants\<close>

type_synonym time = int
type_synonym duration = int

text \<open>Milliseconds from the zero instant to the Unix epoch.\<close>

definition unix_epoch_ms :: int where
  "unix_epoch_ms = 62135596800000"

definition UnixMilli :: "time \<Rightarrow> int" where
  "UnixMilli t = t div 1000000 - unix_epoch_ms"

definition of_UnixMilli :: "int \<Rightarrow> time" where
  "of_UnixMilli ms = (ms + unix_epoch_ms) * 1000000"

lemma UnixMilli_of_UnixMilli [simp]: "UnixMilli (of_UnixMilli ms) = ms"
  by (simp add: UnixMilli_def of_UnixMilli_def)

lemma UnixMilli_mono: "s \<le> t \<Longrightarrow> UnixMilli s \<le> UnixMilli t"
  by (simp add: UnixMilli_def zdiv_mono1)

definition id_Time :: "id \<Rightarrow> time" where
  "id_Time i =
     (if id_Version i \<noteq> 7 then 0
      else of_UnixMilli (uint (unbe ([0, 0] @ take 6 (id_bytes i)) :: 64 word)))"

end
