(* ===== verification/Keys.thy ===== *)
theory Keys
  imports Identity
begin

text \<open>
  The key layout of \<^verbatim>\<open>src/internal/keys\<close>: the spaces (\<^verbatim>\<open>space.go\<close>), the
  builders, ranges and parsers (\<^verbatim>\<open>keys.go\<close>), the length-prefixed component reader
  (\<^verbatim>\<open>parse.go\<close>) and the user keys (\<^verbatim>\<open>users.go\<close>). Capacity hints of the Go
  builders have no meaning here and are left out. A Go string is at most
  $2^{63}-1$ bytes; \<open>fits\<close> says a component's length is representable.
\<close>

section \<open>Spaces\<close>

type_synonym space = byte

definition SpaceSystem :: space where "SpaceSystem = 0x01"
definition SpaceRecord :: space where "SpaceRecord = 0x02"
definition SpaceVector :: space where "SpaceVector = 0x03"
definition SpaceEdgeOut :: space where "SpaceEdgeOut = 0x04"
definition SpaceEdgeIn :: space where "SpaceEdgeIn = 0x05"
definition SpaceAttrRow :: space where "SpaceAttrRow = 0x06"
definition SpaceAttrIndex :: space where "SpaceAttrIndex = 0x07"
definition SpaceText :: space where "SpaceText = 0x08"
definition SpaceVectorIndex :: space where "SpaceVectorIndex = 0x09"
definition SpaceJob :: space where "SpaceJob = 0x0A"
definition SpaceEvent :: space where "SpaceEvent = 0x0B"
definition SpaceSession :: space where "SpaceSession = 0x0C"
definition SpaceJobPause :: space where "SpaceJobPause = 0x0D"
definition SpaceJobRun :: space where "SpaceJobRun = 0x0E"
definition SpacePassage :: space where "SpacePassage = 0x0F"
definition SpaceUser :: space where "SpaceUser = 0x30"

lemmas space_defs =
  SpaceSystem_def SpaceRecord_def SpaceVector_def SpaceEdgeOut_def SpaceEdgeIn_def SpaceAttrRow_def
  SpaceAttrIndex_def SpaceText_def SpaceVectorIndex_def SpaceJob_def SpaceEvent_def SpaceSession_def
  SpaceJobPause_def SpaceJobRun_def SpacePassage_def SpaceUser_def

definition spaceNames :: "space \<rightharpoonup> string" where
  "spaceNames = map_of
     [(SpaceSystem, ''system''), (SpaceRecord, ''record''), (SpaceVector, ''vector''),
      (SpaceEdgeOut, ''edge_out''), (SpaceEdgeIn, ''edge_in''), (SpaceAttrRow, ''attr_row''),
      (SpaceAttrIndex, ''attr_index''), (SpaceText, ''text''), (SpaceVectorIndex, ''vector_index''),
      (SpaceJob, ''job''), (SpaceEvent, ''event''), (SpaceSession, ''session''),
      (SpaceJobPause, ''job_pause''), (SpaceJobRun, ''job_run''), (SpacePassage, ''passage''),
      (SpaceUser, ''user'')]"

definition space_String :: "space \<Rightarrow> string" where
  "space_String s = (case spaceNames s of Some n \<Rightarrow> n | None \<Rightarrow> ''unknown'')"

text \<open>\<^verbatim>\<open>Class\<close>, whose zero value answers for a byte that is no space.\<close>

datatype space_class = NoClass | Canonical | Derived

definition derivations :: "space \<rightharpoonup> space list" where
  "derivations = map_of
     [(SpaceEdgeIn, [SpaceEdgeOut]), (SpaceAttrRow, [SpaceRecord]), (SpaceAttrIndex, [SpaceAttrRow]),
      (SpaceText, [SpaceRecord]), (SpaceVectorIndex, [SpaceVector]), (SpacePassage, [SpaceRecord])]"

definition space_Class :: "space \<Rightarrow> space_class" where
  "space_Class s =
     (if spaceNames s = None then NoClass
      else if derivations s \<noteq> None then Derived
      else Canonical)"

definition DerivedFrom :: "space \<Rightarrow> space list" where
  "DerivedFrom s = (case derivations s of Some ss \<Rightarrow> ss | None \<Rightarrow> [])"

definition AllSpaces :: "space list" where
  "AllSpaces =
     [SpaceSystem, SpaceRecord, SpaceVector, SpaceEdgeOut, SpaceEdgeIn, SpaceAttrRow, SpaceAttrIndex,
      SpaceText, SpaceVectorIndex, SpaceJob, SpaceEvent, SpaceSession, SpaceJobPause, SpaceJobRun,
      SpacePassage, SpaceUser]"

type_synonym recordtype = byte
type_synonym reltype = "16 word"
type_synonym jobstate = byte

definition RecordMemory :: recordtype where "RecordMemory = 0x01"

definition JobPending :: jobstate where "JobPending = 0x01"
definition JobRunning :: jobstate where "JobRunning = 0x02"
definition JobDone :: jobstate where "JobDone = 0x03"

definition jobStateNames :: "jobstate \<rightharpoonup> string" where
  "jobStateNames = map_of [(JobPending, ''pending''), (JobRunning, ''running''), (JobDone, ''done'')]"

definition AllJobStates :: "jobstate list" where
  "AllJobStates = [JobPending, JobRunning, JobDone]"

section \<open>Builders\<close>

text \<open>\<^verbatim>\<open>uvarintLen\<close>: how many bytes the length prefix takes.\<close>

function uvarintLen_loop :: "64 word \<Rightarrow> nat \<Rightarrow> nat" where
  "uvarintLen_loop v w = (if 0x80 \<le> v then uvarintLen_loop (drop_bit 7 v) (w + 1) else w)"
  by pat_completeness auto
termination
  by (relation "measure (\<lambda>(v, w). unat v)") (auto simp: unat_drop_bit_7 word_le_nat_alt)

declare uvarintLen_loop.simps [simp del]

definition uvarintLen :: "64 word \<Rightarrow> nat" where
  "uvarintLen n = uvarintLen_loop n 1"

definition len64 :: "bytes \<Rightarrow> 64 word" where
  "len64 b = of_nat (length b)"

definition scopePrefix :: "tenant \<Rightarrow> nspace \<Rightarrow> bytes" where
  "scopePrefix t ns = AppendUvarint (AppendUvarint [] (len64 t) @ t) (len64 ns) @ ns"

definition begin_key :: "tenant \<Rightarrow> nspace \<Rightarrow> space \<Rightarrow> bytes" where
  "begin_key t ns s = scopePrefix t ns @ [s]"

definition Record :: "tenant \<Rightarrow> nspace \<Rightarrow> recordtype \<Rightarrow> id \<Rightarrow> bytes" where
  "Record t ns typ rid = begin_key t ns SpaceRecord @ [typ] @ id_bytes rid"

definition checkScope :: "tenant \<Rightarrow> nspace \<Rightarrow> error option" where
  "checkScope t ns =
     (if t = [] then Some (err Invalid ''keys.checkScope'' ''a user-space key requires a tenant'')
      else if \<not> tenant_Valid t then Some (err Invalid ''keys.checkScope'' ''tenant id is malformed'')
      else if ns = [] then Some (err Invalid ''keys.checkScope'' ''a user-space key requires a namespace'')
      else if \<not> namespace_Valid ns then Some (err Invalid ''keys.checkScope'' ''namespace is malformed'')
      else None)"

definition RecordChecked :: "tenant \<Rightarrow> nspace \<Rightarrow> recordtype \<Rightarrow> id \<Rightarrow> bytes res" where
  "RecordChecked t ns typ rid =
     (case checkScope t ns of Some e \<Rightarrow> Inl e | None \<Rightarrow> Inr (Record t ns typ rid))"

definition Vector :: "tenant \<Rightarrow> nspace \<Rightarrow> id \<Rightarrow> bytes" where
  "Vector t ns rid = begin_key t ns SpaceVector @ id_bytes rid"

definition Passage :: "tenant \<Rightarrow> nspace \<Rightarrow> id \<Rightarrow> 32 word \<Rightarrow> bytes" where
  "Passage t ns rid passage = begin_key t ns SpacePassage @ id_bytes rid @ be32 passage"

definition EdgeOut :: "tenant \<Rightarrow> nspace \<Rightarrow> id \<Rightarrow> reltype \<Rightarrow> id \<Rightarrow> bytes" where
  "EdgeOut t ns from rel to = begin_key t ns SpaceEdgeOut @ id_bytes from @ be16 rel @ id_bytes to"

definition EdgeIn :: "tenant \<Rightarrow> nspace \<Rightarrow> id \<Rightarrow> reltype \<Rightarrow> id \<Rightarrow> bytes" where
  "EdgeIn t ns to rel from = begin_key t ns SpaceEdgeIn @ id_bytes to @ be16 rel @ id_bytes from"

definition AttrRow :: "tenant \<Rightarrow> nspace \<Rightarrow> id \<Rightarrow> bytes" where
  "AttrRow t ns rid = begin_key t ns SpaceAttrRow @ id_bytes rid"

definition AttrIndex :: "tenant \<Rightarrow> nspace \<Rightarrow> 16 word \<Rightarrow> bytes \<Rightarrow> id \<Rightarrow> bytes" where
  "AttrIndex t ns slot val rid = begin_key t ns SpaceAttrIndex @ be16 slot @ val @ id_bytes rid"

definition Text :: "tenant \<Rightarrow> nspace \<Rightarrow> bytes \<Rightarrow> id \<Rightarrow> bytes" where
  "Text t ns trm rid = AppendUvarint (begin_key t ns SpaceText) (len64 trm) @ trm @ id_bytes rid"

definition VectorIndex :: "tenant \<Rightarrow> nspace \<Rightarrow> 64 word \<Rightarrow> bytes" where
  "VectorIndex t ns node = begin_key t ns SpaceVectorIndex @ be64 node"

definition Job :: "tenant \<Rightarrow> nspace \<Rightarrow> jobstate \<Rightarrow> 64 word \<Rightarrow> id \<Rightarrow> bytes" where
  "Job t ns state dueUnixMs jid = begin_key t ns SpaceJob @ [state] @ be64 dueUnixMs @ id_bytes jid"

definition JobPause :: "tenant \<Rightarrow> nspace \<Rightarrow> bytes \<Rightarrow> bytes" where
  "JobPause t ns typ = begin_key t ns SpaceJobPause @ typ"

definition JobRun :: "tenant \<Rightarrow> nspace \<Rightarrow> 64 word \<Rightarrow> id \<Rightarrow> bytes" where
  "JobRun t ns finishedUnixMs runID = begin_key t ns SpaceJobRun @ be64 finishedUnixMs @ id_bytes runID"

definition Event :: "tenant \<Rightarrow> nspace \<Rightarrow> id \<Rightarrow> 64 word \<Rightarrow> 32 word \<Rightarrow> bytes" where
  "Event t ns subject tsUnixMs sq =
     begin_key t ns SpaceEvent @ id_bytes subject @ be64 tsUnixMs @ be32 sq"

definition Session :: "tenant \<Rightarrow> nspace \<Rightarrow> id \<Rightarrow> bytes" where
  "Session t ns sid = begin_key t ns SpaceSession @ id_bytes sid"

definition System :: "bytes \<Rightarrow> bytes" where
  "System path = begin_key [] [] SpaceSystem @ path"

lemmas builder_defs [key_defs] =
  Record_def Vector_def Passage_def EdgeOut_def EdgeIn_def AttrRow_def AttrIndex_def Text_def
  VectorIndex_def Job_def JobPause_def JobRun_def Event_def Session_def System_def

section \<open>User keys\<close>

type_synonym userkind = byte

definition UserRow :: userkind where "UserRow = 0x01"
definition UserTok :: userkind where "UserTok = 0x02"
definition UserNames :: userkind where "UserNames = 0x03"

definition User :: "tenant \<Rightarrow> nspace \<Rightarrow> id \<Rightarrow> bytes" where
  "User t ns uid = begin_key t ns SpaceUser @ [UserRow] @ id_bytes uid"

definition UserToken :: "tenant \<Rightarrow> nspace \<Rightarrow> id \<Rightarrow> bytes" where
  "UserToken t ns tokenID = begin_key t ns SpaceUser @ [UserTok] @ id_bytes tokenID"

definition UserName :: "tenant \<Rightarrow> nspace \<Rightarrow> bytes \<Rightarrow> bytes" where
  "UserName t ns folded = begin_key t ns SpaceUser @ [UserNames] @ folded"

definition tokenIndexPrefix :: bytes where
  "tokenIndexPrefix = str ''/tokens/''"

text \<open>\<^verbatim>\<open>hex.AppendEncode\<close>: two lower-case digits a byte, the high nibble first.\<close>

definition hex_digit :: "byte \<Rightarrow> byte" where
  "hex_digit n = (if n < 10 then 0x30 + n else 0x61 + (n - 10))"

definition hex_encode :: "bytes \<Rightarrow> bytes" where
  "hex_encode bs = concat (map (\<lambda>b. [hex_digit (drop_bit 4 b), hex_digit (b AND 0x0F)]) bs)"

definition TokenIndex :: "id \<Rightarrow> bytes" where
  "TokenIndex tokenID = begin_key [] [] SpaceSystem @ tokenIndexPrefix @ hex_encode (id_bytes tokenID)"

lemmas user_builder_defs [key_defs] = User_def UserToken_def UserName_def TokenIndex_def

section \<open>Ranges\<close>

type_synonym range = "bytes \<times> bytes option"

text \<open>
  The scan of \<^verbatim>\<open>PrefixRange\<close> for the last byte that is not \<^verbatim>\<open>0xFF\<close>, from index
  \<open>i - 1\<close> down; the upper bound is the prefix cut there with that byte incremented.
\<close>

fun prefix_upper :: "bytes \<Rightarrow> nat \<Rightarrow> bytes option" where
  "prefix_upper p 0 = None"
| "prefix_upper p (Suc i) =
     (if p ! i = 0xFF then prefix_upper p i else Some ((take (Suc i) p)[i := p ! i + 1]))"

definition PrefixRange :: "bytes \<Rightarrow> range" where
  "PrefixRange prfx = (prfx, prefix_upper prfx (length prfx))"

definition TenantRange :: "tenant \<Rightarrow> range" where
  "TenantRange t = PrefixRange (AppendUvarint [] (len64 t) @ t)"

definition NamespaceRange :: "tenant \<Rightarrow> nspace \<Rightarrow> range" where
  "NamespaceRange t ns = PrefixRange (scopePrefix t ns)"

definition SpaceRange :: "tenant \<Rightarrow> nspace \<Rightarrow> space \<Rightarrow> range" where
  "SpaceRange t ns s = PrefixRange (scopePrefix t ns @ [s])"

definition SystemRange :: range where
  "SystemRange = SpaceRange [] [] SpaceSystem"

definition TextTermRange :: "tenant \<Rightarrow> nspace \<Rightarrow> bytes \<Rightarrow> range" where
  "TextTermRange t ns trm = PrefixRange (AppendUvarint (begin_key t ns SpaceText) (len64 trm) @ trm)"

definition AttrSlotRange :: "tenant \<Rightarrow> nspace \<Rightarrow> 16 word \<Rightarrow> range" where
  "AttrSlotRange t ns slot = PrefixRange (begin_key t ns SpaceAttrIndex @ be16 slot)"

definition PassagesOfRange :: "tenant \<Rightarrow> nspace \<Rightarrow> id \<Rightarrow> range" where
  "PassagesOfRange t ns rid = PrefixRange (begin_key t ns SpacePassage @ id_bytes rid)"

definition EdgesFromRange :: "tenant \<Rightarrow> nspace \<Rightarrow> id \<Rightarrow> range" where
  "EdgesFromRange t ns from = PrefixRange (begin_key t ns SpaceEdgeOut @ id_bytes from)"

definition EdgesToRange :: "tenant \<Rightarrow> nspace \<Rightarrow> id \<Rightarrow> range" where
  "EdgesToRange t ns to = PrefixRange (begin_key t ns SpaceEdgeIn @ id_bytes to)"

definition JobStateRange :: "tenant \<Rightarrow> nspace \<Rightarrow> jobstate \<Rightarrow> range" where
  "JobStateRange t ns state = PrefixRange (begin_key t ns SpaceJob @ [state])"

definition JobDueRange :: "tenant \<Rightarrow> nspace \<Rightarrow> jobstate \<Rightarrow> 64 word \<Rightarrow> range" where
  "JobDueRange t ns state dueUnixMs =
     (if dueUnixMs = NOT 0 then (fst (JobStateRange t ns state), snd (JobStateRange t ns state))
      else (fst (JobStateRange t ns state), Some (Job t ns state (dueUnixMs + 1) 0)))"

definition JobPauseRange :: "tenant \<Rightarrow> nspace \<Rightarrow> range" where
  "JobPauseRange t ns = SpaceRange t ns SpaceJobPause"

definition JobRunRange :: "tenant \<Rightarrow> nspace \<Rightarrow> range" where
  "JobRunRange t ns = SpaceRange t ns SpaceJobRun"

definition JobRunBeforeRange :: "tenant \<Rightarrow> nspace \<Rightarrow> 64 word \<Rightarrow> range" where
  "JobRunBeforeRange t ns finishedUnixMs =
     (if finishedUnixMs = NOT 0 then JobRunRange t ns
      else (fst (JobRunRange t ns), Some (JobRun t ns (finishedUnixMs + 1) 0)))"

definition EventsForRange :: "tenant \<Rightarrow> nspace \<Rightarrow> id \<Rightarrow> range" where
  "EventsForRange t ns subject = PrefixRange (begin_key t ns SpaceEvent @ id_bytes subject)"

definition UserKindRange :: "tenant \<Rightarrow> nspace \<Rightarrow> userkind \<Rightarrow> range" where
  "UserKindRange t ns k = PrefixRange (scopePrefix t ns @ [SpaceUser, k])"

definition TokenIndexRange :: range where
  "TokenIndexRange = PrefixRange (System tokenIndexPrefix)"

section \<open>Parsers\<close>

datatype componentFault = componentNoLength | componentNonMinimal | componentTruncated

definition component :: "bytes \<Rightarrow> componentFault + bytes \<times> bytes" where
  "component k =
     (let (n, w) = Uvarint k in
      if w \<le> 0 then Inl componentNoLength
      else if nat w \<noteq> uvarintLen n then Inl componentNonMinimal
      else let k' = drop (nat w) k in
        if length k' < unat n then Inl componentTruncated
        else Inr (take (unat n) k', drop (unat n) k'))"

definition corrupt :: "string \<Rightarrow> string \<Rightarrow> 'a res" where
  "corrupt op msg = fail Corruption op msg"

definition parseComponent :: "bytes \<Rightarrow> string \<Rightarrow> string \<Rightarrow> (bytes \<times> bytes) res" where
  "parseComponent k op what =
     (case component k of
        Inl componentNoLength \<Rightarrow> corrupt op (''key ends before its '' @ what @ '' length'')
      | Inl componentNonMinimal \<Rightarrow> corrupt op (''key has a non-minimal '' @ what @ '' length prefix'')
      | Inl componentTruncated \<Rightarrow> corrupt op (''key ends inside its '' @ what)
      | Inr r \<Rightarrow> Inr r)"

definition parseScope :: "bytes \<Rightarrow> string \<Rightarrow> (tenant \<times> nspace \<times> bytes) res" where
  "parseScope k op =
     bindR (parseComponent k op ''tenant'') (\<lambda>(t, rest).
     bindR (parseComponent rest op ''namespace'') (\<lambda>(ns, rest').
       Inr (t, ns, rest')))"

definition TenantOf :: "bytes \<Rightarrow> tenant option" where
  "TenantOf key = (case component key of Inl fault \<Rightarrow> None | Inr (t, rest) \<Rightarrow> Some t)"

definition TextRecordID :: "bytes \<Rightarrow> bytes \<Rightarrow> id res" where
  "TextRecordID key lower =
     (if length key \<noteq> length lower + idLen \<or> take (length lower) key \<noteq> lower
      then corrupt ''keys.TextRecordID'' ''a posting inside one term's range belongs to another term''
      else Inr (unbe (drop (length lower) key)))"

text \<open>\<^verbatim>\<open>len(rest) < 1 || Space(rest[0]) != s\<close>, the guard every parser starts with.\<close>

definition not_in_space :: "bytes \<Rightarrow> space \<Rightarrow> bool" where
  "not_in_space rest s \<longleftrightarrow> length rest < 1 \<or> rest ! 0 \<noteq> s"

text \<open>An id that does not decode is reported as corruption of the key that holds it.\<close>

definition id_or :: "string \<Rightarrow> string \<Rightarrow> bytes \<Rightarrow> id res" where
  "id_or op msg b = (case FromBytes b of Inl e \<Rightarrow> corrupt op msg | Inr i \<Rightarrow> Inr i)"

text \<open>
  The opening every parser shares: read the scope, check the space byte, and go on
  with the remainder \<^verbatim>\<open>rest = rest[1:]\<close>.
\<close>

definition parse_in_space ::
    "bytes \<Rightarrow> string \<Rightarrow> space \<Rightarrow> string \<Rightarrow> (tenant \<Rightarrow> nspace \<Rightarrow> bytes \<Rightarrow> 'a res) \<Rightarrow> 'a res" where
  "parse_in_space k op s msg F =
     bindR (parseScope k op) (\<lambda>(t, ns, rest).
       if not_in_space rest s then corrupt op msg else F t ns (drop 1 rest))"

definition ParseRecord :: "bytes \<Rightarrow> (tenant \<times> nspace \<times> recordtype \<times> id) res" where
  "ParseRecord k = (let op = ''keys.ParseRecord'' in
     parse_in_space k op SpaceRecord ''key is not in the record space'' (\<lambda>t ns rest.
         if length rest \<noteq> 1 + idLen then corrupt op ''record key body has the wrong length''
         else bindR (id_or op ''record key holds a malformed id'' (drop 1 rest)) (\<lambda>rid.
           Inr (t, ns, rest ! 0, rid))))"

definition ParseText :: "bytes \<Rightarrow> (tenant \<times> nspace \<times> bytes \<times> id) res" where
  "ParseText k = (let op = ''keys.ParseText'' in
     parse_in_space k op SpaceText ''key is not in the text space'' (\<lambda>t ns rest.
       bindR (parseComponent rest op ''term'') (\<lambda>(trm, rest).
         if length rest \<noteq> idLen then corrupt op ''text key does not end with a record id''
         else bindR (id_or op ''text key holds a malformed record id'' rest) (\<lambda>rid.
           Inr (t, ns, trm, rid)))))"

definition ParseJob :: "bytes \<Rightarrow> (tenant \<times> nspace \<times> jobstate \<times> 64 word \<times> id) res" where
  "ParseJob k = (let op = ''keys.ParseJob'' in
     parse_in_space k op SpaceJob ''key is not in the job space'' (\<lambda>t ns rest.
         if length rest \<noteq> 1 + 8 + idLen then corrupt op ''job key body has the wrong length''
         else let state = rest ! 0 in
           if jobStateNames state = None then corrupt op ''unknown job state''
           else bindR (id_or op ''job key holds a malformed id'' (drop 9 rest)) (\<lambda>jid.
             Inr (t, ns, state, unbe (take 8 (drop 1 rest)), jid))))"

definition ParseJobPause :: "bytes \<Rightarrow> (tenant \<times> nspace \<times> bytes) res" where
  "ParseJobPause k = (let op = ''keys.ParseJobPause'' in
     parse_in_space k op SpaceJobPause ''key is not in the job pause space'' (\<lambda>t ns rest.
         if length rest = 0 then corrupt op ''job pause key names no type''
         else Inr (t, ns, rest)))"

definition ParsePassage :: "bytes \<Rightarrow> (tenant \<times> nspace \<times> id \<times> 32 word) res" where
  "ParsePassage k = (let op = ''keys.ParsePassage'' in
     parse_in_space k op SpacePassage ''key is not in the passage space'' (\<lambda>t ns rest.
         if length rest \<noteq> idLen + 4 then corrupt op ''passage key body has the wrong length''
         else bindR (id_or op ''passage key holds a malformed id'' (take idLen rest)) (\<lambda>rid.
           Inr (t, ns, rid, unbe (drop idLen rest)))))"

definition ParseJobRun :: "bytes \<Rightarrow> (tenant \<times> nspace \<times> 64 word \<times> id) res" where
  "ParseJobRun k = (let op = ''keys.ParseJobRun'' in
     parse_in_space k op SpaceJobRun ''key is not in the job run space'' (\<lambda>t ns rest.
         if length rest \<noteq> 8 + idLen then corrupt op ''job run key body has the wrong length''
         else bindR (id_or op ''job run key holds a malformed id'' (drop 8 rest)) (\<lambda>rid.
           Inr (t, ns, unbe (take 8 rest), rid))))"

definition ParseEvent :: "bytes \<Rightarrow> (tenant \<times> nspace \<times> id \<times> 64 word \<times> 32 word) res" where
  "ParseEvent k = (let op = ''keys.ParseEvent'' in
     parse_in_space k op SpaceEvent ''key is not in the event space'' (\<lambda>t ns rest.
         if length rest \<noteq> idLen + 8 + 4 then corrupt op ''event key body has the wrong length''
         else bindR (id_or op ''event key holds a malformed subject id'' (take idLen rest)) (\<lambda>subject.
           Inr (t, ns, subject, unbe (take 8 (drop idLen rest)), unbe (drop (idLen + 8) rest)))))"

definition ParseSpace :: "bytes \<Rightarrow> (tenant \<times> nspace \<times> space) res" where
  "ParseSpace k = (let op = ''keys.ParseSpace'' in
     bindR (parseScope k op) (\<lambda>(t, ns, rest).
       if length rest < 1 then corrupt op ''key ends before its space byte''
       else let s = rest ! 0 in
         if spaceNames s = None then corrupt op ''unknown space byte''
         else Inr (t, ns, s)))"

section \<open>The component reader\<close>

definition fits :: "bytes \<Rightarrow> bool" where
  "fits b \<longleftrightarrow> length b < 2 ^ 64"

abbreviation lp :: "bytes \<Rightarrow> bytes" where
  "lp b \<equiv> uvarint (len64 b) @ b"

lemma fitsI: "length b \<le> 128 \<Longrightarrow> fits b"
  by (simp add: fits_def)

lemma unat_len64: "fits b \<Longrightarrow> unat (len64 b) = length b"
  by (simp add: fits_def len64_def unat_of_nat take_bit_nat_eq_self unsigned_of_nat)

lemma uvarintLen_loop_length: "uvarintLen_loop v w + 1 = w + length (uvarint v)"
proof (induction v arbitrary: w rule: uvarint_induct)
  case (small v)
  then show ?case by (simp add: uvarintLen_loop.simps uvarint_small leD)
next
  case (large v)
  then show ?case by (simp add: uvarintLen_loop.simps [of v w] uvarint_large)
qed

lemma uvarintLen_length: "uvarintLen n = length (uvarint n)"
  using uvarintLen_loop_length [of n 1] by (simp add: uvarintLen_def)

text \<open>
  The reader accepts exactly the writer's bytes: the length prefix of the value that
  follows, in its shortest form.
\<close>

lemma component_iff: "component k = Inr (v, rest) \<longleftrightarrow> fits v \<and> k = lp v @ rest"
proof
  assume r: "fits v \<and> k = lp v @ rest"
  then have "Uvarint k = (len64 v, int (length (uvarint (len64 v))))" by simp
  with r show "component k = Inr (v, rest)"
    by (simp add: component_def uvarintLen_length unat_len64)
next
  assume c: "component k = Inr (v, rest)"
  obtain n w where nw: "Uvarint k = (n, w)" by (cases "Uvarint k")
  define k' where "k' = drop (nat w) k"
  from c nw have w: "0 < w" "nat w = length (uvarint n)" and k': "unat n \<le> length k'"
    and v: "v = take (unat n) k'" "rest = drop (unat n) k'"
    by (auto simp: component_def uvarintLen_length k'_def Let_def split: if_splits)
  then have "length v = unat n" by simp
  then have "fits v" "len64 v = n" using unsigned_less [of n] by (simp_all add: fits_def len64_def)
  moreover have "k = uvarint n @ k'" using Uvarint_canonical [OF nw w] by (simp add: k'_def)
  ultimately show "fits v \<and> k = lp v @ rest" using v by simp
qed

lemma component_lp [simp]: "fits v \<Longrightarrow> component (lp v @ rest) = Inr (v, rest)"
  by (simp add: component_iff)

lemma scopePrefix_lp: "scopePrefix t ns = lp t @ lp ns"
  using AppendUvarint_uvarint [of "lp t" "len64 ns"] by (simp add: scopePrefix_def)

lemma begin_key_lp: "begin_key t ns s = lp t @ lp ns @ [s]"
  by (simp add: begin_key_def scopePrefix_lp)

lemma Text_lp: "Text t ns trm rid = begin_key t ns SpaceText @ lp trm @ id_bytes rid"
  using AppendUvarint_uvarint [of "begin_key t ns SpaceText" "len64 trm"] by (simp add: Text_def)

lemma parseComponent_iff: "parseComponent k op what = Inr r \<longleftrightarrow> component k = Inr r"
  by (auto simp: parseComponent_def corrupt_def split: sum.splits componentFault.splits)

lemma parseComponent_lp [simp]: "fits v \<Longrightarrow> parseComponent (lp v @ rest) op what = Inr (v, rest)"
  by (simp add: parseComponent_iff component_iff)

lemma parseComponent_corrupt: "parseComponent k op what = Inl e \<Longrightarrow> is_kind e Corruption"
  by (auto simp: parseComponent_def corrupt_def split: sum.splits componentFault.splits)

lemma parseScope_iff:
  "parseScope k op = Inr (t, ns, rest) \<longleftrightarrow> fits t \<and> fits ns \<and> k = scopePrefix t ns @ rest"
  by (auto simp: parseScope_def bindR_eq_Inr parseComponent_iff component_iff scopePrefix_lp)

lemma parseScope_corrupt: "parseScope k op = Inl e \<Longrightarrow> is_kind e Corruption"
  by (auto simp: parseScope_def bindR_eq_Inl dest: parseComponent_corrupt)

lemma parseScope_scopePrefix [simp]:
  "fits t \<Longrightarrow> fits ns \<Longrightarrow> parseScope (scopePrefix t ns @ rest) op = Inr (t, ns, rest)"
  by (simp add: parseScope_iff)

section \<open>The parsers invert the builders\<close>

text \<open>
  What a parser owes its builder: it returns a value exactly on the keys built from it,
  and every refusal is corruption.
\<close>

locale key_codec =
  fixes build :: "'a \<Rightarrow> bytes"
    and parse :: "bytes \<Rightarrow> 'a res"
    and wf :: "'a \<Rightarrow> bool"
  assumes parse_iff: "parse k = Inr a \<longleftrightarrow> wf a \<and> k = build a"
    and parse_corrupt: "parse k = Inl e \<Longrightarrow> is_kind e Corruption"
begin

lemma parse_build: "wf a \<Longrightarrow> parse (build a) = Inr a"
  by (simp add: parse_iff)

lemma build_inject: "wf a \<Longrightarrow> wf b \<Longrightarrow> build a = build b \<longleftrightarrow> a = b"
  by (metis parse_build sum.inject(2))

lemma parse_foreign: "(\<And>a. wf a \<Longrightarrow> k \<noteq> build a) \<Longrightarrow> \<exists>e. parse k = Inl e \<and> is_kind e Corruption"
  using parse_iff parse_corrupt by (cases "parse k") auto

lemma parse_cases:
  "(case parse k of Inr a \<Rightarrow> wf a \<and> k = build a
    | Inl e \<Rightarrow> is_kind e Corruption \<and> \<not> (\<exists>a. wf a \<and> k = build a))"
  using parse_iff [of k] parse_corrupt [of k] by (cases "parse k") auto

end

lemma not_in_space_Cons [simp]: "not_in_space (c # cs) s \<longleftrightarrow> c \<noteq> s"
  by (simp add: not_in_space_def)

lemma not_in_space_Nil [simp]: "not_in_space [] s"
  by (simp add: not_in_space_def)

lemma id_or_iff: "id_or op msg b = Inr i \<longleftrightarrow> b = id_bytes i"
  by (auto simp: id_or_def corrupt_def FromBytes_iff [symmetric] split: sum.splits)

lemma id_or_corrupt: "id_or op msg b = Inl e \<Longrightarrow> is_kind e Corruption"
  by (auto simp: id_or_def corrupt_def split: sum.splits)

lemma id_or_id_bytes [simp]: "id_or op msg (id_bytes i) = Inr i"
  by (simp add: id_or_iff)

lemma corrupt_neq_Inr [simp]: "corrupt op msg \<noteq> Inr v"
  by (simp add: corrupt_def)

lemma corrupt_eq_Inl [simp]: "corrupt op msg = Inl e \<longleftrightarrow> e = err Corruption op msg"
  by (simp add: corrupt_def)

lemmas parse_corrupts = parseScope_corrupt parseComponent_corrupt id_or_corrupt
lemmas bind_iffs = bindR_eq_Inr bindR_eq_Inl

abbreviation scope_fits :: "tenant \<Rightarrow> nspace \<Rightarrow> bool" where
  "scope_fits t ns \<equiv> fits t \<and> fits ns"

lemma parse_in_space_iff:
  "parse_in_space k op s msg F = Inr a \<longleftrightarrow>
   (\<exists>t ns body. scope_fits t ns \<and> k = begin_key t ns s @ body \<and> F t ns body = Inr a)"
  (is "?l \<longleftrightarrow> ?r")
proof
  assume ?l
  then obtain t ns rest where r: "parseScope k op = Inr (t, ns, rest)" "\<not> not_in_space rest s"
    "F t ns (drop 1 rest) = Inr a"
    by (auto simp: parse_in_space_def bindR_eq_Inr split: if_splits)
  then have "rest = s # drop 1 rest" by (cases rest) auto
  with r show ?r by (auto simp: parseScope_iff begin_key_def)
next
  assume ?r
  then show ?l by (auto simp: parse_in_space_def begin_key_def)
qed

lemma parse_in_space_corrupt:
  assumes "parse_in_space k op s msg F = Inl e"
    and "\<And>t ns body e. F t ns body = Inl e \<Longrightarrow> is_kind e Corruption"
  shows "is_kind e Corruption"
  using assms by (auto simp: parse_in_space_def bindR_eq_Inl dest: parseScope_corrupt split: if_splits)

text \<open>Splitting a remainder of known length into its fixed-width fields.\<close>

lemma drop_be_iff:
  fixes w :: "'a::len word"
  assumes "LENGTH('a) = 8 * n" "length b = n + m"
  shows "drop n b = c \<longleftrightarrow> b = be n (unbe (take n b) :: 'a word) @ c"
  using be_split_iff [OF assms(1), of b "unbe (take n b)" c] assms(2) by auto

lemma take_id_iff: "length b = 16 + m \<Longrightarrow> take 16 b = id_bytes i \<longleftrightarrow> b = id_bytes i @ drop 16 b"
  by (metis append_take_drop_id append_eq_conv_conj length_id_bytes)

lemma unbe_all: "LENGTH('a) = 8 * length b \<Longrightarrow> b = be (length b) (unbe b :: 'a::len word)"
  using be_unbe [of b, where 'a='a] by simp

lemma ParseRecord_iff:
  "ParseRecord k = Inr (t, ns, typ, rid) \<longleftrightarrow> scope_fits t ns \<and> k = Record t ns typ rid"
proof -
  have body: "(if length b \<noteq> 1 + idLen then corrupt op m
      else bindR (id_or op m' (drop 1 b)) (\<lambda>rid. Inr (t, ns, b ! 0, rid))) = Inr a \<longleftrightarrow>
      (\<exists>typ rid. b = typ # id_bytes rid \<and> a = (t, ns, typ, rid))" for op m m' t ns b a
    by (cases b) (auto simp: bindR_eq_Inr id_or_iff idLen_def)
  show ?thesis unfolding ParseRecord_def Let_def parse_in_space_iff body by (auto simp: Record_def)
qed

lemma ParseText_iff:
  "ParseText k = Inr (t, ns, trm, rid) \<longleftrightarrow> scope_fits t ns \<and> fits trm \<and> k = Text t ns trm rid"
proof -
  have body: "bindR (parseComponent b op w) (\<lambda>(trm, rest).
        if length rest \<noteq> idLen then corrupt op m
        else bindR (id_or op m' rest) (\<lambda>rid. Inr (t, ns, trm, rid))) = Inr a \<longleftrightarrow>
      (\<exists>trm rid. fits trm \<and> b = lp trm @ id_bytes rid \<and> a = (t, ns, trm, rid))"
    (is "?l \<longleftrightarrow> ?r") for op w m m' t ns b a
  proof
    assume ?l
    then show ?r
      by (auto simp: bindR_eq_Inr parseComponent_iff component_iff id_or_iff split: if_splits)
  next
    assume ?r
    then obtain trm rid where "fits trm" "b = lp trm @ id_bytes rid" "a = (t, ns, trm, rid)" by blast
    then show ?l using parseComponent_lp [of trm "id_bytes rid"] by (simp add: idLen_def)
  qed
  show ?thesis unfolding ParseText_def Let_def parse_in_space_iff body by (auto simp: Text_lp)
qed

lemma ParseJob_iff:
  "ParseJob k = Inr (t, ns, st, due, jid) \<longleftrightarrow>
     scope_fits t ns \<and> jobStateNames st \<noteq> None \<and> k = Job t ns st due jid"
proof -
  have body: "(if length b \<noteq> 1 + 8 + idLen then corrupt op m
      else if jobStateNames (b ! 0) = None then corrupt op m'
      else bindR (id_or op m'' (drop 9 b)) (\<lambda>jid. Inr (t, ns, b ! 0, unbe (take 8 (drop 1 b)) :: 64 word, jid))) = Inr a \<longleftrightarrow>
      (\<exists>st due jid. jobStateNames st \<noteq> None \<and> b = st # be64 due @ id_bytes jid \<and> a = (t, ns, st, due, jid))"
    for op m m' m'' t ns b a
  proof (cases b)
    case (Cons c cs)
    then show ?thesis
      using drop_be_iff [of 8 cs 16, where 'a=64] 
      by (auto simp: bindR_eq_Inr id_or_iff idLen_def)
  qed (simp add: idLen_def)
  show ?thesis unfolding ParseJob_def Let_def parse_in_space_iff body by (auto simp: Job_def)
qed

lemma ParseJobPause_iff:
  "ParseJobPause k = Inr (t, ns, typ) \<longleftrightarrow> scope_fits t ns \<and> typ \<noteq> [] \<and> k = JobPause t ns typ"
  unfolding ParseJobPause_def Let_def parse_in_space_iff by (auto simp: JobPause_def split: if_splits)

lemma ParsePassage_iff:
  "ParsePassage k = Inr (t, ns, rid, n) \<longleftrightarrow> scope_fits t ns \<and> k = Passage t ns rid n"
proof -
  have body: "(if length b \<noteq> idLen + 4 then corrupt op m
      else bindR (id_or op m' (take idLen b)) (\<lambda>rid. Inr (t, ns, rid, unbe (drop idLen b) :: 32 word))) = Inr a \<longleftrightarrow>
      (\<exists>rid n. b = id_bytes rid @ be32 n \<and> a = (t, ns, rid, n))" for op m m' t ns b a
    using take_id_iff [of b 4] unbe_all [of "drop 16 b", where 'a=32]
    by (auto simp: bindR_eq_Inr id_or_iff idLen_def)
  show ?thesis unfolding ParsePassage_def Let_def parse_in_space_iff body by (auto simp: Passage_def)
qed

lemma ParseJobRun_iff:
  "ParseJobRun k = Inr (t, ns, fin, rid) \<longleftrightarrow> scope_fits t ns \<and> k = JobRun t ns fin rid"
proof -
  have body: "(if length b \<noteq> 8 + idLen then corrupt op m
      else bindR (id_or op m' (drop 8 b)) (\<lambda>rid. Inr (t, ns, unbe (take 8 b) :: 64 word, rid))) = Inr a \<longleftrightarrow>
      (\<exists>fin rid. b = be64 fin @ id_bytes rid \<and> a = (t, ns, fin, rid))" for op m m' t ns b a
    using drop_be_iff [of 8 b 16, where 'a=64]
    by (auto simp: bindR_eq_Inr id_or_iff idLen_def)
  show ?thesis unfolding ParseJobRun_def Let_def parse_in_space_iff body by (auto simp: JobRun_def)
qed

lemma ParseEvent_iff:
  "ParseEvent k = Inr (t, ns, subject, ts, sq) \<longleftrightarrow> scope_fits t ns \<and> k = Event t ns subject ts sq"
proof -
  have body: "(if length b \<noteq> idLen + 8 + 4 then corrupt op m
      else bindR (id_or op m' (take idLen b)) (\<lambda>subject.
        Inr (t, ns, subject, unbe (take 8 (drop idLen b)) :: 64 word, unbe (drop (idLen + 8) b) :: 32 word))) = Inr a \<longleftrightarrow>
      (\<exists>subject ts sq. b = id_bytes subject @ be64 ts @ be32 sq \<and> a = (t, ns, subject, ts, sq))"
    for op m m' t ns b a
  proof (cases "length b = 28")
    case True
    have "drop 16 b = be64 (unbe (take 8 (drop 16 b))) @ drop 24 b"
      using drop_be_iff [of 8 "drop 16 b" 4 "drop 24 b", where 'a=64] True by simp
    moreover have "drop 24 b = be32 (unbe (drop 24 b))"
      using unbe_all [of "drop 24 b", where 'a=32] True by simp
    ultimately have "b = id_bytes i @ drop 16 b \<longleftrightarrow>
        b = id_bytes i @ be64 (unbe (take 8 (drop 16 b))) @ be32 (unbe (drop 24 b))" for i by simp
    with True take_id_iff [of b 12] show ?thesis
      by (auto simp: bindR_eq_Inr id_or_iff idLen_def)
  qed (auto simp: idLen_def)
  show ?thesis unfolding ParseEvent_def Let_def parse_in_space_iff body by (auto simp: Event_def)
qed

lemma parse_refusals:
  "ParseRecord k = Inl e \<Longrightarrow> is_kind e Corruption"
  "ParseText k = Inl e \<Longrightarrow> is_kind e Corruption"
  "ParseJob k = Inl e \<Longrightarrow> is_kind e Corruption"
  "ParseJobPause k = Inl e \<Longrightarrow> is_kind e Corruption"
  "ParsePassage k = Inl e \<Longrightarrow> is_kind e Corruption"
  "ParseJobRun k = Inl e \<Longrightarrow> is_kind e Corruption"
  "ParseEvent k = Inl e \<Longrightarrow> is_kind e Corruption"
  unfolding ParseRecord_def ParseText_def ParseJob_def ParseJobPause_def ParsePassage_def
    ParseJobRun_def ParseEvent_def Let_def
  by (erule parse_in_space_corrupt,
      force simp: bindR_eq_Inl dest: parse_corrupts split: if_splits)+

interpretation record_key: key_codec
  "\<lambda>(t, ns, typ, rid). Record t ns typ rid" ParseRecord "\<lambda>(t, ns, typ, rid). scope_fits t ns"
  by unfold_locales (auto simp: ParseRecord_iff dest: parse_refusals)

interpretation text_key: key_codec
  "\<lambda>(t, ns, trm, rid). Text t ns trm rid" ParseText "\<lambda>(t, ns, trm, rid). scope_fits t ns \<and> fits trm"
  by unfold_locales (auto simp: ParseText_iff dest: parse_refusals)

interpretation job_key: key_codec
  "\<lambda>(t, ns, st, due, jid). Job t ns st due jid" ParseJob
  "\<lambda>(t, ns, st, due, jid). scope_fits t ns \<and> jobStateNames st \<noteq> None"
  by unfold_locales (auto simp: ParseJob_iff dest: parse_refusals)

interpretation job_pause_key: key_codec
  "\<lambda>(t, ns, typ). JobPause t ns typ" ParseJobPause "\<lambda>(t, ns, typ). scope_fits t ns \<and> typ \<noteq> []"
  by unfold_locales (auto simp: ParseJobPause_iff dest: parse_refusals)

interpretation passage_key: key_codec
  "\<lambda>(t, ns, rid, n). Passage t ns rid n" ParsePassage "\<lambda>(t, ns, rid, n). scope_fits t ns"
  by unfold_locales (auto simp: ParsePassage_iff dest: parse_refusals)

interpretation job_run_key: key_codec
  "\<lambda>(t, ns, fin, rid). JobRun t ns fin rid" ParseJobRun "\<lambda>(t, ns, fin, rid). scope_fits t ns"
  by unfold_locales (auto simp: ParseJobRun_iff dest: parse_refusals)

interpretation event_key: key_codec
  "\<lambda>(t, ns, subject, ts, sq). Event t ns subject ts sq" ParseEvent
  "\<lambda>(t, ns, subject, ts, sq). scope_fits t ns"
  by unfold_locales (auto simp: ParseEvent_iff dest: parse_refusals)

section \<open>Ranges are prefixes\<close>

lemma prefix_upper_append: "i \<le> length p \<Longrightarrow> prefix_upper (p @ q) i = prefix_upper p i"
  by (induction i) (auto simp: nth_append)

lemma le_not_prefix: "p \<le> k \<Longrightarrow> \<not> prefix p k \<Longrightarrow> p @ x < (k :: bytes)"
proof (induction p arbitrary: k)
  case Nil
  then show ?case by simp
next
  case (Cons a p)
  then show ?case by (cases k) auto
qed

lemma word_less_succ_iff: "w \<noteq> - 1 \<Longrightarrow> v < w + 1 \<longleftrightarrow> v \<le> (w :: 'a::len word)"
proof -
  assume "w \<noteq> - 1"
  then have "1 + w \<noteq> 0" using minus_unique [of 1 w] by auto
  then have "unat (w + 1) = Suc (unat w)" using unatSuc [of w] by (simp add: add.commute)
  then show ?thesis by (simp add: word_less_nat_alt word_le_nat_alt less_Suc_eq_le)
qed

lemma byte_less_succ_iff: "c \<noteq> 0xFF \<Longrightarrow> d < c + 1 \<longleftrightarrow> d \<le> (c :: byte)"
  using word_less_succ_iff [of c d] by (cases "c = - 1") auto

lemma byte_le_FF [simp]: "(c :: byte) \<le> 0xFF"
proof -
  have "unat c < 256" using unsigned_less [of c] by simp
  then show ?thesis by (simp add: word_le_nat_alt)
qed

lemma not_FF_less [simp]: "\<not> 0xFF < (c :: byte)"
  by (simp add: not_less)

lemma snoc_le_self [simp]: "\<not> p @ [c] \<le> (p :: bytes)"
  using append_le_append_iff [of p "[c]" "[]"] by simp

text \<open>Scanning a prefix range visits the keys with that prefix and no others.\<close>

lemma in_PrefixRange_iff: "in_range (PrefixRange p) k \<longleftrightarrow> prefix p k"
proof (induction p rule: rev_induct)
  case Nil
  then show ?case by (simp add: PrefixRange_def)
next
  case (snoc c p)
  let ?ub = "\<lambda>k. case prefix_upper p (length p) of None \<Rightarrow> True | Some u \<Rightarrow> k < u"
  have IH: "p \<le> k \<and> ?ub k \<longleftrightarrow> prefix p k" using snoc by (simp add: in_range_alt PrefixRange_def)
  show ?case
  proof (cases "prefix p k")
    case True
    then obtain r where k: "k = p @ r" by (auto simp: prefix_def)
    show ?thesis
    proof (cases "c = 0xFF")
      case FF: True
      have "?ub k" using True IH by simp
      with k FF show ?thesis
        by (cases r) (auto simp: in_range_alt PrefixRange_def prefix_upper_append)
    next
      case False
      then show ?thesis using k
        by (cases r) (auto simp: in_range_alt PrefixRange_def prefix_upper_append byte_less_succ_iff)
    qed
  next
    case False
    then have no: "\<not> prefix (p @ [c]) k" by (auto simp: prefix_def)
    have "\<not> (p @ [c] \<le> k \<and> (case prefix_upper (p @ [c]) (Suc (length p)) of None \<Rightarrow> True | Some u \<Rightarrow> k < u))"
    proof
      assume k: "p @ [c] \<le> k \<and> (case prefix_upper (p @ [c]) (Suc (length p)) of None \<Rightarrow> True | Some u \<Rightarrow> k < u)"
      then have "p \<le> k" using order_trans [OF le_append] by blast
      moreover from this have "p @ [c + 1] < k" using False by (rule le_not_prefix)
      ultimately show False using k IH False by (auto simp: prefix_upper_append split: if_splits)
    qed
    with no show ?thesis by (simp add: in_range_alt PrefixRange_def)
  qed
qed

lemma fst_PrefixRange [simp]: "fst (PrefixRange p) = p"
  by (simp add: PrefixRange_def)

text \<open>Length-prefixed components are prefix free.\<close>

lemma lp_append_eq_iff: "fits u \<Longrightarrow> fits v \<Longrightarrow> lp u @ x = lp v @ y \<longleftrightarrow> u = v \<and> x = y"
  by (metis component_iff prod.inject sum.inject(2))

lemma scopePrefix_append_eq_iff:
  "scope_fits t ns \<Longrightarrow> scope_fits t' ns' \<Longrightarrow>
   scopePrefix t ns @ x = scopePrefix t' ns' @ y \<longleftrightarrow> t = t' \<and> ns = ns' \<and> x = y"
  using lp_append_eq_iff [of t t' "lp ns @ x" "lp ns' @ y"] lp_append_eq_iff [of ns ns' x y]
  by (auto simp: scopePrefix_lp)

lemma begin_key_append_eq_iff:
  "scope_fits t ns \<Longrightarrow> scope_fits t' ns' \<Longrightarrow>
   begin_key t ns s @ x = begin_key t' ns' s' @ y \<longleftrightarrow> t = t' \<and> ns = ns' \<and> s = s' \<and> x = y"
  using scopePrefix_append_eq_iff [of t ns t' ns' "s # x" "s' # y"] by (auto simp: begin_key_def)

lemma TenantOf_iff: "TenantOf k = Some t \<longleftrightarrow> fits t \<and> prefix (lp t) k"
proof -
  have "TenantOf k = Some t \<longleftrightarrow> (\<exists>rest. component k = Inr (t, rest))"
    by (cases "component k") (auto simp: TenantOf_def)
  then show ?thesis by (simp add: component_iff prefix_def)
qed

lemma in_TenantRange_iff: "in_range (TenantRange t) k \<longleftrightarrow> prefix (lp t) k"
  by (simp add: TenantRange_def in_PrefixRange_iff)

lemma prefix_same_length_iff: "length p = length q \<Longrightarrow> prefix p (q @ r) \<longleftrightarrow> p = q"
  by (auto simp: prefix_def)

lemma prefix_begin_key_iff:
  "scope_fits t ns \<Longrightarrow> scope_fits t' ns' \<Longrightarrow>
   prefix (begin_key t ns s @ x) (begin_key t' ns' s' @ y) \<longleftrightarrow> t = t' \<and> ns = ns' \<and> s = s' \<and> prefix x y"
  by (auto simp: prefix_def begin_key_append_eq_iff)

lemma in_SpaceRange_iff:
  "scope_fits t ns \<Longrightarrow>
   in_range (SpaceRange t ns s) k \<longleftrightarrow> (\<exists>rest. parseScope k op = Inr (t, ns, s # rest))"
  by (auto simp: SpaceRange_def in_PrefixRange_iff parseScope_iff prefix_def scopePrefix_lp)

lemma begin_key_in_SpaceRange_iff:
  "scope_fits t ns \<Longrightarrow> scope_fits t' ns' \<Longrightarrow>
   in_range (SpaceRange t ns s) (begin_key t' ns' s' @ x) \<longleftrightarrow> t = t' \<and> ns = ns' \<and> s = s'"
  using prefix_begin_key_iff [of t ns t' ns' s "[]" s' x]
  by (simp add: SpaceRange_def in_PrefixRange_iff begin_key_def)

lemma edge_range_iffs:
  assumes "scope_fits t ns" "scope_fits t' ns'"
  shows "in_range (EdgesFromRange t ns a) (EdgeOut t' ns' from rel to) \<longleftrightarrow> t = t' \<and> ns = ns' \<and> a = from"
    and "in_range (EdgesToRange t ns a) (EdgeIn t' ns' to rel from) \<longleftrightarrow> t = t' \<and> ns = ns' \<and> a = to"
    and "\<not> in_range (EdgesFromRange t ns a) (EdgeIn t' ns' to rel from)"
    and "\<not> in_range (EdgesToRange t ns a) (EdgeOut t' ns' from rel to)"
  using assms
  by (auto simp: EdgesFromRange_def EdgesToRange_def EdgeOut_def EdgeIn_def in_PrefixRange_iff
      prefix_begin_key_iff prefix_same_length_iff space_defs)

text \<open>Fixed-width fields compare one after the other.\<close>

lemma be64_append_less_iff:
  "be64 v @ x < be64 w @ y \<longleftrightarrow> v < w \<or> v = w \<and> x < (y :: bytes)"
  by (rule be_append_less_iff) simp

lemma id_bytes_not_less_0: "\<not> id_bytes i < id_bytes 0"
  by (simp add: id_bytes_def be_less_iff)

lemma job_due_less_iff:
  "Job t ns st v i < Job t ns st w j \<longleftrightarrow> v < w \<or> v = w \<and> id_bytes i < id_bytes j"
  by (simp add: Job_def append_less_append_iff be64_append_less_iff)

text \<open>A scan for due work sees exactly the keys of that state due by then.\<close>

lemma Job_in_JobStateRange_iff:
  assumes "scope_fits t ns" "scope_fits t' ns'"
  shows "in_range (JobStateRange t ns st) (Job t' ns' st' due jid) \<longleftrightarrow> t = t' \<and> ns = ns' \<and> st = st'"
  using assms by (auto simp: JobStateRange_def Job_def in_PrefixRange_iff prefix_begin_key_iff)

lemma in_capped_range_iff: "in_range (p, Some (p @ x)) k \<longleftrightarrow> prefix p k \<and> k < p @ x"
proof
  assume "in_range (p, Some (p @ x)) k"
  then have k: "p \<le> k" "k < p @ x" by (auto simp: in_range_alt)
  with le_not_prefix [of p k x] show "prefix p k \<and> k < p @ x" by fastforce
qed (auto simp: in_range_alt prefix_def)

lemma Job_in_JobDueRange_iff:
  assumes "scope_fits t ns" "scope_fits t' ns'"
  shows "in_range (JobDueRange t ns st due) (Job t' ns' st' due' jid) \<longleftrightarrow>
           t = t' \<and> ns = ns' \<and> st = st' \<and> due' \<le> due"
proof (cases "due = NOT 0")
  case True
  then show ?thesis using Job_in_JobStateRange_iff [OF assms] by (simp add: JobDueRange_def)
next
  case False
  let ?p = "begin_key t ns SpaceJob @ [st]"
  have "in_range (JobDueRange t ns st due) k \<longleftrightarrow> prefix ?p k \<and> k < Job t ns st (due + 1) 0" for k
    using False in_capped_range_iff [of ?p "be64 (due + 1) @ id_bytes 0" k]
    by (simp add: JobDueRange_def JobStateRange_def Job_def)
  moreover have "prefix ?p (Job t' ns' st' due' jid) \<longleftrightarrow> t = t' \<and> ns = ns' \<and> st = st'"
    using Job_in_JobStateRange_iff [OF assms, of st st' due' jid]
    by (simp add: JobStateRange_def in_PrefixRange_iff)
  moreover have "Job t ns st due' jid < Job t ns st (due + 1) 0 \<longleftrightarrow> due' \<le> due"
    using False word_less_succ_iff [of due due'] by (simp add: job_due_less_iff id_bytes_not_less_0)
  ultimately show ?thesis by blast
qed

lemma JobRun_in_JobRunBeforeRange_iff:
  assumes "scope_fits t ns" "scope_fits t' ns'"
  shows "in_range (JobRunBeforeRange t ns fin) (JobRun t' ns' fin' rid) \<longleftrightarrow>
           t = t' \<and> ns = ns' \<and> fin' \<le> fin"
proof (cases "fin = NOT 0")
  case True
  then show ?thesis using assms
    by (simp add: JobRunBeforeRange_def JobRunRange_def JobRun_def begin_key_in_SpaceRange_iff)
next
  case False
  let ?p = "begin_key t ns SpaceJobRun"
  have "in_range (JobRunBeforeRange t ns fin) k \<longleftrightarrow> prefix ?p k \<and> k < JobRun t ns (fin + 1) 0" for k
    using False in_capped_range_iff [of ?p "be64 (fin + 1) @ id_bytes 0" k]
    by (simp add: JobRunBeforeRange_def JobRunRange_def SpaceRange_def JobRun_def begin_key_def)
  moreover have "prefix ?p (JobRun t' ns' fin' rid) \<longleftrightarrow> t = t' \<and> ns = ns'"
    using prefix_begin_key_iff [OF assms, of SpaceJobRun "[]"] by (simp add: JobRun_def)
  moreover have "JobRun t ns fin' rid < JobRun t ns (fin + 1) 0 \<longleftrightarrow> fin' \<le> fin"
    using False word_less_succ_iff [of fin fin']
    by (simp add: JobRun_def append_less_append_iff be64_append_less_iff id_bytes_not_less_0)
  ultimately show ?thesis by blast
qed

lemma ParseSpace_begin_key:
  "scope_fits t ns \<Longrightarrow> spaceNames s \<noteq> None \<Longrightarrow> ParseSpace (begin_key t ns s @ x) = Inr (t, ns, s)"
proof -
  assume "scope_fits t ns" "spaceNames s \<noteq> None"
  then have "parseScope (begin_key t ns s @ x) op = Inr (t, ns, s # x)" for op
    by (simp add: parseScope_iff begin_key_def)
  then show ?thesis using \<open>spaceNames s \<noteq> None\<close> by (simp add: ParseSpace_def)
qed

lemma spaceNames_named: "s \<in> set AllSpaces \<Longrightarrow> spaceNames s \<noteq> None"
  by (auto simp: AllSpaces_def spaceNames_def)

lemma fst_TextTermRange: "fst (TextTermRange t ns trm) @ id_bytes rid = Text t ns trm rid"
  by (simp add: TextTermRange_def Text_def)

lemma TextRecordID_iff: "TextRecordID k lower = Inr rid \<longleftrightarrow> k = lower @ id_bytes rid"
proof
  assume "TextRecordID k lower = Inr rid"
  then have k: "length k = length lower + idLen" "take (length lower) k = lower"
      "unbe (drop (length lower) k) = rid"
    by (auto simp: TextRecordID_def corrupt_def split: if_splits)
  from k have "id_bytes rid = drop (length lower) k" 
    using FromBytes_iff [of "drop (length lower) k" rid] by (simp add: FromBytes_def idLen_def)
  with k(2) append_take_drop_id [of "length lower" k] show "k = lower @ id_bytes rid" by simp
qed (simp add: TextRecordID_def idLen_def id_bytes_def)

section \<open>What the layout promises\<close>

text \<open>
  C2: Every parser accepts exactly the keys its builder produces, and gives back exactly the fields
  they were built from; a job key must carry a known state and a pause key a type.
\<close>

theorem parsers_invert_builders:
  "(ParseRecord k = Inr (t, ns, typ, rid) \<longleftrightarrow> scope_fits t ns \<and> k = Record t ns typ rid) \<and>
   (ParseText k = Inr (t, ns, trm, rid) \<longleftrightarrow> scope_fits t ns \<and> fits trm \<and> k = Text t ns trm rid) \<and>
   (ParseJob k = Inr (t, ns, st, due, rid) \<longleftrightarrow>
      scope_fits t ns \<and> st \<in> set AllJobStates \<and> k = Job t ns st due rid) \<and>
   (ParseJobPause k = Inr (t, ns, jtyp) \<longleftrightarrow> scope_fits t ns \<and> jtyp \<noteq> [] \<and> k = JobPause t ns jtyp) \<and>
   (ParsePassage k = Inr (t, ns, rid, n) \<longleftrightarrow> scope_fits t ns \<and> k = Passage t ns rid n) \<and>
   (ParseJobRun k = Inr (t, ns, due, rid) \<longleftrightarrow> scope_fits t ns \<and> k = JobRun t ns due rid) \<and>
   (ParseEvent k = Inr (t, ns, rid, due, n) \<longleftrightarrow> scope_fits t ns \<and> k = Event t ns rid due n)"
  by (auto simp: ParseRecord_iff ParseText_iff ParseJob_iff ParseJobPause_iff ParsePassage_iff
      ParseJobRun_iff ParseEvent_iff jobStateNames_def AllJobStates_def split: if_splits)

text \<open>
  C1: A tenant's range is the tenant's data. A key lies in it exactly when the tenant read back
  from the key is that tenant, so the ranges of two tenants share no key, not even when one
  tenant's name starts with the other's.
\<close>

theorem tenant_isolation:
  assumes "fits t"
  shows "(in_range (TenantRange t) k \<longleftrightarrow> TenantOf k = Some t) \<and>
         (fits u \<and> in_range (TenantRange t) k \<and> in_range (TenantRange u) k \<longrightarrow> t = u)"
  using assms TenantOf_iff [of k t] TenantOf_iff [of k u] by (auto simp: in_TenantRange_iff)

theorem tenant_isolation_witness:
  "in_range (TenantRange (str ''acme'')) (Record (str ''acme'') (str ''default'') RecordMemory 7) \<and>
   \<not> in_range (TenantRange (str ''acm'')) (Record (str ''acme'') (str ''default'') RecordMemory 7)"
proof -
  let ?k = "Record (str ''acme'') (str ''default'') RecordMemory 7"
  have f: "fits (str ''acme'')" "fits (str ''acm'')" "fits (str ''default'')" by (simp_all add: fitsI)
  have "TenantOf ?k = Some (str ''acme'')"
    using f by (simp add: TenantOf_iff Record_def begin_key_def scopePrefix_lp)
  then show ?thesis
    using tenant_isolation [OF f(1), of ?k] tenant_isolation [OF f(2), of ?k] by (simp add: str_def)
qed

text \<open>
  The shortcut a term scan uses for the record of a posting reads the same id as the full
  parser, and refuses every key that is not a posting of that term.
\<close>

lemma TextRecordID_agrees:
  assumes "scope_fits t ns" "fits trm"
  shows "TextRecordID k (fst (TextTermRange t ns trm)) = Inr rid \<longleftrightarrow> ParseText k = Inr (t, ns, trm, rid)"
  using assms by (simp add: TextRecordID_iff fst_TextTermRange ParseText_iff)

text \<open>
  Every key names its own scope and space, so keys of different spaces, tenants or namespaces
  are different byte strings and a derived space can be dropped without touching another.
\<close>

lemma builders_name_their_space:
  assumes "scope_fits t ns"
  shows "ParseSpace (Record t ns typ rid) = Inr (t, ns, SpaceRecord) \<and>
         ParseSpace (Vector t ns rid) = Inr (t, ns, SpaceVector) \<and>
         ParseSpace (EdgeOut t ns rid rel other) = Inr (t, ns, SpaceEdgeOut) \<and>
         ParseSpace (EdgeIn t ns rid rel other) = Inr (t, ns, SpaceEdgeIn) \<and>
         ParseSpace (AttrRow t ns rid) = Inr (t, ns, SpaceAttrRow) \<and>
         ParseSpace (AttrIndex t ns slot val rid) = Inr (t, ns, SpaceAttrIndex) \<and>
         ParseSpace (Text t ns trm rid) = Inr (t, ns, SpaceText) \<and>
         ParseSpace (VectorIndex t ns node) = Inr (t, ns, SpaceVectorIndex) \<and>
         ParseSpace (Job t ns st due rid) = Inr (t, ns, SpaceJob) \<and>
         ParseSpace (Event t ns rid due sq) = Inr (t, ns, SpaceEvent) \<and>
         ParseSpace (Session t ns rid) = Inr (t, ns, SpaceSession) \<and>
         ParseSpace (JobPause t ns jtyp) = Inr (t, ns, SpaceJobPause) \<and>
         ParseSpace (JobRun t ns due rid) = Inr (t, ns, SpaceJobRun) \<and>
         ParseSpace (Passage t ns rid sq) = Inr (t, ns, SpacePassage) \<and>
         ParseSpace (User t ns rid) = Inr (t, ns, SpaceUser) \<and>
         ParseSpace (UserToken t ns rid) = Inr (t, ns, SpaceUser) \<and>
         ParseSpace (UserName t ns folded) = Inr (t, ns, SpaceUser) \<and>
         ParseSpace (System path) = Inr ([], [], SpaceSystem) \<and>
         ParseSpace (TokenIndex rid) = Inr ([], [], SpaceSystem)"
  using assms
  by (simp add: key_defs AppendUvarint_uvarint [of "begin_key t ns SpaceText"] ParseSpace_begin_key
      spaceNames_named AllSpaces_def fitsI)

end
