(* ===== verification/Memkv.thy ===== *)
theory Memkv
  imports Keys
begin

text \<open>
  The in-memory engine \<^verbatim>\<open>src/internal/storage/memkv\<close> and the point reader
  \<^verbatim>\<open>storage.SeekReader\<close>: store, snapshot, batch and iterator. Every exported
  operation of the store holds its mutex for the whole call, so one call is one step of
  the model. A nil slice that stands for "no bound" is \<^term>\<open>None\<close>, and a call that
  dereferences a nil view is \<^term>\<open>None\<close> as a result. The abstract contract is a partial
  map with an ordered domain; \<open>kv_contract\<close> states it and the engine is shown to meet it.
\<close>

section \<open>The store\<close>

record Store =
  s_data :: "bytes \<rightharpoonup> bytes"
  s_keys :: "bytes list"
  s_closed :: bool

record view =
  v_data :: "bytes \<rightharpoonup> bytes"
  v_keys :: "bytes list"

definition New :: Store where
  "New = \<lparr>s_data = Map.empty, s_keys = [], s_closed = False\<rparr>"

definition errClosed :: "string \<Rightarrow> error" where
  "errClosed op = err Unavailable op ''store is closed''"

definition lookup :: "(bytes \<rightharpoonup> bytes) \<Rightarrow> bytes \<Rightarrow> string \<Rightarrow> bytes res" where
  "lookup data key op = (case data key of None \<Rightarrow> fail NotFound op ''key not found'' | Some v \<Rightarrow> Inr v)"

definition store_Get :: "Store \<Rightarrow> bytes \<Rightarrow> bytes res" where
  "store_Get s key =
     (if s_closed s then Inl (errClosed ''memkv.Get'') else lookup (s_data s) key ''memkv.Get'')"

definition store_set :: "Store \<Rightarrow> bytes \<Rightarrow> bytes \<Rightarrow> Store" where
  "store_set s key val =
     (let s' = (if s_data s key = None
                then let i = SearchStrings (s_keys s) key
                     in s\<lparr>s_keys := take i (s_keys s) @ [key] @ drop i (s_keys s)\<rparr>
                else s)
      in s'\<lparr>s_data := (s_data s')(key \<mapsto> val)\<rparr>)"

definition store_del :: "Store \<Rightarrow> bytes \<Rightarrow> Store" where
  "store_del s key =
     (if s_data s key = None then s
      else let s' = s\<lparr>s_data := (s_data s)(key := None)\<rparr>;
               i = SearchStrings (s_keys s) key
           in if i < length (s_keys s) \<and> s_keys s ! i = key
              then s'\<lparr>s_keys := take i (s_keys s) @ drop (i + 1) (s_keys s)\<rparr>
              else s')"

definition store_Set :: "Store \<Rightarrow> bytes \<Rightarrow> bytes \<Rightarrow> Store \<times> error option" where
  "store_Set s key val =
     (if s_closed s then (s, Some (errClosed ''memkv.Set'')) else (store_set s key val, None))"

definition store_Delete :: "Store \<Rightarrow> bytes \<Rightarrow> Store \<times> error option" where
  "store_Delete s key =
     (if s_closed s then (s, Some (errClosed ''memkv.Delete'')) else (store_del s key, None))"

definition store_Flush :: "Store \<Rightarrow> error option" where
  "store_Flush s = (if s_closed s then Some (errClosed ''memkv.Flush'') else None)"

definition store_Close :: "Store \<Rightarrow> Store" where
  "store_Close s = s\<lparr>s_closed := True, s_data := Map.empty, s_keys := []\<rparr>"

definition store_view :: "Store \<Rightarrow> view" where
  "store_view s = \<lparr>v_data = s_data s, v_keys = s_keys s\<rparr>"

section \<open>Iterators\<close>

text \<open>
  A buffer is its backing array, as long as its capacity, and the length in use.
  \<open>refill\<close> poisons the whole array before it copies the new bytes in, or allocates
  one when it is too short.
\<close>

type_synonym buffer = "bytes \<times> nat"

definition buf_bytes :: "buffer \<Rightarrow> bytes" where
  "buf_bytes b = take (snd b) (fst b)"

definition refill :: "buffer \<Rightarrow> bytes \<Rightarrow> buffer" where
  "refill buf src =
     (let full = map (\<lambda>_. 0xFF) (fst buf);
          full' = (if length full < length src then replicate (length src) 0 else full)
      in (src @ drop (length src) full', length src))"

record iter =
  it_view :: "view option"
  it_lower :: "bytes option"
  it_upper :: "bytes option"
  it_lo :: int
  it_hi :: int
  it_pos :: int
  it_valid :: bool
  it_keyBuf :: buffer
  it_valBuf :: buffer
  it_closed :: bool

definition newIter :: "view \<Rightarrow> bytes option \<Rightarrow> bytes option \<Rightarrow> iter" where
  "newIter v lower upper =
     (let lo = (case lower of None \<Rightarrow> 0 | Some l \<Rightarrow> int (SearchStrings (v_keys v) l));
          hi = (case upper of None \<Rightarrow> int (length (v_keys v)) | Some u \<Rightarrow> int (SearchStrings (v_keys v) u));
          hi = (if hi < lo then lo else hi)
      in \<lparr>it_view = Some v, it_lower = lower, it_upper = upper, it_lo = lo, it_hi = hi, it_pos = lo - 1,
          it_valid = False, it_keyBuf = ([], 0), it_valBuf = ([], 0), it_closed = False\<rparr>)"

definition iter_stage :: "bytes \<Rightarrow> bytes \<Rightarrow> iter \<Rightarrow> iter" where
  "iter_stage key val it = it\<lparr>it_keyBuf := refill (it_keyBuf it) key, it_valBuf := refill (it_valBuf it) val\<rparr>"

text \<open>An iterator that is not closed has its view.\<close>

definition iter_settle :: "int \<Rightarrow> iter \<Rightarrow> bool \<times> iter" where
  "iter_settle i it =
     (if it_closed it \<or> it_view it = None \<or> i < it_lo it \<or> it_hi it \<le> i
      then (False, (iter_stage [] [] it)
             \<lparr>it_valid := False, it_pos := (if it_hi it \<le> i then it_hi it else it_lo it - 1)\<rparr>)
      else let v = the (it_view it);
               k = v_keys v ! nat i;
               x = (case v_data v k of None \<Rightarrow> [] | Some x \<Rightarrow> x)
           in (True, (iter_stage k x (it\<lparr>it_pos := i\<rparr>))\<lparr>it_valid := True\<rparr>))"

definition iter_First :: "iter \<Rightarrow> bool \<times> iter" where
  "iter_First it = iter_settle (it_lo it) it"

definition iter_Last :: "iter \<Rightarrow> bool \<times> iter" where
  "iter_Last it = iter_settle (it_hi it - 1) it"

definition iter_SeekGE :: "bytes \<Rightarrow> iter \<Rightarrow> (bool \<times> iter) option" where
  "iter_SeekGE key it =
     (case it_view it of
        None \<Rightarrow> None
      | Some v \<Rightarrow>
          let i = int (SearchStrings (v_keys v) key);
              i = (if i < it_lo it then it_lo it else i)
          in Some (iter_settle i it))"

definition iter_Next :: "iter \<Rightarrow> bool \<times> iter" where
  "iter_Next it = (if \<not> it_valid it then (False, it) else iter_settle (it_pos it + 1) it)"

definition iter_Prev :: "iter \<Rightarrow> bool \<times> iter" where
  "iter_Prev it = (if \<not> it_valid it then (False, it) else iter_settle (it_pos it - 1) it)"

definition iter_Key :: "iter \<Rightarrow> bytes" where
  "iter_Key it = (if \<not> it_valid it then [] else buf_bytes (it_keyBuf it))"

definition iter_Value :: "iter \<Rightarrow> bytes" where
  "iter_Value it = (if \<not> it_valid it then [] else buf_bytes (it_valBuf it))"

definition iter_Close :: "iter \<Rightarrow> iter" where
  "iter_Close it = (iter_stage [] [] it)\<lparr>it_closed := True, it_valid := False, it_view := None\<rparr>"

text \<open>
  What \<^verbatim>\<open>NewIterator\<close> returns: a live iterator, or the \<^verbatim>\<open>failed\<close> one that
  yields nothing and carries its error.
\<close>

datatype iterator = Live iter | Failed error

fun itr_First :: "iterator \<Rightarrow> bool \<times> iterator" where
  "itr_First (Live it) = map_prod id Live (iter_First it)"
| "itr_First (Failed e) = (False, Failed e)"

fun itr_Last :: "iterator \<Rightarrow> bool \<times> iterator" where
  "itr_Last (Live it) = map_prod id Live (iter_Last it)"
| "itr_Last (Failed e) = (False, Failed e)"

fun itr_SeekGE :: "bytes \<Rightarrow> iterator \<Rightarrow> (bool \<times> iterator) option" where
  "itr_SeekGE key (Live it) = map_option (map_prod id Live) (iter_SeekGE key it)"
| "itr_SeekGE key (Failed e) = Some (False, Failed e)"

fun itr_Next :: "iterator \<Rightarrow> bool \<times> iterator" where
  "itr_Next (Live it) = map_prod id Live (iter_Next it)"
| "itr_Next (Failed e) = (False, Failed e)"

fun itr_Prev :: "iterator \<Rightarrow> bool \<times> iterator" where
  "itr_Prev (Live it) = map_prod id Live (iter_Prev it)"
| "itr_Prev (Failed e) = (False, Failed e)"

fun itr_Key :: "iterator \<Rightarrow> bytes" where
  "itr_Key (Live it) = iter_Key it"
| "itr_Key (Failed e) = []"

fun itr_Value :: "iterator \<Rightarrow> bytes" where
  "itr_Value (Live it) = iter_Value it"
| "itr_Value (Failed e) = []"

fun itr_Error :: "iterator \<Rightarrow> error option" where
  "itr_Error (Live it) = None"
| "itr_Error (Failed e) = Some e"

fun itr_Close :: "iterator \<Rightarrow> iterator" where
  "itr_Close (Live it) = Live (iter_Close it)"
| "itr_Close (Failed e) = Failed e"

definition store_NewIterator :: "Store \<Rightarrow> bytes option \<Rightarrow> bytes option \<Rightarrow> iterator" where
  "store_NewIterator s lower upper =
     (if s_closed s then Failed (errClosed ''memkv.NewIterator'')
      else Live (newIter (store_view s) lower upper))"

section \<open>Snapshots\<close>

text \<open>A snapshot is its view; a closed one has none.\<close>

type_synonym snapshot = "view option"

definition NewSnapshot :: "Store \<Rightarrow> snapshot" where
  "NewSnapshot s = Some (store_view s)"

definition snapshot_Get :: "snapshot \<Rightarrow> bytes \<Rightarrow> bytes res" where
  "snapshot_Get sn key =
     (case sn of
        None \<Rightarrow> Inl (errClosed ''memkv.Snapshot.Get'')
      | Some v \<Rightarrow> lookup (v_data v) key ''memkv.Snapshot.Get'')"

definition snapshot_NewIterator :: "snapshot \<Rightarrow> bytes option \<Rightarrow> bytes option \<Rightarrow> iterator" where
  "snapshot_NewIterator sn lower upper =
     (case sn of
        None \<Rightarrow> Failed (errClosed ''memkv.Snapshot.NewIterator'')
      | Some v \<Rightarrow> Live (newIter v lower upper))"

definition snapshot_Close :: "snapshot \<Rightarrow> snapshot" where
  "snapshot_Close sn = None"

section \<open>Batches\<close>

record op =
  op_key :: bytes
  op_value :: bytes
  op_delete :: bool

record condition =
  c_key :: bytes
  c_value :: bytes
  c_exists :: bool

record batch =
  b_ops :: "op list"
  b_conditions :: "condition list"

definition NewBatch :: batch where
  "NewBatch = \<lparr>b_ops = [], b_conditions = []\<rparr>"

definition batch_Set :: "bytes \<Rightarrow> bytes \<Rightarrow> batch \<Rightarrow> batch" where
  "batch_Set key val b = b\<lparr>b_ops := b_ops b @ [\<lparr>op_key = key, op_value = val, op_delete = False\<rparr>]\<rparr>"

definition batch_Delete :: "bytes \<Rightarrow> batch \<Rightarrow> batch" where
  "batch_Delete key b = b\<lparr>b_ops := b_ops b @ [\<lparr>op_key = key, op_value = [], op_delete = True\<rparr>]\<rparr>"

fun batch_find :: "op list \<Rightarrow> bytes \<Rightarrow> op option" where
  "batch_find [] k = None"
| "batch_find (o1 # os) k = (if op_key o1 \<noteq> k then batch_find os k else Some o1)"

text \<open>The staged operations are searched from the last to the first.\<close>

definition batch_Get :: "Store \<Rightarrow> batch \<Rightarrow> bytes \<Rightarrow> bytes res" where
  "batch_Get s b key =
     (case batch_find (rev (b_ops b)) key of
        Some o1 \<Rightarrow>
          if op_delete o1 then fail NotFound ''memkv.Batch.Get'' ''key deleted in this batch''
          else Inr (op_value o1)
      | None \<Rightarrow> store_Get s key)"

definition batch_Len :: "batch \<Rightarrow> nat" where
  "batch_Len b = length (b_ops b)"

definition batch_Expect :: "bytes \<Rightarrow> bytes \<Rightarrow> bool \<Rightarrow> batch \<Rightarrow> batch" where
  "batch_Expect key val ex b =
     (if list_ex (\<lambda>o1. op_key o1 = key) (b_ops b) then b
      else if list_ex (\<lambda>c. c_key c = key) (b_conditions b) then b
      else b\<lparr>b_conditions := b_conditions b @ [\<lparr>c_key = key, c_value = val, c_exists = ex\<rparr>]\<rparr>)"

definition condition_fails :: "Store \<Rightarrow> condition \<Rightarrow> bool" where
  "condition_fails s c =
     (let v = s_data s (c_key c); ex = (v \<noteq> None)
      in ex \<noteq> c_exists c \<or> (ex \<and> v \<noteq> Some (c_value c)))"

definition apply_op :: "op \<Rightarrow> Store \<Rightarrow> Store" where
  "apply_op o1 s = (if op_delete o1 then store_del s (op_key o1) else store_set s (op_key o1) (op_value o1))"

definition batch_Commit :: "Store \<Rightarrow> batch \<Rightarrow> Store \<times> batch \<times> error option" where
  "batch_Commit s b =
     (if s_closed s then (s, b, Some (errClosed ''memkv.Batch.Commit''))
      else if list_ex (condition_fails s) (b_conditions b)
      then (s, b, Some (err Conflict ''memkv.Batch.Commit'' ''conditional write conflict''))
      else (fold apply_op (b_ops b) s, b\<lparr>b_ops := []\<rparr>, None))"

definition batch_Close :: "batch \<Rightarrow> batch" where
  "batch_Close b = b\<lparr>b_ops := []\<rparr>"

section \<open>The seek reader\<close>

record SeekReader =
  r_snap :: snapshot
  r_lower :: "bytes option"
  r_upper :: "bytes option"
  r_it :: "iterator option"

definition NewSeekReader :: "snapshot \<Rightarrow> bytes option \<Rightarrow> bytes option \<Rightarrow> SeekReader" where
  "NewSeekReader sn lower upper = \<lparr>r_snap = sn, r_lower = lower, r_upper = upper, r_it = None\<rparr>"

text \<open>\<^verbatim>\<open>bytes.Compare\<close> reads a nil slice as the empty one.\<close>

definition SeekReader_Get :: "SeekReader \<Rightarrow> bytes \<Rightarrow> (SeekReader \<times> bytes res) option" where
  "SeekReader_Get r key =
     (if key < (case r_lower r of None \<Rightarrow> [] | Some l \<Rightarrow> l) \<or>
         (case r_upper r of None \<Rightarrow> False | Some u \<Rightarrow> u \<le> key)
      then Some (r, snapshot_Get (r_snap r) key)
      else let it = (case r_it r of None \<Rightarrow> snapshot_NewIterator (r_snap r) (r_lower r) (r_upper r) | Some it \<Rightarrow> it)
           in case itr_SeekGE key it of
                None \<Rightarrow> None
              | Some (ok, it') \<Rightarrow>
                  Some (r\<lparr>r_it := Some it'\<rparr>,
                    if \<not> ok \<or> itr_Key it' \<noteq> key
                    then case itr_Error it' of
                           Some e \<Rightarrow> Inl e
                         | None \<Rightarrow> fail NotFound ''storage.SeekReader.Get'' ''key not found''
                    else Inr (itr_Value it')))"

definition SeekReader_NewIterator :: "SeekReader \<Rightarrow> bytes option \<Rightarrow> bytes option \<Rightarrow> iterator" where
  "SeekReader_NewIterator r lower upper = snapshot_NewIterator (r_snap r) lower upper"

definition SeekReader_Close :: "SeekReader \<Rightarrow> SeekReader" where
  "SeekReader_Close r = (if r_it r = None then r else r\<lparr>r_it := None\<rparr>)"

section \<open>The scan loop\<close>

text \<open>
  \<^verbatim>\<open>for ok := it.First(); ok; ok = it.Next()\<close>, the loop every range scan is written
  with: the entries its body sees, in order.
\<close>

function iter_rest :: "iter \<Rightarrow> (bytes \<times> bytes) list" where
  "iter_rest it =
     (if it_valid it then (iter_Key it, iter_Value it) # iter_rest (snd (iter_Next it)) else [])"
  by pat_completeness auto
termination
  by (relation "measure (\<lambda>it. if it_valid it then nat (it_hi it - it_pos it) + 1 else 0)")
     (auto simp: iter_Next_def iter_settle_def iter_stage_def Let_def)

declare iter_rest.simps [simp del]

definition iter_entries :: "iter \<Rightarrow> (bytes \<times> bytes) list" where
  "iter_entries it = iter_rest (snd (iter_First it))"

text \<open>The whole loop over a range, and the error check after it.\<close>

fun itr_entries :: "iterator \<Rightarrow> (bytes \<times> bytes) list res" where
  "itr_entries (Live it) = Inr (iter_entries it)"
| "itr_entries (Failed e) = Inl e"

section \<open>The store is a map with a sorted key list\<close>

definition view_ok :: "view \<Rightarrow> bool" where
  "view_ok v \<longleftrightarrow> sorted_wrt (<) (v_keys v) \<and> set (v_keys v) = dom (v_data v)"

definition store_ok :: "Store \<Rightarrow> bool" where
  "store_ok s \<longleftrightarrow>
     sorted_wrt (<) (s_keys s) \<and> set (s_keys s) = dom (s_data s) \<and> (s_closed s \<longrightarrow> s_data s = Map.empty)"

lemma strict_sorted_takeWhile:
  "sorted_wrt (<) ks \<Longrightarrow> takeWhile (\<lambda>k. k < x) ks = filter (\<lambda>k. k < x) (ks :: bytes list)"
proof (induction ks)
  case (Cons k ks)
  have "filter (\<lambda>k. k < x) ks = []" if "\<not> k < x" using Cons.prems that by (auto simp: filter_empty_conv)
  with Cons show ?case by auto
qed simp

lemma SearchStrings_filter: "sorted_wrt (<) ks \<Longrightarrow> SearchStrings ks x = length (filter (\<lambda>k. k < x) ks)"
  using SearchStrings_sorted [of ks x] strict_sorted_takeWhile [of ks x] strict_sorted_imp_sorted [of ks]
  by simp

lemma take_filter_less: "sorted_wrt (<) ks \<Longrightarrow> take (length (filter (\<lambda>k. k < x) ks)) ks = filter (\<lambda>k. k < x) (ks :: bytes list)"
  using takeWhile_eq_take [of "\<lambda>k. k < x" ks] by (simp add: strict_sorted_takeWhile)

lemma drop_filter_less: "sorted_wrt (<) ks \<Longrightarrow> drop (length (filter (\<lambda>k. k < x) ks)) ks = filter (\<lambda>k. x \<le> k) (ks :: bytes list)"
proof (induction ks)
  case (Cons k ks)
  have "filter (\<lambda>k. k < x) ks = [] \<and> filter (\<lambda>k. x \<le> k) ks = ks" if "\<not> k < x"
    using Cons.prems that by (force simp: filter_empty_conv filter_id_conv)
  with Cons show ?case by (auto simp: not_less)
qed simp

lemmas sorted_split = SearchStrings_filter take_filter_less drop_filter_less

lemma sorted_wrt_filter_less: "sorted_wrt (<) ks \<Longrightarrow> sorted_wrt (<) (filter P ks)"
  by (induction ks) auto

lemma s_data_store_set [simp]: "s_data (store_set s k v) = (s_data s)(k \<mapsto> v)"
  by (simp add: store_set_def Let_def)

lemma s_closed_store_set [simp]: "s_closed (store_set s k v) = s_closed s"
  by (simp add: store_set_def Let_def)

lemma s_data_store_del [simp]: "s_data (store_del s k) = (s_data s)(k := None)"
  by (auto simp: store_del_def Let_def)

lemma s_closed_store_del [simp]: "s_closed (store_del s k) = s_closed s"
  by (simp add: store_del_def Let_def)

lemma s_keys_store_set:
  assumes "store_ok s"
  shows "s_keys (store_set s k v) =
    (if s_data s k = None then filter (\<lambda>x. x < k) (s_keys s) @ [k] @ filter (\<lambda>x. k \<le> x) (s_keys s) else s_keys s)"
  using assms by (simp add: store_set_def store_ok_def sorted_split)

lemma s_keys_store_del:
  assumes "store_ok s"
  shows "s_keys (store_del s k) = filter (\<lambda>x. x \<noteq> k) (s_keys s)"
proof (cases "s_data s k")
  case None
  then have "k \<notin> set (s_keys s)" using assms by (auto simp: store_ok_def)
  then have "filter (\<lambda>x. x \<noteq> k) (s_keys s) = s_keys s" by (auto simp: filter_id_conv)
  with None show ?thesis by (simp add: store_del_def)
next
  case (Some v)
  let ?ks = "s_keys s"
  have ok: "sorted_wrt (<) ?ks" and "k \<in> set ?ks" using assms Some by (auto simp: store_ok_def)
  then obtain us vs where ks: "?ks = us @ k # vs" by (meson split_list)
  then have us: "\<forall>x\<in>set us. x < k" and vs: "\<forall>x\<in>set vs. k < x"
    using ok by (auto simp: sorted_wrt_append)
  then have "filter (\<lambda>x. x < k) us = us" "filter (\<lambda>x. x < k) vs = []"
      "filter (\<lambda>x. x \<noteq> k) us = us" "filter (\<lambda>x. x \<noteq> k) vs = vs"
    by (auto simp: filter_id_conv filter_empty_conv)
  moreover from this ks have "SearchStrings ?ks k = length us"
    using SearchStrings_filter [OF ok, of k] by simp
  ultimately show ?thesis using ks Some by (simp add: store_del_def Let_def)
qed

lemma New_simps [simp]: "s_data New = Map.empty" "s_keys New = []" "\<not> s_closed New"
  by (simp_all add: New_def)

lemma store_ok_New [simp]: "store_ok New"
  by (simp add: store_ok_def New_def)

lemma store_ok_store_set: "store_ok s \<Longrightarrow> \<not> s_closed s \<Longrightarrow> store_ok (store_set s k v)"
proof -
  assume ok: "store_ok s" and op: "\<not> s_closed s"
  have "sorted_wrt (<) (filter (\<lambda>x. x < k) (s_keys s) @ [k] @ filter (\<lambda>x. k \<le> x) (s_keys s))" if "s_data s k = None"
  proof -
    have "k \<notin> set (s_keys s)" using ok that by (auto simp: store_ok_def)
    then show ?thesis using ok by (force simp: store_ok_def sorted_wrt_append sorted_wrt_filter_less)
  qed
  moreover have "set (s_keys (store_set s k v)) = insert k (dom (s_data s))"
    using ok by (auto simp: s_keys_store_set store_ok_def)
  ultimately show ?thesis using ok op by (simp add: store_ok_def s_keys_store_set [OF ok])
qed

lemma store_ok_store_del: "store_ok s \<Longrightarrow> store_ok (store_del s k)"
  using s_keys_store_del [of s k] by (auto simp: store_ok_def sorted_wrt_filter_less)

lemma store_ok_Set: "store_ok s \<Longrightarrow> store_ok (fst (store_Set s k v))"
  by (simp add: store_Set_def store_ok_store_set)

lemma store_ok_Delete: "store_ok s \<Longrightarrow> store_ok (fst (store_Delete s k))"
  by (simp add: store_Delete_def store_ok_store_del)

lemma store_ok_Close [simp]: "store_ok (store_Close s)"
  by (simp add: store_ok_def store_Close_def)

lemma view_ok_store_view: "store_ok s \<Longrightarrow> view_ok (store_view s)"
  by (simp add: store_ok_def view_ok_def store_view_def)

section \<open>Batches apply atomically\<close>

definition op_effect :: "op \<Rightarrow> (bytes \<rightharpoonup> bytes) \<Rightarrow> (bytes \<rightharpoonup> bytes)" where
  "op_effect o1 m = m(op_key o1 := (if op_delete o1 then None else Some (op_value o1)))"

lemma apply_op_simps [simp]:
  "s_data (apply_op o1 s) = op_effect o1 (s_data s)" "s_closed (apply_op o1 s) = s_closed s"
  by (auto simp: apply_op_def op_effect_def)

lemma fold_apply_op_simps [simp]:
  "s_data (fold apply_op os s) = fold op_effect os (s_data s)" "s_closed (fold apply_op os s) = s_closed s"
  by (induction os arbitrary: s) simp_all

lemma store_ok_fold_apply_op: "store_ok s \<Longrightarrow> \<not> s_closed s \<Longrightarrow> store_ok (fold apply_op os s)"
  by (induction os arbitrary: s) (simp_all add: apply_op_def store_ok_store_set store_ok_store_del)

lemma batch_find_append:
  "batch_find (xs @ ys) k = (case batch_find xs k of None \<Rightarrow> batch_find ys k | Some o1 \<Rightarrow> Some o1)"
  by (induction xs) auto

lemma fold_op_effect:
  "fold op_effect os m k =
     (case batch_find (rev os) k of
        None \<Rightarrow> m k | Some o1 \<Rightarrow> if op_delete o1 then None else Some (op_value o1))"
  by (induction os arbitrary: m) (auto simp: batch_find_append op_effect_def split: option.splits)

lemma store_ok_Commit: "store_ok s \<Longrightarrow> store_ok (fst (batch_Commit s b))"
  by (simp add: batch_Commit_def store_ok_fold_apply_op)

lemma batch_Commit_Some:
  "batch_Commit s b = (s', b', Some e) \<Longrightarrow> s' = s \<and> b' = b"
  by (auto simp: batch_Commit_def split: if_splits)

lemma batch_Commit_None:
  "batch_Commit s b = (s', b', None) \<longleftrightarrow>
     \<not> s_closed s \<and> (\<forall>c\<in>set (b_conditions b). \<not> condition_fails s c) \<and>
     s' = fold apply_op (b_ops b) s \<and> b' = b\<lparr>b_ops := []\<rparr>"
  by (auto simp: batch_Commit_def list_ex_iff)

lemma condition_fails_iff:
  "condition_fails s c \<longleftrightarrow> s_data s (c_key c) \<noteq> (if c_exists c then Some (c_value c) else None)"
  by (auto simp: condition_fails_def Let_def)

section \<open>An iterator walks its range in key order\<close>

definition entry :: "view \<Rightarrow> bytes \<Rightarrow> bytes \<times> bytes" where
  "entry v k = (k, case v_data v k of None \<Rightarrow> [] | Some x \<Rightarrow> x)"

definition iter_open :: "view \<Rightarrow> iter \<Rightarrow> bool" where
  "iter_open v it \<longleftrightarrow>
     it_view it = Some v \<and> \<not> it_closed it \<and> 0 \<le> it_lo it \<and> it_lo it \<le> it_hi it \<and>
     it_hi it \<le> int (length (v_keys v))"

lemma buf_bytes_refill [simp]: "buf_bytes (refill b src) = src"
  by (simp add: buf_bytes_def refill_def Let_def)

lemma iter_settle_frame [simp]:
  "it_view (snd (iter_settle i it)) = it_view it" "it_closed (snd (iter_settle i it)) = it_closed it"
  "it_lo (snd (iter_settle i it)) = it_lo it" "it_hi (snd (iter_settle i it)) = it_hi it"
  by (simp_all add: iter_settle_def iter_stage_def Let_def)

lemma iter_open_settle [simp]: "iter_open v (snd (iter_settle i it)) = iter_open v it"
  by (simp add: iter_open_def)

lemma iter_settle_valid:
  assumes "iter_open v it" "it_lo it \<le> i" "i < it_hi it"
  shows "fst (iter_settle i it)" "it_valid (snd (iter_settle i it))" "it_pos (snd (iter_settle i it)) = i"
    "(iter_Key (snd (iter_settle i it)), iter_Value (snd (iter_settle i it))) = entry v (v_keys v ! nat i)"
  using assms
  by (simp_all add: iter_open_def iter_settle_def iter_stage_def iter_Key_def iter_Value_def entry_def Let_def)

lemma iter_settle_end:
  assumes "i < it_lo it \<or> it_hi it \<le> i"
  shows "\<not> fst (iter_settle i it)" "\<not> it_valid (snd (iter_settle i it))"
  using assms by (auto simp: iter_settle_def Let_def)

lemma iter_rest_settle:
  assumes "iter_open v it" "it_lo it \<le> i"
  shows "iter_rest (snd (iter_settle i it)) = map (entry v) (drop (nat i) (take (nat (it_hi it)) (v_keys v)))"
  using assms
proof (induction "nat (it_hi it - i)" arbitrary: i it)
  case 0
  then have "it_hi it \<le> i" by simp
  then show ?case using iter_settle_end [of i it] by (simp add: iter_rest.simps)
next
  case (Suc n)
  then have i: "i < it_hi it" by simp
  let ?it = "snd (iter_settle i it)" and ?ks = "take (nat (it_hi it)) (v_keys v)"
  have b: "0 \<le> i" "i < int (length (v_keys v))" using Suc.prems i by (auto simp: iter_open_def)
  have "iter_rest ?it = entry v (v_keys v ! nat i) # iter_rest (snd (iter_Next ?it))"
    using iter_settle_valid [OF Suc.prems i] by (subst iter_rest.simps) simp
  also have "iter_rest (snd (iter_Next ?it)) = map (entry v) (drop (nat (i + 1)) ?ks)"
    using Suc.hyps(1) [of ?it "i + 1"] Suc.hyps(2) Suc.prems iter_settle_valid [OF Suc.prems i]
    by (simp add: iter_Next_def)
  also have "entry v (v_keys v ! nat i) # map (entry v) (drop (nat (i + 1)) ?ks) = map (entry v) (drop (nat i) ?ks)"
  proof -
    have "drop (nat i) ?ks = v_keys v ! nat i # drop (Suc (nat i)) ?ks"
      using b i Cons_nth_drop_Suc [of "nat i" ?ks] by auto
    then show ?thesis using b by (simp add: nat_add_distrib)
  qed
  finally show ?case .
qed

lemma newIter_open: "view_ok v \<Longrightarrow> iter_open v (newIter v lower upper)"
  by (auto simp: iter_open_def newIter_def Let_def view_ok_def SearchStrings_filter split: option.splits)

definition bound_range :: "bytes option \<Rightarrow> bytes option \<Rightarrow> range" where
  "bound_range lower upper = (case lower of None \<Rightarrow> [] | Some l \<Rightarrow> l, upper)"

lemma in_range_fun: "in_range (l, None) = (\<lambda>k. l \<le> k)" "in_range (l, Some u) = (\<lambda>k. l \<le> k \<and> k < u)"
  by auto

lemma length_filter_less_le:
  assumes "a \<le> b"
  shows "length (filter (\<lambda>k. k < a) ks) \<le> length (filter (\<lambda>k. k < b) (ks :: bytes list))"
proof -
  have "filter (\<lambda>k. k < a) ks = filter (\<lambda>k. k < a) (filter (\<lambda>k. k < b) ks)"
    using assms by (auto intro!: filter_cong)
  then show ?thesis by (metis length_filter_le)
qed

lemma sorted_slice:
  assumes "sorted_wrt (<) (ks :: bytes list)"
  shows "drop (length (filter (\<lambda>k. k < l) ks)) (take (max (length (filter (\<lambda>k. k < l) ks)) (length (filter (\<lambda>k. k < u) ks))) ks) =
     filter (\<lambda>k. l \<le> k \<and> k < u) ks"
proof (cases "l \<le> u")
  case True
  have m: "filter (\<lambda>k. k < l) ks = filter (\<lambda>k. k < l) (filter (\<lambda>k. k < u) ks)"
    using True by (auto intro!: filter_cong)
  have "drop (length (filter (\<lambda>k. k < l) ks)) (filter (\<lambda>k. k < u) ks) = filter (\<lambda>k. l \<le> k) (filter (\<lambda>k. k < u) ks)"
    unfolding m by (rule drop_filter_less [OF sorted_wrt_filter_less [OF assms]])
  then show ?thesis
    using length_filter_less_le [OF True] by (simp add: take_filter_less [OF assms] max_def conj_commute)
next
  case False
  then have "length (filter (\<lambda>k. k < u) ks) \<le> length (filter (\<lambda>k. k < l) ks)"
    by (intro length_filter_less_le) simp
  moreover have "filter (\<lambda>k. l \<le> k \<and> k < u) ks = []" using False by (auto simp: filter_empty_conv)
  ultimately show ?thesis by (simp add: max_def)
qed

lemma iter_entries_newIter:
  assumes "view_ok v"
  shows "iter_entries (newIter v lower upper) = map (entry v) (filter (in_range (bound_range lower upper)) (v_keys v))"
proof -
  let ?it = "newIter v lower upper" and ?l = "case lower of None \<Rightarrow> [] | Some l \<Rightarrow> l"
  have s: "sorted_wrt (<) (v_keys v)" using assms by (simp add: view_ok_def)
  have lo: "it_lo ?it = int (length (filter (\<lambda>k. k < ?l) (v_keys v)))"
    by (auto simp: newIter_def Let_def SearchStrings_filter [OF s] split: option.splits)
  have "drop (nat (it_lo ?it)) (take (nat (it_hi ?it)) (v_keys v)) = filter (in_range (bound_range lower upper)) (v_keys v)"
  proof (cases upper)
    case None
    then have "it_hi ?it = int (length (v_keys v))"
      by (auto simp: newIter_def Let_def SearchStrings_filter [OF s] not_less split: option.splits)
    then show ?thesis using lo None drop_filter_less [OF s, of ?l] by (simp add: bound_range_def in_range_fun)
  next
    case (Some u)
    then have "nat (it_hi ?it) = max (length (filter (\<lambda>k. k < ?l) (v_keys v))) (length (filter (\<lambda>k. k < u) (v_keys v)))"
      by (auto simp: newIter_def Let_def SearchStrings_filter [OF s] split: option.splits)
    then show ?thesis using lo Some sorted_slice [OF s, of ?l u] by (simp add: bound_range_def in_range_fun)
  qed
  then show ?thesis
    using iter_rest_settle [OF newIter_open [OF assms, of lower upper], of "it_lo ?it"]
    by (simp add: iter_entries_def iter_First_def)
qed

section \<open>Seeking\<close>

definition iter_for :: "view \<Rightarrow> bytes option \<Rightarrow> bytes option \<Rightarrow> iter \<Rightarrow> bool" where
  "iter_for v lower upper it \<longleftrightarrow>
     iter_open v it \<and> it_lo it = it_lo (newIter v lower upper) \<and> it_hi it = it_hi (newIter v lower upper)"

lemma iter_for_newIter: "view_ok v \<Longrightarrow> iter_for v lower upper (newIter v lower upper)"
  by (simp add: iter_for_def newIter_open)

lemma iter_for_settle [simp]: "iter_for v lower upper (snd (iter_settle i it)) = iter_for v lower upper it"
  by (simp add: iter_for_def)

lemma iter_rest_Nil_iff: "iter_rest it = [] \<longleftrightarrow> \<not> it_valid it"
  by (subst iter_rest.simps) simp

lemma iter_rest_ConsD: "iter_rest it = (k, x) # es \<Longrightarrow> iter_Key it = k \<and> iter_Value it = x"
  by (subst (asm) iter_rest.simps) (simp split: if_splits)

lemma fst_iter_settle: "fst (iter_settle i it) = it_valid (snd (iter_settle i it))"
  by (simp add: iter_settle_def Let_def)

lemma drop_take_max: "a \<le> b \<Longrightarrow> drop b (take (max a n) xs) = drop b (take (max b n) xs)"
  by (auto simp: max_def)

lemma it_hi_newIter:
  "nat (it_hi (newIter v lower upper)) =
     max (nat (it_lo (newIter v lower upper)))
       (case upper of None \<Rightarrow> length (v_keys v) | Some u \<Rightarrow> SearchStrings (v_keys v) u)"
  by (auto simp: newIter_def Let_def max_def split: option.splits)

text \<open>After a seek, the entries from the position on are those of the range from the key on.\<close>

lemma iter_SeekGE_rest:
  assumes "view_ok v" "iter_for v lower upper it"
  obtains it' where "iter_SeekGE key it = Some (iter_rest it' \<noteq> [], it')" "iter_for v lower upper it'"
    "iter_rest it' = map (entry v) (filter (\<lambda>k. key \<le> k \<and> in_range (bound_range lower upper) k) (v_keys v))"
proof -
  have s: "sorted_wrt (<) (v_keys v)" using assms(1) by (simp add: view_ok_def)
  let ?l = "case lower of None \<Rightarrow> [] | Some l \<Rightarrow> l"
  let ?nit = "newIter v (Some (max ?l key)) upper"
  let ?i = "max (it_lo it) (int (SearchStrings (v_keys v) key))"
  have lo: "it_lo it = int (length (filter (\<lambda>k. k < ?l) (v_keys v)))"
    using assms(2) by (auto simp: iter_for_def newIter_def Let_def SearchStrings_filter [OF s] split: option.splits)
  have i: "?i = it_lo ?nit"
    using length_filter_less_le [of ?l key "v_keys v"] length_filter_less_le [of key ?l "v_keys v"]
    by (auto simp: lo newIter_def Let_def SearchStrings_filter [OF s] max_def)
  have "drop (nat ?i) (take (nat (it_hi it)) (v_keys v)) = drop (nat (it_lo ?nit)) (take (nat (it_hi ?nit)) (v_keys v))"
  proof -
    let ?n = "case upper of None \<Rightarrow> length (v_keys v) | Some u \<Rightarrow> SearchStrings (v_keys v) u"
    have hi: "nat (it_hi it) = max (nat (it_lo it)) ?n" "nat (it_hi ?nit) = max (nat ?i) ?n"
      using assms(2) i it_hi_newIter [of v lower upper] it_hi_newIter [of v "Some (max ?l key)" upper]
      by (simp_all only: iter_for_def)
    show ?thesis unfolding i [symmetric] hi by (rule drop_take_max) simp
  qed
  then have "iter_rest (snd (iter_settle ?i it)) = iter_entries ?nit"
    using iter_rest_settle [of v it ?i] iter_rest_settle [OF newIter_open [OF assms(1)], of _ upper "it_lo ?nit"] assms(2)
    by (simp add: iter_entries_def iter_First_def iter_for_def)
  also have "\<dots> = map (entry v) (filter (\<lambda>k. key \<le> k \<and> in_range (bound_range lower upper) k) (v_keys v))"
    unfolding iter_entries_newIter [OF assms(1)]
    by (intro arg_cong [where f = "map (entry v)"] filter_cong) (auto simp: in_range_alt bound_range_def)
  finally have rest: "iter_rest (snd (iter_settle ?i it)) = \<dots>" .
  have "it_view it = Some v" using assms(2) by (simp add: iter_for_def iter_open_def)
  then have "iter_SeekGE key it = Some (iter_settle ?i it)"
    by (simp add: iter_SeekGE_def Let_def max_def not_less)
  then have "iter_SeekGE key it = Some (iter_rest (snd (iter_settle ?i it)) \<noteq> [], snd (iter_settle ?i it))"
    by (simp only: iter_rest_Nil_iff fst_iter_settle [symmetric] not_not prod.collapse)
  with that assms(2) rest show ?thesis by simp
qed

lemma filter_ge_hd:
  "sorted_wrt (<) ks \<Longrightarrow> key \<in> set ks \<Longrightarrow> P key \<Longrightarrow> \<exists>rest. filter (\<lambda>k. key \<le> k \<and> P k) ks = key # rest"
  for key :: bytes
proof (induction ks)
  case (Cons k ks)
  show ?case
  proof (cases "k = key")
    case False
    with Cons.prems have "k < key" "key \<in> set ks" by auto
    with Cons show ?thesis by (auto simp: not_le)
  qed (use Cons.prems in simp)
qed simp

definition reader_ok :: "view \<Rightarrow> SeekReader \<Rightarrow> bool" where
  "reader_ok v r \<longleftrightarrow>
     r_snap r = Some v \<and> view_ok v \<and>
     (\<forall>i. r_it r = Some i \<longrightarrow> (\<exists>it. i = Live it \<and> iter_for v (r_lower r) (r_upper r) it))"

lemma reader_ok_New: "view_ok v \<Longrightarrow> reader_ok v (NewSeekReader (Some v) lower upper)"
  by (simp add: reader_ok_def NewSeekReader_def)

lemma reader_ok_Close: "reader_ok v r \<Longrightarrow> reader_ok v (SeekReader_Close r)"
  by (simp add: reader_ok_def SeekReader_Close_def)

definition agrees :: "bytes option \<Rightarrow> bytes res \<Rightarrow> bool" where
  "agrees x r \<longleftrightarrow> (case x of Some val \<Rightarrow> r = Inr val | None \<Rightarrow> (case r of Inl e \<Rightarrow> is_kind e NotFound | Inr _ \<Rightarrow> False))"

lemma agrees_lookup: "agrees (data key) (lookup data key op)"
  by (auto simp: agrees_def lookup_def fail_def split: option.splits)

lemma agrees_NotFound: "agrees None (fail NotFound op msg)"
  by (simp add: agrees_def fail_def)

lemma SeekReader_Get_agrees:
  assumes ok: "reader_ok v r"
  obtains r' x where "SeekReader_Get r key = Some (r', x)" "reader_ok v r'" "agrees (v_data v key) x"
proof (cases "key < (case r_lower r of None \<Rightarrow> [] | Some l \<Rightarrow> l) \<or> (case r_upper r of None \<Rightarrow> False | Some u \<Rightarrow> u \<le> key)")
  case True
  then show ?thesis using that [of r "snapshot_Get (r_snap r) key"] ok
    by (simp add: SeekReader_Get_def reader_ok_def snapshot_Get_def agrees_lookup)
next
  case False
  let ?R = "bound_range (r_lower r) (r_upper r)"
  have v: "view_ok v" "sorted_wrt (<) (v_keys v)" "set (v_keys v) = dom (v_data v)"
    using ok by (auto simp: reader_ok_def view_ok_def)
  have in_r: "in_range ?R key" using False by (auto simp: in_range_alt bound_range_def not_less split: option.splits)
  obtain it where it: "iter_for v (r_lower r) (r_upper r) it"
      "(case r_it r of None \<Rightarrow> snapshot_NewIterator (r_snap r) (r_lower r) (r_upper r) | Some i \<Rightarrow> i) = Live it"
    using ok iter_for_newIter [OF v(1)]
    by (cases "r_it r") (auto simp: reader_ok_def snapshot_NewIterator_def)
  obtain it' where it': "iter_SeekGE key it = Some (iter_rest it' \<noteq> [], it')" "iter_for v (r_lower r) (r_upper r) it'"
      "iter_rest it' = map (entry v) (filter (\<lambda>k. key \<le> k \<and> in_range ?R k) (v_keys v))"
    by (rule iter_SeekGE_rest [OF v(1) it(1), of key])
  let ?x = "if iter_rest it' = [] \<or> iter_Key it' \<noteq> key
            then fail NotFound ''storage.SeekReader.Get'' ''key not found'' else Inr (iter_Value it')"
  have "agrees (v_data v key) ?x"
  proof (cases "v_data v key")
    case None
    have "iter_Key it' \<noteq> key" if ne: "iter_rest it' \<noteq> []"
    proof -
      obtain k rest where k: "filter (\<lambda>k. key \<le> k \<and> in_range ?R k) (v_keys v) = k # rest"
        using ne it'(3) by (cases "filter (\<lambda>k. key \<le> k \<and> in_range ?R k) (v_keys v)") auto
      then have "k \<in> set (v_keys v)" by (auto simp: filter_eq_Cons_iff)
      then have "k \<noteq> key" using None v(3) by auto
      then show ?thesis using k it'(3) iter_rest_ConsD [of it' k] by (auto simp: entry_def)
    qed
    then show ?thesis using None by (auto simp: agrees_NotFound)
  next
    case (Some val)
    then have "key \<in> set (v_keys v)" using v(3) by auto
    then obtain rest where "iter_rest it' = (key, val) # rest"
      using filter_ge_hd [OF v(2), of key "in_range ?R"] in_r Some it'(3) by (auto simp: entry_def)
    then show ?thesis using Some iter_rest_ConsD [of it' key val rest] by (simp add: agrees_def)
  qed
  moreover have "SeekReader_Get r key = Some (r\<lparr>r_it := Some (Live it')\<rparr>, ?x)"
    using False it(2) it'(1) by (simp add: SeekReader_Get_def Let_def)
  moreover have "reader_ok v (r\<lparr>r_it := Some (Live it')\<rparr>)" using ok it'(2) by (simp add: reader_ok_def)
  ultimately show ?thesis using that by blast
qed

section \<open>The contract of a key-value store\<close>

text \<open>
  What the components above the store rely on, from the doc comments of
  \<^verbatim>\<open>storage.KV\<close>: contents as a partial map, point reads and writes, and a range scan
  that visits the entries of the range in key order.
\<close>

definition store_scan :: "Store \<Rightarrow> range \<Rightarrow> (bytes \<times> bytes) list" where
  "store_scan s r = iter_entries (newIter (store_view s) (Some (fst r)) (snd r))"

locale kv_contract =
  fixes inv :: "'s \<Rightarrow> bool"
    and contents :: "'s \<Rightarrow> bytes \<rightharpoonup> bytes"
    and put :: "'s \<Rightarrow> bytes \<Rightarrow> bytes \<Rightarrow> 's"
    and del :: "'s \<Rightarrow> bytes \<Rightarrow> 's"
    and scan :: "'s \<Rightarrow> range \<Rightarrow> (bytes \<times> bytes) list"
  assumes inv_put: "inv s \<Longrightarrow> inv (put s k v)"
    and inv_del: "inv s \<Longrightarrow> inv (del s k)"
    and contents_put: "contents (put s k v) = (contents s)(k \<mapsto> v)"
    and contents_del: "contents (del s k) = (contents s)(k := None)"
    and scan_set: "inv s \<Longrightarrow> set (scan s r) = {(k, v). contents s k = Some v \<and> in_range r k}"
    and scan_sorted: "inv s \<Longrightarrow> sorted_wrt (<) (map fst (scan s r))"
begin

lemma scan_mem_iff: "inv s \<Longrightarrow> (k, v) \<in> set (scan s r) \<longleftrightarrow> contents s k = Some v \<and> in_range r k"
  by (simp add: scan_set)

lemma scan_distinct: "inv s \<Longrightarrow> distinct (map fst (scan s r))"
  using scan_sorted strict_sorted_iff by blast

lemma scan_determined:
  assumes "inv s" "inv s'" "\<And>k. in_range r k \<Longrightarrow> contents s k = contents s' k"
  shows "scan s r = scan s' r"
proof -
  have st: "set (scan s r) = set (scan s' r)" using assms by (auto simp: scan_set)
  then have m: "map fst (scan s r) = map fst (scan s' r)"
    using assms scan_sorted strict_sorted_equal by (metis list.set_map)
  show ?thesis
  proof (rule nth_equalityI)
    show "length (scan s r) = length (scan s' r)" using m by (metis length_map)
    fix i
    assume i: "i < length (scan s r)"
    then have "fst (scan s r ! i) = fst (scan s' r ! i)" using m by (metis length_map nth_map)
    moreover have "scan s r ! i \<in> set (scan s r)" "scan s' r ! i \<in> set (scan s r)"
      using i m st by (metis length_map nth_mem)+
    ultimately show "scan s r ! i = scan s' r ! i" using assms(1) by (auto simp: scan_set prod_eq_iff)
  qed
qed

lemma scan_put_outside: "inv s \<Longrightarrow> \<not> in_range r k \<Longrightarrow> scan (put s k v) r = scan s r"
  by (rule scan_determined) (auto simp: inv_put contents_put)

lemma scan_del_outside: "inv s \<Longrightarrow> \<not> in_range r k \<Longrightarrow> scan (del s k) r = scan s r"
  by (rule scan_determined) (auto simp: inv_del contents_del)

end

definition store_live :: "Store \<Rightarrow> bool" where
  "store_live s \<longleftrightarrow> store_ok s \<and> \<not> s_closed s"

lemma store_scan_filter:
  "store_ok s \<Longrightarrow> store_scan s r = map (entry (store_view s)) (filter (in_range r) (s_keys s))"
  using iter_entries_newIter [OF view_ok_store_view, of s "Some (fst r)" "snd r"]
  by (simp add: store_scan_def bound_range_def store_view_def)

interpretation memkv: kv_contract store_live s_data store_set store_del store_scan
proof
  fix s r
  assume "store_live s"
  then have ok: "store_ok s" by (simp add: store_live_def)
  then show "set (store_scan s r) = {(k, v). s_data s k = Some v \<and> in_range r k}"
    by (force simp: store_scan_filter entry_def store_view_def store_ok_def split: option.splits)
  have "map fst (map (entry (store_view s)) ks) = ks" for ks by (induction ks) (simp_all add: entry_def)
  with ok show "sorted_wrt (<) (map fst (store_scan s r))"
    by (simp add: store_scan_filter store_ok_def sorted_wrt_filter_less)
qed (simp_all add: store_live_def store_ok_store_set store_ok_store_del)

section \<open>What the engine promises\<close>

text \<open>
  C9: Every operation of the store keeps its two representations in step: the key list stays
  strictly sorted and lists exactly the keys of the map, and a closed store is empty.
\<close>

theorem store_invariant:
  assumes "store_ok s"
  shows "store_ok (fst (store_Set s k v)) \<and> store_ok (fst (store_Delete s k)) \<and>
         store_ok (fst (batch_Commit s b)) \<and> store_ok (store_Close s) \<and> store_ok New"
  using assms by (simp add: store_ok_Set store_ok_Delete store_ok_Commit)

theorem store_invariant_witness:
  "store_ok (fst (store_Set (fst (store_Set New (str ''b'') [1])) (str ''a'') [2]))"
  using store_invariant [of "fst (store_Set New (str ''b'') [1])" "str ''a''" "[2]" NewBatch]
    store_invariant [of New "str ''b''" "[1]" NewBatch] by simp

text \<open>
  C7: A commit is all or nothing. When it reports an error the store is untouched, and the error is
  Unavailable on a closed store or Conflict because some expectation did not hold; when it succeeds
  every expectation held and each key has the value of the last operation staged for it.
\<close>

theorem commit_atomic:
  "(case batch_Commit s b of
      (s', b', Some e) \<Rightarrow>
        s' = s \<and> b' = b \<and>
        (if s_closed s then is_kind e Unavailable
         else is_kind e Conflict \<and>
              (\<exists>c\<in>set (b_conditions b). s_data s (c_key c) \<noteq> (if c_exists c then Some (c_value c) else None)))
    | (s', b', None) \<Rightarrow>
        \<not> s_closed s' \<and> b_ops b' = [] \<and>
        list_all (\<lambda>c. s_data s (c_key c) = (if c_exists c then Some (c_value c) else None)) (b_conditions b) \<and>
        s_data s' = (\<lambda>k. case batch_find (rev (b_ops b)) k of
                            None \<Rightarrow> s_data s k
                          | Some o1 \<Rightarrow> if op_delete o1 then None else Some (op_value o1)))"
  by (auto simp: batch_Commit_def errClosed_def list_ex_iff list_all_iff condition_fails_iff fold_op_effect
      split: if_splits)

text \<open>
  C10: A read through a batch answers what the store would answer once the batch is committed.
\<close>

theorem batch_reads_its_writes:
  assumes "batch_Commit s b = (s', b', None)"
  shows "agrees (s_data s' k) (batch_Get s b k)"
  using assms agrees_lookup [of "s_data s" k "''memkv.Get''"]
  by (auto simp: batch_Commit_None batch_Get_def fold_op_effect store_Get_def agrees_NotFound
      split: option.splits) (simp add: agrees_def)

theorem batch_reads_its_writes_witness:
  "agrees None (batch_Get New (batch_Delete (str ''a'') (batch_Set (str ''a'') [1] NewBatch)) (str ''a''))"
proof -
  let ?b = "batch_Delete (str ''a'') (batch_Set (str ''a'') [1] NewBatch)"
  have "batch_Commit New ?b = (fold apply_op (b_ops ?b) New, ?b\<lparr>b_ops := []\<rparr>, None)"
    by (simp add: batch_Commit_def batch_Delete_def batch_Set_def NewBatch_def New_def)
  from batch_reads_its_writes [OF this, of "str ''a''"] show ?thesis
    by (simp add: op_effect_def batch_Delete_def)
qed

text \<open>
  C8: The scan loop over a range of a live store visits exactly the entries whose keys are in the
  range, each once, in ascending key order.
\<close>

theorem scan_visits_range_in_order:
  assumes "store_ok s" "\<not> s_closed s"
  shows "\<exists>es. itr_entries (store_NewIterator s lower upper) = Inr es \<and>
           sorted_wrt (<) (map fst es) \<and>
           set es = {(k, v). s_data s k = Some v \<and> in_range (case lower of None \<Rightarrow> [] | Some l \<Rightarrow> l, upper) k}"
proof -
  let ?r = "(case lower of None \<Rightarrow> [] | Some l \<Rightarrow> l, upper)"
  have live: "store_live s" using assms by (simp add: store_live_def)
  have "itr_entries (store_NewIterator s lower upper) = Inr (store_scan s ?r)"
    using assms iter_entries_newIter [OF view_ok_store_view, of s lower upper]
      iter_entries_newIter [OF view_ok_store_view, of s "Some (fst ?r)" upper]
    by (simp add: store_NewIterator_def store_scan_def bound_range_def)
  then show ?thesis using memkv.scan_sorted [OF live] memkv.scan_set [OF live] by auto
qed

theorem scan_visits_range_in_order_witness:
  "\<exists>es. itr_entries (store_NewIterator (store_set New [7] [1]) None None) = Inr es \<and> set es = {([7], [1])}"
proof -
  have "{(k, v). s_data (store_set New [7] [1]) k = Some v \<and> in_range ([], None) k} = {([7], [1])}"
    by (auto split: if_splits)
  with scan_visits_range_in_order [of "store_set New [7] [1]" None None] show ?thesis
    by (auto simp: store_ok_store_set)
qed

text \<open>
  C11: A seek reader answers every key as the snapshot beneath it does, whatever keys it was asked
  before and whether or not they lie in its range, and never fails on its own.
\<close>

theorem SeekReader_answers_as_snapshot:
  assumes "reader_ok v r"
  shows "\<exists>r' x. SeekReader_Get r key = Some (r', x) \<and> reader_ok v r' \<and>
           agrees (v_data v key) x \<and> agrees (v_data v key) (snapshot_Get (r_snap r) key)"
proof -
  have "agrees (v_data v key) (snapshot_Get (r_snap r) key)"
    using assms by (simp add: reader_ok_def snapshot_Get_def agrees_lookup)
  with SeekReader_Get_agrees [OF assms, of key] show ?thesis by metis
qed

theorem SeekReader_answers_as_snapshot_witness:
  "\<exists>r' x. SeekReader_Get (NewSeekReader (NewSnapshot (store_set New [7] [1])) (Some [5]) (Some [9])) [7] = Some (r', x) \<and>
     agrees (Some [1]) x"
proof -
  have "view_ok (store_view (store_set New [7] [1]))"
    by (intro view_ok_store_view store_ok_store_set) simp_all
  from SeekReader_answers_as_snapshot [OF reader_ok_New [OF this], of "Some [5]" "Some [9]" "[7]"]
  show ?thesis by (auto simp: NewSnapshot_def store_view_def)
qed

text \<open>
  C12: A snapshot taken from a closed store answers every read with NotFound, as an empty store
  would, while the store itself answers Unavailable.
\<close>

theorem snapshot_of_closed_store:
  "snapshot_Get (NewSnapshot (store_Close s)) k = fail NotFound ''memkv.Snapshot.Get'' ''key not found'' \<and>
   itr_entries (snapshot_NewIterator (NewSnapshot (store_Close s)) lower upper) = Inr [] \<and>
   store_Get (store_Close s) k = Inl (errClosed ''memkv.Get'')"
  using iter_entries_newIter [OF view_ok_store_view [OF store_ok_Close], of s lower upper]
  by (simp add: snapshot_Get_def NewSnapshot_def snapshot_NewIterator_def lookup_def store_Get_def
      store_Close_def store_view_def)

end
