(* ===== verification/Schema_Slots.thy ===== *)
theory Schema_Slots
  imports Memkv "HOL-Library.AList"
begin

text \<open>
  The registered attribute slot table, \<^verbatim>\<open>src/internal/schema/slots.go\<close>. Go maps are
  association lists with distinct keys; no operation depends on their order. The protobuf encoding
  of the persisted table is the parameters \<open>enc\<close> and \<open>dec\<close>.
\<close>

definition MaxEncodableSlot :: "16 word" where
  "MaxEncodableSlot = 2039"

datatype SlotType = SlotUnspecified | SlotBool | SlotU8 | SlotU32 | SlotU64 | SlotF32 | SlotString

text \<open>The value of a slot type, its position in the constant list, is what orders it.\<close>

fun slottype_num :: "SlotType \<Rightarrow> nat" where
  "slottype_num SlotUnspecified = 0"
| "slottype_num SlotBool = 1"
| "slottype_num SlotU8 = 2"
| "slottype_num SlotU32 = 3"
| "slottype_num SlotU64 = 4"
| "slottype_num SlotF32 = 5"
| "slottype_num SlotString = 6"

lemma slottype_num_inject [simp]: "slottype_num a = slottype_num b \<longleftrightarrow> a = b"
  by (cases a; cases b) simp_all

instantiation SlotType :: linorder
begin

definition less_eq_SlotType :: "SlotType \<Rightarrow> SlotType \<Rightarrow> bool" where
  "less_eq_SlotType a b \<longleftrightarrow> slottype_num a \<le> slottype_num b"

definition less_SlotType :: "SlotType \<Rightarrow> SlotType \<Rightarrow> bool" where
  "less_SlotType a b \<longleftrightarrow> slottype_num a < slottype_num b"

instance
  by standard (auto simp: less_eq_SlotType_def less_SlotType_def)

end

fun slot_Width :: "SlotType \<Rightarrow> nat \<times> bool" where
  "slot_Width SlotBool = (1, True)"
| "slot_Width SlotU8 = (1, True)"
| "slot_Width SlotU32 = (4, True)"
| "slot_Width SlotF32 = (4, True)"
| "slot_Width SlotU64 = (8, True)"
| "slot_Width SlotString = (0, False)"
| "slot_Width SlotUnspecified = (0, False)"

record SlotDef =
  sd_Slot :: "16 word"
  sd_Name :: bytes
  sd_Type :: SlotType
  sd_Indexed :: bool
  sd_Retired :: bool

record Slots =
  sl_version :: "32 word"
  sl_defs :: "(16 word \<times> SlotDef) list"
  sl_names :: "(bytes \<times> 16 word) list"

definition NewSlots :: "32 word \<Rightarrow> Slots" where
  "NewSlots version = \<lparr>sl_version = version, sl_defs = [], sl_names = []\<rparr>"

definition Register :: "SlotDef \<Rightarrow> Slots \<Rightarrow> Slots res" where
  "Register d s = (let op = ''schema.Slots.Register'' in
     if sd_Name d = [] then fail Invalid op ''slot has no name''
     else if sd_Type d = SlotUnspecified then fail Invalid op ''slot has no type''
     else if MaxEncodableSlot < sd_Slot d then fail Invalid op ''slot exceeds the highest encodable slot''
     else if map_of (sl_defs s) (sd_Slot d) \<noteq> None then fail Invalid op ''a slot number is never reused''
     else if map_of (sl_names s) (sd_Name d) \<noteq> None then fail Invalid op ''another slot already answers to that name''
     else Inr (s\<lparr>sl_defs := (sd_Slot d, d) # sl_defs s, sl_names := (sd_Name d, sd_Slot d) # sl_names s\<rparr>))"

definition Retire :: "16 word \<Rightarrow> Slots \<Rightarrow> Slots res" where
  "Retire slot s =
     (case map_of (sl_defs s) slot of
        None \<Rightarrow> fail Invalid ''schema.Slots.Retire'' ''slot is not registered, so there is nothing to retire''
      | Some d \<Rightarrow> Inr (s\<lparr>sl_defs := AList.update slot (d\<lparr>sd_Retired := True\<rparr>) (sl_defs s)\<rparr>))"

definition slots_Get :: "Slots \<Rightarrow> 16 word \<Rightarrow> SlotDef option" where
  "slots_Get s slot = map_of (sl_defs s) slot"

definition slots_Lookup :: "Slots \<Rightarrow> bytes \<Rightarrow> SlotDef option" where
  "slots_Lookup s name = (case map_of (sl_names s) name of None \<Rightarrow> None | Some slot \<Rightarrow> map_of (sl_defs s) slot)"

definition slots_Defs :: "Slots \<Rightarrow> SlotDef list" where
  "slots_Defs s = sort_key sd_Slot (map snd (sl_defs s))"

definition IndexedSlots :: "Slots \<Rightarrow> SlotDef list" where
  "IndexedSlots s = filter (\<lambda>d. sd_Indexed d \<and> \<not> sd_Retired d) (slots_Defs s)"

definition MaxSlot :: "Slots \<Rightarrow> 16 word" where
  "MaxSlot s = fold (\<lambda>slot mx. if mx < slot then slot else mx) (map fst (sl_defs s)) 0"

definition BitmapLen :: "Slots \<Rightarrow> nat" where
  "BitmapLen s = (if length (sl_defs s) = 0 then 0 else unat (MaxSlot s) div 8 + 1)"

definition slots_Equal :: "Slots \<Rightarrow> Slots \<Rightarrow> bool" where
  "slots_Equal s other \<longleftrightarrow>
     (if sl_version s \<noteq> sl_version other \<or> length (sl_defs s) \<noteq> length (sl_defs other) then False
      else list_all (\<lambda>(slot, d). map_of (sl_defs other) slot = Some d) (sl_defs s))"

fun validate_slots_loop :: "Slots \<Rightarrow> SlotDef list \<Rightarrow> error option" where
  "validate_slots_loop s [] = None"
| "validate_slots_loop s (old # olds) = (let op = ''schema.Slots.Validate'' in
     case map_of (sl_defs s) (sd_Slot old) of
       None \<Rightarrow> Some (err IncompatibleVersion op ''slot exists on disk but not in the registered schema'')
     | Some now \<Rightarrow>
         if sd_Type now \<noteq> sd_Type old \<or> sd_Name now \<noteq> sd_Name old
         then Some (err IncompatibleVersion op ''slot changed: retire the slot and add a new one instead'')
         else if sd_Retired old \<and> \<not> sd_Retired now
         then Some (err IncompatibleVersion op ''slot is retired on disk and cannot be revived'')
         else validate_slots_loop s olds)"

definition slots_Validate :: "Slots \<Rightarrow> Slots option \<Rightarrow> error option" where
  "slots_Validate s persisted =
     (case persisted of None \<Rightarrow> None | Some p \<Rightarrow> validate_slots_loop s (slots_Defs p))"

section \<open>The persisted table\<close>

text \<open>
  The \<^verbatim>\<open>pb.SlotSchema\<close> message: a version and the slots as (number, name, type, indexed,
  retired). The type is the enum's number, a 32-bit integer on the wire.
\<close>

record pb_Slot =
  ps_Slot :: "32 word"
  ps_Name :: bytes
  ps_Type :: "32 word"
  ps_Indexed :: bool
  ps_Retired :: bool

record pb_SlotSchema =
  pss_Version :: "32 word"
  pss_Slots :: "pb_Slot list"

fun slotTypeToProto :: "SlotType \<Rightarrow> 32 word" where
  "slotTypeToProto SlotBool = 1"
| "slotTypeToProto SlotU8 = 2"
| "slotTypeToProto SlotU32 = 3"
| "slotTypeToProto SlotU64 = 4"
| "slotTypeToProto SlotF32 = 5"
| "slotTypeToProto SlotString = 6"
| "slotTypeToProto SlotUnspecified = 0"

definition slotTypeFromProto :: "32 word \<Rightarrow> SlotType" where
  "slotTypeFromProto t =
     (if t = 1 then SlotBool else if t = 2 then SlotU8 else if t = 3 then SlotU32 else if t = 4 then SlotU64
      else if t = 5 then SlotF32 else if t = 6 then SlotString else SlotUnspecified)"

lemma slotTypeFromProto_ToProto [simp]: "slotTypeFromProto (slotTypeToProto t) = t"
  by (cases t) (simp_all add: slotTypeFromProto_def)

definition SlotsKey :: bytes where
  "SlotsKey = System (str ''/slots'')"

fun ReadSlots_loop :: "pb_Slot list \<Rightarrow> Slots \<Rightarrow> Slots res" where
  "ReadSlots_loop [] s = Inr s"
| "ReadSlots_loop (d # ds) s = (let op = ''schema.ReadSlots'' in
     if ucast MaxEncodableSlot < ps_Slot d then fail Corruption op ''above the highest encodable slot''
     else let def = \<lparr>sd_Slot = ucast (ps_Slot d), sd_Name = ps_Name d, sd_Type = slotTypeFromProto (ps_Type d),
                     sd_Indexed = ps_Indexed d, sd_Retired = ps_Retired d\<rparr> in
       if sd_Type def = SlotUnspecified then fail Corruption op ''slot on disk has a type this binary does not know''
       else case Register def s of
              Inl e \<Rightarrow> Inl (Error Corruption op (Wrapped ''the slot schema on disk is not a valid table'' e))
            | Inr s' \<Rightarrow> ReadSlots_loop ds s')"

definition ReadSlots :: "(bytes \<Rightarrow> pb_SlotSchema option) \<Rightarrow> Store \<Rightarrow> Slots option res" where
  "ReadSlots dec st = (let op = ''schema.ReadSlots'' in
     case store_Get st SlotsKey of
       Inl e \<Rightarrow> if Is (Some e) NotFound then Inr None else Inl e
     | Inr val \<Rightarrow>
         (case dec val of
            None \<Rightarrow> fail Corruption op ''the slot schema row will not parse''
          | Some row \<Rightarrow> bindR (ReadSlots_loop (pss_Slots row) (NewSlots (pss_Version row))) (\<lambda>s. Inr (Some s))))"

definition slots_row :: "Slots \<Rightarrow> pb_SlotSchema" where
  "slots_row s =
     \<lparr>pss_Version = sl_version s,
      pss_Slots = map (\<lambda>d. \<lparr>ps_Slot = ucast (sd_Slot d), ps_Name = sd_Name d, ps_Type = slotTypeToProto (sd_Type d),
                            ps_Indexed = sd_Indexed d, ps_Retired = sd_Retired d\<rparr>) (slots_Defs s)\<rparr>"

definition WriteSlots :: "(pb_SlotSchema \<Rightarrow> bytes option) \<Rightarrow> Store \<Rightarrow> Slots \<Rightarrow> Store \<times> error option" where
  "WriteSlots enc st s =
     (case enc (slots_row s) of
        None \<Rightarrow> (st, Some (err Invalid ''schema.WriteSlots'' ''encoding the slot schema''))
      | Some val \<Rightarrow> store_Set st SlotsKey val)"

definition OpenSlots ::
    "(pb_SlotSchema \<Rightarrow> bytes option) \<Rightarrow> (bytes \<Rightarrow> pb_SlotSchema option) \<Rightarrow> Store \<Rightarrow> Slots \<Rightarrow> Store \<times> error option" where
  "OpenSlots enc dec st registered =
     (case ReadSlots dec st of
        Inl e \<Rightarrow> (st, Some e)
      | Inr None \<Rightarrow> WriteSlots enc st registered
      | Inr (Some persisted) \<Rightarrow>
          (case slots_Validate registered (Some persisted) of
             Some e \<Rightarrow> (st, Some e)
           | None \<Rightarrow> if slots_Equal registered persisted then (st, None) else WriteSlots enc st registered))"

section \<open>A table addresses every slot by one number and one name\<close>

definition slots_ok :: "Slots \<Rightarrow> bool" where
  "slots_ok s \<longleftrightarrow>
     distinct (map fst (sl_defs s)) \<and> distinct (map fst (sl_names s)) \<and>
     (\<forall>slot d. map_of (sl_defs s) slot = Some d \<longrightarrow>
        sd_Slot d = slot \<and> slot \<le> MaxEncodableSlot \<and> sd_Type d \<noteq> SlotUnspecified \<and>
        sd_Name d \<noteq> [] \<and> map_of (sl_names s) (sd_Name d) = Some slot) \<and>
     (\<forall>name slot. map_of (sl_names s) name = Some slot \<longrightarrow>
        (\<exists>d. map_of (sl_defs s) slot = Some d \<and> sd_Name d = name))"

lemma slots_ok_New: "slots_ok (NewSlots v)"
  by (simp add: slots_ok_def NewSlots_def)

lemma dom_map_of_iff: "map_of xs k = None \<longleftrightarrow> k \<notin> fst ` set xs"
  by (simp add: map_of_eq_None_iff)

lemma Register_Inr:
  "Register d s = Inr s' \<longleftrightarrow>
     sd_Name d \<noteq> [] \<and> sd_Type d \<noteq> SlotUnspecified \<and> sd_Slot d \<le> MaxEncodableSlot \<and>
     map_of (sl_defs s) (sd_Slot d) = None \<and> map_of (sl_names s) (sd_Name d) = None \<and>
     s' = s\<lparr>sl_defs := (sd_Slot d, d) # sl_defs s, sl_names := (sd_Name d, sd_Slot d) # sl_names s\<rparr>"
  by (auto simp: Register_def Let_def)

lemma slots_ok_Register: "slots_ok s \<Longrightarrow> Register d s = Inr s' \<Longrightarrow> slots_ok s'"
  unfolding Register_Inr slots_ok_def
  by (auto simp: dom_map_of_iff split: if_splits) (force simp: image_iff)+

lemma Retire_Inr:
  "Retire slot s = Inr s' \<longleftrightarrow>
     (\<exists>d. map_of (sl_defs s) slot = Some d \<and>
          s' = s\<lparr>sl_defs := AList.update slot (d\<lparr>sd_Retired := True\<rparr>) (sl_defs s)\<rparr>)"
  by (auto simp: Retire_def split: option.splits)

lemma slots_ok_Retire: "slots_ok s \<Longrightarrow> Retire slot s = Inr s' \<Longrightarrow> slots_ok s'"
  unfolding Retire_Inr slots_ok_def
  by (auto simp: update_conv' distinct_update simp del: map_of_eq_Some_iff split: if_splits)
     (metis option.inject)

lemma slots_ok_defD:
  "slots_ok s \<Longrightarrow> map_of (sl_defs s) slot = Some d \<Longrightarrow>
   sd_Slot d = slot \<and> slot \<le> MaxEncodableSlot \<and> sd_Type d \<noteq> SlotUnspecified \<and> sd_Name d \<noteq> [] \<and>
   map_of (sl_names s) (sd_Name d) = Some slot"
  unfolding slots_ok_def by blast

lemma slots_Get_ok:
  "slots_ok s \<Longrightarrow> slots_Get s slot = Some d \<Longrightarrow> sd_Slot d = slot \<and> slot \<le> MaxEncodableSlot \<and> sd_Type d \<noteq> SlotUnspecified"
  by (simp add: slots_ok_def slots_Get_def del: map_of_eq_Some_iff)

lemma set_slots_Defs: "slots_ok s \<Longrightarrow> d \<in> set (slots_Defs s) \<longleftrightarrow> slots_Get s (sd_Slot d) = Some d"
proof
  assume ok: "slots_ok s" and "d \<in> set (slots_Defs s)"
  then obtain slot where "(slot, d) \<in> set (sl_defs s)" by (auto simp: slots_Defs_def)
  then have "map_of (sl_defs s) slot = Some d" using ok by (simp add: slots_ok_def)
  then show "slots_Get s (sd_Slot d) = Some d" using ok by (simp add: slots_ok_def slots_Get_def del: map_of_eq_Some_iff)
next
  assume "slots_ok s" "slots_Get s (sd_Slot d) = Some d"
  then have "(sd_Slot d, d) \<in> set (sl_defs s)" by (auto simp: slots_Get_def dest: map_of_SomeD)
  then have "d \<in> snd ` set (sl_defs s)" by force
  then show "d \<in> set (slots_Defs s)" by (simp add: slots_Defs_def)
qed

lemma map_fst_sl_defs: "slots_ok s \<Longrightarrow> map fst (sl_defs s) = map (\<lambda>x. sd_Slot (snd x)) (sl_defs s)"
  by (auto simp: slots_ok_def)

lemma distinct_slots_Defs: "slots_ok s \<Longrightarrow> distinct (map sd_Slot (slots_Defs s))"
proof -
  assume ok: "slots_ok s"
  then have "distinct (map sd_Slot (map snd (sl_defs s)))"
    using map_fst_sl_defs [OF ok] by (simp add: slots_ok_def comp_def)
  then show ?thesis unfolding slots_Defs_def distinct_map set_sort distinct_sort .
qed

lemma sorted_slots_Defs: "sorted (map sd_Slot (slots_Defs s))"
  by (simp add: slots_Defs_def)

lemma MaxSlot_upper: "slots_Get s slot = Some d \<Longrightarrow> slot \<le> MaxSlot s"
proof -
  have mx: "m \<le> fold (\<lambda>slot mx. if mx < slot then slot else mx) xs m \<and>
      (\<forall>x\<in>set xs. x \<le> fold (\<lambda>slot mx. if mx < slot then slot else mx) xs m)" for xs and m :: "16 word"
  proof (induction xs arbitrary: m)
    case (Cons a xs)
    show ?case using Cons.IH [of a] Cons.IH [of m] by (cases "m < a") force+
  qed simp
  assume "slots_Get s slot = Some d"
  then have "slot \<in> set (map fst (sl_defs s))" unfolding slots_Get_def by (force dest: map_of_SomeD)
  with mx [of 0 "map fst (sl_defs s)"] show ?thesis unfolding MaxSlot_def by blast
qed

lemma MaxSlot_le: "slots_ok s \<Longrightarrow> MaxSlot s \<le> MaxEncodableSlot"
proof -
  assume ok: "slots_ok s"
  have "fold (\<lambda>slot mx. if mx < slot then slot else mx) xs m \<le> b"
    if "m \<le> b" "\<forall>x\<in>set xs. x \<le> b" for xs and m b :: "16 word"
    using that by (induction xs arbitrary: m) auto
  moreover have "\<forall>x\<in>set (map fst (sl_defs s)). x \<le> MaxEncodableSlot"
    using ok by (force simp: slots_ok_def)
  ultimately show ?thesis by (simp add: MaxSlot_def)
qed

section \<open>Persistence and evolution\<close>

lemma validate_slots_loop_None:
  "validate_slots_loop s olds = None \<longleftrightarrow>
     (\<forall>old\<in>set olds. \<exists>now. slots_Get s (sd_Slot old) = Some now \<and> sd_Type now = sd_Type old \<and>
        sd_Name now = sd_Name old \<and> (sd_Retired old \<longrightarrow> sd_Retired now))"
  by (induction olds) (auto simp: slots_Get_def Let_def split: option.splits)

definition extends :: "Slots \<Rightarrow> Slots \<Rightarrow> bool" where
  "extends now old \<longleftrightarrow>
     (\<forall>slot d. slots_Get old slot = Some d \<longrightarrow>
        (\<exists>d'. slots_Get now slot = Some d' \<and> sd_Type d' = sd_Type d \<and> sd_Name d' = sd_Name d \<and>
              (sd_Retired d \<longrightarrow> sd_Retired d')))"

lemma slots_Validate_iff:
  assumes "slots_ok old"
  shows "slots_Validate now (Some old) = None \<longleftrightarrow> extends now old"
proof -
  have "slots_Get old slot = Some d \<longleftrightarrow> d \<in> set (slots_Defs old) \<and> sd_Slot d = slot" for slot d
    using set_slots_Defs [OF assms, of d] slots_Get_ok [OF assms, of slot d] by auto
  then show ?thesis by (auto simp: slots_Validate_def validate_slots_loop_None extends_def)
qed

lemma dom_slots_Get: "dom (slots_Get s) = set (map fst (sl_defs s))"
  by (simp add: slots_Get_def [abs_def] dom_map_of_conv_image_fst)

lemma length_sl_defs: "slots_ok s \<Longrightarrow> length (sl_defs s) = card (dom (slots_Get s))"
  using distinct_card [of "map fst (sl_defs s)"] unfolding dom_slots_Get by (simp add: slots_ok_def)

lemma mem_sl_defs: "slots_ok s \<Longrightarrow> (slot, d) \<in> set (sl_defs s) \<longleftrightarrow> slots_Get s slot = Some d"
  by (simp add: slots_ok_def slots_Get_def)

lemma slots_Equal_iff:
  assumes "slots_ok s" "slots_ok s'"
  shows "slots_Equal s s' \<longleftrightarrow> sl_version s = sl_version s' \<and> slots_Get s = slots_Get s'"
proof -
  let ?len = "length (sl_defs s) = length (sl_defs s')" and ?le = "slots_Get s \<subseteq>\<^sub>m slots_Get s'"
  have "list_all (\<lambda>(slot, d). map_of (sl_defs s') slot = Some d) (sl_defs s) \<longleftrightarrow> ?le"
  proof -
    have "list_all (\<lambda>(slot, d). map_of (sl_defs s') slot = Some d) (sl_defs s) \<longleftrightarrow>
        (\<forall>slot d. slots_Get s slot = Some d \<longrightarrow> slots_Get s' slot = Some d)"
      by (auto simp: list_all_iff mem_sl_defs [OF assms(1), symmetric] slots_Get_def [of s'] simp del: map_of_eq_Some_iff)
    then show ?thesis by (simp add: map_le_def dom_def) metis
  qed
  moreover have "slots_Get s = slots_Get s'" if "?len" "?le"
  proof -
    have "finite (dom (slots_Get s'))" by (simp add: dom_slots_Get)
    then have "dom (slots_Get s) = dom (slots_Get s')"
      using that length_sl_defs [OF assms(1)] length_sl_defs [OF assms(2)]
      by (intro card_subset_eq) (simp_all add: map_le_implies_dom_le)
    then show ?thesis using that(2) by (auto simp: map_le_def fun_eq_iff) (metis domIff)
  qed
  ultimately show ?thesis
    using length_sl_defs [OF assms(1)] length_sl_defs [OF assms(2)] by (auto simp: slots_Equal_def)
qed

lemma ucast_16_32 [simp]: "ucast (ucast (w :: 16 word) :: 32 word) = w"
  by (rule bit_word_eqI) (simp add: bit_simps)

lemma ucast_32_less_iff: "(ucast (v :: 16 word) :: 32 word) < ucast w \<longleftrightarrow> v < w"
proof -
  have "unat (ucast (x :: 16 word) :: 32 word) = unat x" for x
  proof -
    have "unat x < 2 ^ 16" using unsigned_less [of x, where 'a = nat] by simp
    then show ?thesis by (simp add: unsigned_ucast_eq take_bit_nat_eq_self)
  qed
  then show ?thesis by (simp add: word_less_nat_alt)
qed

definition slot_row :: "SlotDef \<Rightarrow> pb_Slot" where
  "slot_row d = \<lparr>ps_Slot = ucast (sd_Slot d), ps_Name = sd_Name d, ps_Type = slotTypeToProto (sd_Type d),
                 ps_Indexed = sd_Indexed d, ps_Retired = sd_Retired d\<rparr>"

lemma slots_row_alt: "slots_row s = \<lparr>pss_Version = sl_version s, pss_Slots = map slot_row (slots_Defs s)\<rparr>"
  by (simp add: slots_row_def slot_row_def [abs_def])

lemma ReadSlots_loop_Cons:
  "sd_Slot d \<le> MaxEncodableSlot \<Longrightarrow> sd_Type d \<noteq> SlotUnspecified \<Longrightarrow> Register d s = Inr s' \<Longrightarrow>
   ReadSlots_loop (slot_row d # rows) s = ReadSlots_loop rows s'"
  by (cases d) (simp add: slot_row_def Let_def ucast_32_less_iff leD)

lemma ReadSlots_loop_rows:
  assumes "slots_ok s"
    and "\<forall>d\<in>set ds. sd_Slot d \<le> MaxEncodableSlot \<and> sd_Type d \<noteq> SlotUnspecified \<and> sd_Name d \<noteq> []"
    and "distinct (map sd_Slot ds)" "distinct (map sd_Name ds)"
    and "\<forall>d\<in>set ds. map_of (sl_defs s) (sd_Slot d) = None \<and> map_of (sl_names s) (sd_Name d) = None"
  shows "\<exists>s'. ReadSlots_loop (map slot_row ds) s = Inr s' \<and> slots_ok s' \<and> sl_version s' = sl_version s \<and>
     (\<forall>slot d. slots_Get s' slot = Some d \<longleftrightarrow> slots_Get s slot = Some d \<or> (d \<in> set ds \<and> sd_Slot d = slot))"
  using assms
proof (induction ds arbitrary: s)
  case Nil
  then show ?case by simp
next
  case (Cons d ds)
  let ?s = "s\<lparr>sl_defs := (sd_Slot d, d) # sl_defs s, sl_names := (sd_Name d, sd_Slot d) # sl_names s\<rparr>"
  have reg: "Register d s = Inr ?s" using Cons.prems by (simp add: Register_Inr)
  have "slots_ok ?s" by (rule slots_ok_Register [OF Cons.prems(1) reg])
  moreover have "\<forall>e\<in>set ds. map_of (sl_defs ?s) (sd_Slot e) = None \<and> map_of (sl_names ?s) (sd_Name e) = None"
    using Cons.prems(3,4,5) by (auto simp: image_iff)
  ultimately obtain s' where s': "ReadSlots_loop (map slot_row ds) ?s = Inr s'" "slots_ok s'" "sl_version s' = sl_version s"
      "\<And>slot e. slots_Get s' slot = Some e \<longleftrightarrow> slots_Get ?s slot = Some e \<or> (e \<in> set ds \<and> sd_Slot e = slot)"
    using Cons.IH [of ?s] Cons.prems(2,3,4) by auto
  have "slots_Get ?s slot = Some e \<longleftrightarrow> slots_Get s slot = Some e \<or> (e = d \<and> sd_Slot d = slot)" for slot e
    using Cons.prems(5) by (auto simp: slots_Get_def)
  with s' have "\<forall>slot e. slots_Get s' slot = Some e \<longleftrightarrow> slots_Get s slot = Some e \<or> (e \<in> set (d # ds) \<and> sd_Slot e = slot)"
    by auto
  moreover have "ReadSlots_loop (map slot_row (d # ds)) s = Inr s'"
    using ReadSlots_loop_Cons [of d s ?s "map slot_row ds"] Cons.prems(2) reg s'(1) by simp
  ultimately show ?case using s'(2,3) by blast
qed

lemma distinct_names_Defs: "slots_ok s \<Longrightarrow> distinct (map sd_Name (slots_Defs s))"
proof -
  assume ok: "slots_ok s"
  have "d = e" if "d \<in> set (slots_Defs s)" "e \<in> set (slots_Defs s)" "sd_Name d = sd_Name e" for d e
  proof -
    have "map_of (sl_defs s) (sd_Slot d) = Some d" "map_of (sl_defs s) (sd_Slot e) = Some e"
      using that set_slots_Defs [OF ok] by (simp_all add: slots_Get_def)
    moreover from this have "map_of (sl_names s) (sd_Name d) = Some (sd_Slot d)" "map_of (sl_names s) (sd_Name e) = Some (sd_Slot e)"
      using slots_ok_defD [OF ok] by blast+
    ultimately show ?thesis using that(3) by simp
  qed
  then have "inj_on sd_Name (set (slots_Defs s))" by (auto simp: inj_on_def)
  moreover have "distinct (slots_Defs s)" using distinct_slots_Defs [OF ok] by (simp add: distinct_map)
  ultimately show ?thesis by (simp add: distinct_map)
qed

lemma slots_Defs_valid:
  "slots_ok s \<Longrightarrow> \<forall>d\<in>set (slots_Defs s). sd_Slot d \<le> MaxEncodableSlot \<and> sd_Type d \<noteq> SlotUnspecified \<and> sd_Name d \<noteq> []"
  by (blast dest: set_slots_Defs [THEN iffD1] slots_ok_defD [unfolded slots_Get_def [symmetric]])

lemma ReadSlots_loop_slots_row:
  assumes "slots_ok s"
  obtains p where "ReadSlots_loop (pss_Slots (slots_row s)) (NewSlots (pss_Version (slots_row s))) = Inr p"
    "slots_ok p" "slots_Equal s p" "slots_Get p = slots_Get s"
proof -
  obtain p where p: "ReadSlots_loop (map slot_row (slots_Defs s)) (NewSlots (sl_version s)) = Inr p" "slots_ok p"
      "sl_version p = sl_version s"
      "\<And>slot d. slots_Get p slot = Some d \<longleftrightarrow> d \<in> set (slots_Defs s) \<and> sd_Slot d = slot"
    using ReadSlots_loop_rows [OF slots_ok_New slots_Defs_valid [OF assms] distinct_slots_Defs [OF assms] distinct_names_Defs [OF assms], of "sl_version s"]
    by (auto simp: NewSlots_def slots_Get_def)
  have "slots_Get p slot = Some d \<longleftrightarrow> slots_Get s slot = Some d" for slot d
    using p(4) set_slots_Defs [OF assms, of d] slots_Get_ok [OF assms, of slot d] by auto
  then have "slots_Get p = slots_Get s" by (metis (no_types) ext not_None_eq)
  then show ?thesis using that [of p] p assms by (simp add: slots_row_alt slots_Equal_iff)
qed

lemma ReadSlots_loop_ok: "ReadSlots_loop rows s = Inr s' \<Longrightarrow> slots_ok s \<Longrightarrow> slots_ok s'"
  by (induction rows arbitrary: s) (auto simp: Let_def split: if_splits sum.splits intro: slots_ok_Register)

lemma ReadSlots_ok: "ReadSlots dec st = Inr (Some s) \<Longrightarrow> slots_ok s"
  by (auto simp: ReadSlots_def Let_def bindR_eq_Inr dest!: ReadSlots_loop_ok intro: slots_ok_New
      split: sum.splits if_splits option.splits)

lemma ReadSlots_WriteSlots:
  assumes "\<And>r b. enc r = Some b \<Longrightarrow> dec b = Some r" "slots_ok s" "WriteSlots enc st s = (st', None)"
  shows "\<exists>p. ReadSlots dec st' = Inr (Some p) \<and> slots_Get p = slots_Get s"
proof -
  obtain b where b: "enc (slots_row s) = Some b" "\<not> s_closed st" "st' = store_set st SlotsKey b"
    using assms(3) by (auto simp: WriteSlots_def store_Set_def split: option.splits if_splits)
  obtain p where "ReadSlots_loop (pss_Slots (slots_row s)) (NewSlots (pss_Version (slots_row s))) = Inr p" "slots_Get p = slots_Get s"
    by (rule ReadSlots_loop_slots_row [OF assms(2)])
  then show ?thesis using b assms(1) [OF b(1)] by (simp add: ReadSlots_def store_Get_def lookup_def)
qed

text \<open>
  C19: Opening a directory either leaves the table on disk equal to the registered one, having
  checked that the registered table keeps every persisted slot with its name and type and revives
  none that was retired, or reports an error and writes nothing.
\<close>

theorem OpenSlots_persists_or_refuses:
  assumes "\<And>r b. enc r = Some b \<Longrightarrow> dec b = Some r" "slots_ok registered"
    and "OpenSlots enc dec st registered = (st', e)"
  shows "case e of
      Some _ \<Rightarrow> st' = st
    | None \<Rightarrow> (\<exists>p. ReadSlots dec st' = Inr (Some p) \<and> slots_Get p = slots_Get registered) \<and>
        (\<forall>old. ReadSlots dec st = Inr (Some old) \<longrightarrow> extends registered old)"
proof (cases "ReadSlots dec st")
  case (Inl e)
  with assms(3) show ?thesis by (auto simp: OpenSlots_def)
next
  case (Inr o1)
  have w: "case e of Some _ \<Rightarrow> st' = st | None \<Rightarrow> \<exists>p. ReadSlots dec st' = Inr (Some p) \<and> slots_Get p = slots_Get registered"
    if "WriteSlots enc st registered = (st', e)"
    using that ReadSlots_WriteSlots [OF assms(1,2), where st = st and st' = st']
    by (cases e) (auto simp: WriteSlots_def store_Set_def split: option.splits if_splits)
  show ?thesis
  proof (cases o1)
    case None
    then show ?thesis using w assms(3) Inr by (auto simp: OpenSlots_def split: option.splits)
  next
    case (Some old)
    then have ok: "slots_ok old" using Inr ReadSlots_ok by blast
    show ?thesis
      using assms(3) Inr Some w slots_Validate_iff [OF ok] slots_Equal_iff [OF assms(2) ok]
      by (auto simp: OpenSlots_def split: option.splits if_splits)
  qed
qed

theorem OpenSlots_persists_or_refuses_witness:
  "let r0 = slots_row (NewSlots 1); enc = (\<lambda>r. if r = r0 then Some [1] else None);
       dec = (\<lambda>b. if b = [1 :: 8 word] then Some r0 else None)
   in \<exists>st'. OpenSlots enc dec Memkv.New (NewSlots 1) = (st', None) \<and>
        (\<exists>p. ReadSlots dec st' = Inr (Some p) \<and> slots_Get p = slots_Get (NewSlots 1))"
proof -
  define r0 where "r0 = slots_row (NewSlots 1)"
  define enc :: "pb_SlotSchema \<Rightarrow> bytes option" where "enc = (\<lambda>r. if r = r0 then Some [1] else None)"
  define dec :: "bytes \<Rightarrow> pb_SlotSchema option" where "dec = (\<lambda>b. if b = [1] then Some r0 else None)"
  have rt: "enc r = Some b \<Longrightarrow> dec b = Some r" for r b by (auto simp: enc_def dec_def split: if_splits)
  have "ReadSlots dec Memkv.New = Inr None"
    by (simp add: ReadSlots_def store_Get_def lookup_def fail_def err_def Is_def)
  then obtain st' where st': "OpenSlots enc dec Memkv.New (NewSlots 1) = (st', None)"
    by (simp add: OpenSlots_def WriteSlots_def enc_def r0_def store_Set_def)
  with OpenSlots_persists_or_refuses [OF rt slots_ok_New st'] show ?thesis
    unfolding Let_def r0_def [symmetric] enc_def [symmetric] dec_def [symmetric] by auto
qed

end
