(* ===== verification/Attr_Row.thy ===== *)
theory Attr_Row
  imports Schema_Slots
begin

text \<open>
  Attribute values and rows, \<^verbatim>\<open>src/internal/attr/value.go\<close> and \<^verbatim>\<open>row.go\<close>, and
  the memory slot table and projection of \<^verbatim>\<open>slots.go\<close>. A value is the struct of the
  source: its slot type, a number that holds every fixed-width content, and a string. Floats are
  their bit patterns. Decoding reads a row under a table that may be newer than the one the row
  was written under.
\<close>

section \<open>Values\<close>

record Value =
  v_typ :: SlotType
  v_num :: "64 word"
  v_str :: bytes

definition noValue :: Value where
  "noValue = \<lparr>v_typ = SlotUnspecified, v_num = 0, v_str = []\<rparr>"

definition vBool :: "bool \<Rightarrow> Value" where
  "vBool b = \<lparr>v_typ = SlotBool, v_num = (if b then 1 else 0), v_str = []\<rparr>"

definition vU8 :: "8 word \<Rightarrow> Value" where
  "vU8 v = \<lparr>v_typ = SlotU8, v_num = ucast v, v_str = []\<rparr>"

definition vU32 :: "32 word \<Rightarrow> Value" where
  "vU32 v = \<lparr>v_typ = SlotU32, v_num = ucast v, v_str = []\<rparr>"

definition vU64 :: "64 word \<Rightarrow> Value" where
  "vU64 v = \<lparr>v_typ = SlotU64, v_num = v, v_str = []\<rparr>"

text \<open>\<^verbatim>\<open>v == 0\<close> holds of both zeroes.\<close>

definition vF32 :: "32 word \<Rightarrow> Value" where
  "vF32 v = \<lparr>v_typ = SlotF32, v_num = ucast (if f32_isNaN v \<or> f32_val v = 0 then 0 else v), v_str = []\<rparr>"

definition vStr :: "bytes \<Rightarrow> Value" where
  "vStr v = \<lparr>v_typ = SlotString, v_num = 0, v_str = v\<rparr>"

definition value_IsZero :: "Value \<Rightarrow> bool" where
  "value_IsZero v \<longleftrightarrow> v_typ v = SlotUnspecified"

definition AsBool :: "Value \<Rightarrow> bool option" where
  "AsBool v = (if v_typ v \<noteq> SlotBool then None else Some (v_num v = 1))"

definition AsUint :: "Value \<Rightarrow> 64 word option" where
  "AsUint v = (if v_typ v \<in> {SlotU8, SlotU32, SlotU64} then Some (v_num v) else None)"

definition AsFloat32 :: "Value \<Rightarrow> 32 word option" where
  "AsFloat32 v = (if v_typ v \<noteq> SlotF32 then None else Some (ucast (v_num v)))"

definition AsString :: "Value \<Rightarrow> bytes option" where
  "AsString v = (if v_typ v \<noteq> SlotString then None else Some (v_str v))"

definition value_Order :: "bytes \<Rightarrow> Value \<Rightarrow> bytes" where
  "value_Order dst v =
     (case v_typ v of
        SlotBool \<Rightarrow> PutBool dst (v_num v = 1)
      | SlotU8 \<Rightarrow> PutUint8 dst (ucast (v_num v))
      | SlotU32 \<Rightarrow> PutUint32 dst (ucast (v_num v))
      | SlotU64 \<Rightarrow> PutUint64 dst (v_num v)
      | SlotF32 \<Rightarrow> PutFloat32 dst (ucast (v_num v))
      | SlotString \<Rightarrow> PutString dst (v_str v)
      | SlotUnspecified \<Rightarrow> dst)"

definition OrderBytes :: "Value \<Rightarrow> bytes" where
  "OrderBytes v = value_Order [] v"

definition cmpUint :: "'a::linorder \<Rightarrow> 'a \<Rightarrow> int" where
  "cmpUint a b = (if a < b then - 1 else if b < a then 1 else 0)"

definition value_Compare :: "Value \<Rightarrow> Value \<Rightarrow> int" where
  "value_Compare v w =
     (if v_typ v \<noteq> v_typ w then cmpUint (slottype_num (v_typ v)) (slottype_num (v_typ w))
      else case v_typ v of
             SlotF32 \<Rightarrow>
               let a = ucast (v_num v); b = ucast (v_num w)
               in if f32_less a b then - 1 else if f32_less b a then 1 else 0
           | SlotString \<Rightarrow> if v_str v < v_str w then - 1 else if v_str w < v_str v then 1 else 0
           | _ \<Rightarrow> cmpUint (v_num v) (v_num w))"

definition decodeString :: "bytes \<Rightarrow> string \<Rightarrow> (Value \<times> bytes) res" where
  "decodeString b op =
     (let (n, w) = Uvarint b in
      if w \<le> 0 then fail Corruption op ''a string value ends before its length prefix''
      else let b' = drop (nat w) b in
        if length b' < unat n then fail Corruption op ''a string value declares more bytes than remain''
        else Inr (vStr (take (unat n) b'), drop (unat n) b'))"

definition decodeValue :: "SlotType \<Rightarrow> bytes \<Rightarrow> (Value \<times> bytes) res" where
  "decodeValue typ b = (let op = ''attr.decodeValue'' in
     case typ of
       SlotBool \<Rightarrow> bindR (GetBool b) (\<lambda>(x, rest). Inr (vBool x, rest))
     | SlotU8 \<Rightarrow> bindR (GetUint8 b) (\<lambda>(x, rest). Inr (vU8 x, rest))
     | SlotU32 \<Rightarrow> bindR (GetUint32 b) (\<lambda>(x, rest). Inr (vU32 x, rest))
     | SlotU64 \<Rightarrow> bindR (GetUint64 b) (\<lambda>(x, rest). Inr (vU64 x, rest))
     | SlotF32 \<Rightarrow> bindR (GetFloat32 b) (\<lambda>(x, rest). Inr (vF32 x, rest))
     | SlotString \<Rightarrow> decodeString b op
     | SlotUnspecified \<Rightarrow> fail Corruption op ''slot type has no width, so nothing can be read at this offset'')"

definition encodeValue :: "bytes \<Rightarrow> Value \<Rightarrow> bytes" where
  "encodeValue dst v =
     (if v_typ v = SlotString then AppendUvarint dst (len64 (v_str v)) @ v_str v else value_Order dst v)"

section \<open>Rows\<close>

definition RowFormatVersion :: byte where
  "RowFormatVersion = 1"

record Row =
  r_SchemaVersion :: "32 word"
  r_values :: "Value list"
  r_present :: int

definition NewRow :: "32 word \<Rightarrow> Row" where
  "NewRow schemaVersion = \<lparr>r_SchemaVersion = schemaVersion, r_values = [], r_present = 0\<rparr>"

definition row_Set :: "16 word \<Rightarrow> Value \<Rightarrow> Row \<Rightarrow> Row" where
  "row_Set slot v r =
     (let i = unat slot in
      if length (r_values r) \<le> i \<and> v_typ v = SlotUnspecified then r
      else let vs = (if length (r_values r) \<le> i
                     then r_values r @ replicate (i + 1 - length (r_values r)) noValue else r_values r);
               had = (v_typ (vs ! i) \<noteq> SlotUnspecified);
               has = (v_typ v \<noteq> SlotUnspecified)
           in r\<lparr>r_values := vs[i := v],
                r_present := (if has \<and> \<not> had then r_present r + 1 else if had \<and> \<not> has then r_present r - 1 else r_present r)\<rparr>)"

definition row_Get :: "Row \<Rightarrow> 16 word \<Rightarrow> Value option" where
  "row_Get r slot =
     (if length (r_values r) \<le> unat slot \<or> v_typ (r_values r ! unat slot) = SlotUnspecified then None
      else Some (r_values r ! unat slot))"

definition row_Len :: "Row \<Rightarrow> int" where
  "row_Len r = r_present r"

definition row_Slots :: "Row \<Rightarrow> nat list" where
  "row_Slots r = filter (\<lambda>i. v_typ (r_values r ! i) \<noteq> SlotUnspecified) [0..<length (r_values r)]"

definition set_bitmap :: "nat list \<Rightarrow> bytes \<Rightarrow> bytes" where
  "set_bitmap slots bm = fold (\<lambda>slot bm. bm[slot div 8 := (bm ! (slot div 8)) OR push_bit (slot mod 8) 1]) slots bm"

definition row_Encode :: "Row \<Rightarrow> Slots \<Rightarrow> bytes res" where
  "row_Encode r s =
     (let slots = row_Slots r in
      if slots \<noteq> [] \<and> unat MaxEncodableSlot < last slots
      then fail Invalid ''attr.Row.Encode'' ''row carries a slot above the highest encodable slot''
      else let n = (if slots = [] then 0 else last slots div 8 + 1);
               bitmapLen = (if n < BitmapLen s then BitmapLen s else n);
               hdr = [RowFormatVersion] @ be32 (r_SchemaVersion r) @ [of_nat bitmapLen];
               bitmap = set_bitmap slots (replicate bitmapLen 0)
           in Inr (fold (\<lambda>slot out. encodeValue out (r_values r ! slot)) slots (hdr @ bitmap)))"

text \<open>
  The loop over the slots of the bitmap: the slots still to look at, what remains of the values,
  and the row built so far.
\<close>

fun DecodeRow_loop :: "Slots \<Rightarrow> bytes \<Rightarrow> nat list \<Rightarrow> bytes \<Rightarrow> Row \<Rightarrow> Row res" where
  "DecodeRow_loop s bitmap [] rest row = Inr row"
| "DecodeRow_loop s bitmap (slot # slots) rest row =
     (if (bitmap ! (slot div 8)) AND push_bit (slot mod 8) 1 = 0 then DecodeRow_loop s bitmap slots rest row
      else case slots_Get s (of_nat slot) of
             None \<Rightarrow> fail Corruption ''attr.DecodeRow'' ''attribute row carries a slot the registered schema does not declare''
           | Some def \<Rightarrow>
               (case decodeValue (sd_Type def) rest of
                  Inl e \<Rightarrow> Inl (Error Corruption ''attr.DecodeRow'' (Wrapped ''slot'' e))
                | Inr (v, after) \<Rightarrow>
                    DecodeRow_loop s bitmap slots after
                      (if \<not> sd_Retired def then row_Set (of_nat slot) v row else row)))"

definition DecodeRow :: "bytes \<Rightarrow> Slots \<Rightarrow> Row res" where
  "DecodeRow b s = (let op = ''attr.DecodeRow''; headerLen = 1 + 4 + 1 in
     if length b < headerLen then fail Corruption op ''attribute row is shorter than its header''
     else if b ! 0 \<noteq> RowFormatVersion then fail Corruption op ''attribute row format version is not one this binary reads''
     else let bitmapLen = unat (b ! 5); valuesAt = headerLen + bitmapLen in
       if length b < valuesAt then fail Corruption op ''attribute row is truncated inside its bitmap''
       else DecodeRow_loop s (take bitmapLen (drop headerLen b)) [0..<bitmapLen * 8] (drop valuesAt b)
              \<lparr>r_SchemaVersion = unbe (take 4 (drop 1 b)), r_values = replicate (bitmapLen * 8) noValue, r_present = 0\<rparr>)"

definition RowKey :: "tenant \<Rightarrow> nspace \<Rightarrow> id \<Rightarrow> bytes" where
  "RowKey t ns rid = AttrRow t ns rid"

definition IndexKey :: "tenant \<Rightarrow> nspace \<Rightarrow> 16 word \<Rightarrow> Value \<Rightarrow> id \<Rightarrow> bytes" where
  "IndexKey t ns slot v rid = AttrIndex t ns slot (OrderBytes v) rid"

section \<open>Values encode canonically and in order\<close>

text \<open>The values the constructors make; a string is at most what a length prefix can say.\<close>

definition value_ok :: "Value \<Rightarrow> bool" where
  "value_ok v \<longleftrightarrow>
     (\<exists>b. v = vBool b) \<or> (\<exists>x. v = vU8 x) \<or> (\<exists>x. v = vU32 x) \<or> (\<exists>x. v = vU64 x) \<or> (\<exists>x. v = vF32 x) \<or>
     (\<exists>x. v = vStr x \<and> fits x)"

lemmas value_defs = vBool_def vU8_def vU32_def vU64_def vF32_def vStr_def

lemma value_okE [consumes 1, case_names Bool U8 U32 U64 F32 Str]:
  assumes "value_ok v"
  obtains b where "v = vBool b" | x where "v = vU8 x" | x where "v = vU32 x" | x where "v = vU64 x"
    | x where "v = vF32 x" | x where "v = vStr x" "fits x"
  using assms unfolding value_ok_def by blast

lemma v_typ_simps [simp]:
  "v_typ (vBool b) = SlotBool" "v_typ (vU8 x) = SlotU8" "v_typ (vU32 y) = SlotU32" "v_typ (vU64 z) = SlotU64"
  "v_typ (vF32 f) = SlotF32" "v_typ (vStr str') = SlotString" "v_typ noValue = SlotUnspecified"
  by (simp_all add: value_defs noValue_def)

lemma value_ok_typ: "value_ok v \<Longrightarrow> v_typ v \<noteq> SlotUnspecified"
  by (erule value_okE) simp_all

text \<open>The float a value holds: never NaN, and zero only as plus zero.\<close>

definition norm32 :: "32 word \<Rightarrow> 32 word" where
  "norm32 v = (if f32_isNaN v \<or> f32_val v = 0 then 0 else v)"

lemma f32_zero [simp]: "\<not> f32_isNaN 0" "f32_val 0 = 0"
  by (simp_all add: f32_isNaN_def f32_val_def fbits_def fneg_def fmag_def)

lemma norm32_idem [simp]: "norm32 (norm32 v) = norm32 v"
  by (simp add: norm32_def)

lemma norm32_not_NaN [simp]: "\<not> f32_isNaN (norm32 v)"
  by (simp add: norm32_def)

lemma norm32_zero: "f32_val (norm32 v) = 0 \<Longrightarrow> norm32 v = 0"
  by (auto simp: norm32_def split: if_splits)

lemma vF32_norm: "vF32 v = \<lparr>v_typ = SlotF32, v_num = ucast (norm32 v), v_str = []\<rparr>"
  by (simp add: vF32_def norm32_def)

lemma vF32_norm32 [simp]: "vF32 (norm32 v) = vF32 v"
  by (simp add: vF32_norm)

lemma ucast_ucast_64 [simp]:
  "ucast (ucast (x :: 8 word) :: 64 word) = x" "ucast (ucast (y :: 32 word) :: 64 word) = y"
  by (rule bit_word_eqI, simp add: bit_simps)+

lemma ucast_64_inject [simp]:
  "(ucast (x :: 8 word) :: 64 word) = ucast x' \<longleftrightarrow> x = x'" "(ucast (y :: 32 word) :: 64 word) = ucast y' \<longleftrightarrow> y = y'"
  by (metis ucast_ucast_64(1)) (metis ucast_ucast_64(2))

lemma value_Order_simps:
  "value_Order dst (vBool b) = PutBool dst b" "value_Order dst (vU8 x) = PutUint8 dst x"
  "value_Order dst (vU32 y) = PutUint32 dst y" "value_Order dst (vU64 z) = PutUint64 dst z"
  "value_Order dst (vF32 f) = PutFloat32 dst (norm32 f)" "value_Order dst (vStr t) = PutString dst t"
  by (simp_all add: value_Order_def vBool_def vU8_def vU32_def vU64_def vF32_norm vStr_def)

lemma value_Order_append: "value_ok v \<Longrightarrow> value_Order dst v = dst @ OrderBytes v"
  by (erule value_okE)
     (simp_all only: OrderBytes_def value_Order_simps bool_codec.put_append [of dst] uint8_codec.put_append [of dst]
       uint32_codec.put_append [of dst] uint64_codec.put_append [of dst] float32_codec.put_append [of dst]
       string_codec.put_append [of dst])

lemma encodeValue_append: "value_ok v \<Longrightarrow> encodeValue dst v = dst @ encodeValue [] v"
  by (simp add: encodeValue_def value_Order_append [of v dst] value_Order_append [of v "[]"]
      AppendUvarint_uvarint [of dst])

lemma decodeString_encode: "fits x \<Longrightarrow> decodeString (lp x @ rest) op = Inr (vStr x, rest)"
  by (simp add: decodeString_def unat_len64)

lemma decodeValue_encodeValue:
  "value_ok v \<Longrightarrow> decodeValue (v_typ v) (encodeValue [] v @ rest) = Inr (v, rest)"
proof (erule value_okE)
  fix x
  assume "v = vStr x" "fits x"
  then show ?thesis using decodeString_encode [of x rest "''attr.decodeValue''"]
    by (simp add: decodeValue_def encodeValue_def vStr_def)
next
  fix x
  assume "v = vF32 x"
  then show ?thesis
    by (simp add: decodeValue_def encodeValue_def value_Order_simps float32_codec.get_put)
qed (simp_all add: decodeValue_def encodeValue_def value_Order_simps bool_codec.get_put uint8_codec.get_put
      uint32_codec.get_put uint64_codec.get_put)

lemma cmpUint_simps: "cmpUint a b < 0 \<longleftrightarrow> a < b" "cmpUint a b = 0 \<longleftrightarrow> a = b" "0 < cmpUint a b \<longleftrightarrow> b < a"
  by (auto simp: cmpUint_def)

lemma ftotal_norm32: "ftotal (norm32 f) (norm32 g) \<longleftrightarrow> f32_less (norm32 f) (norm32 g)"
proof -
  have "\<not> (fneg (norm32 f) \<and> fbits (norm32 f) = 0)"
  proof
    assume a: "fneg (norm32 f) \<and> fbits (norm32 f) = 0"
    then have "norm32 f = 0" by (intro norm32_zero) (simp add: f32_val_def fmag_def)
    with a show False by (simp add: fneg_def)
  qed
  then show ?thesis by (auto simp: ftotal_f32_val f32_less_def)
qed

lemma norm32_cases: "f32_less (norm32 f) (norm32 g) \<or> f32_less (norm32 g) (norm32 f) \<or> norm32 f = norm32 g"
  using ftotal_total [of "norm32 f" "norm32 g"] ftotal_norm32 [of f g] ftotal_norm32 [of g f] by blast

lemma f32_less_irrefl: "\<not> f32_less a a" "f32_less a b \<Longrightarrow> \<not> f32_less b a"
  by (auto simp: f32_less_def)

lemma unat_ucast_up:
  assumes "LENGTH('a) \<le> LENGTH('b)"
  shows "unat (ucast (w :: 'a::len word) :: 'b::len word) = unat w"
proof -
  have "unat w < 2 ^ LENGTH('a)" by (rule unsigned_less)
  also have "\<dots> \<le> 2 ^ LENGTH('b)" using assms by (simp add: power_increasing)
  finally show ?thesis by (simp add: unsigned_ucast_eq take_bit_nat_eq_self)
qed

lemma ucast_64_less:
  "(ucast (x :: 8 word) :: 64 word) < ucast x' \<longleftrightarrow> x < x'" "(ucast (y :: 32 word) :: 64 word) < ucast y' \<longleftrightarrow> y < y'"
  by (simp_all add: word_less_nat_alt unat_ucast_up)

lemma value_Compare_simps:
  "value_Compare (vBool b) (vBool b') = cmpUint b b'"
  "value_Compare (vU8 x) (vU8 x') = cmpUint x x'"
  "value_Compare (vU32 y) (vU32 y') = cmpUint y y'"
  "value_Compare (vU64 z) (vU64 z') = cmpUint z z'"
  "value_Compare (vStr t) (vStr t') = cmpUint t t'"
  "value_Compare (vF32 f) (vF32 g) =
     (if f32_less (norm32 f) (norm32 g) then - 1 else if f32_less (norm32 g) (norm32 f) then 1 else 0)"
  by (simp_all add: value_Compare_def cmpUint_def vBool_def vU8_def vU32_def vU64_def vStr_def vF32_norm
      ucast_64_less)

lemma value_inject [simp]:
  "vBool b = vBool b' \<longleftrightarrow> b = b'" "vU8 x = vU8 x' \<longleftrightarrow> x = x'" "vU32 y = vU32 y' \<longleftrightarrow> y = y'" "vU64 z = vU64 z' \<longleftrightarrow> z = z'"
  "vStr t = vStr t' \<longleftrightarrow> t = t'" "vF32 f = vF32 g \<longleftrightarrow> norm32 f = norm32 g"
  by (simp_all add: vBool_def vU8_def vU32_def vU64_def vStr_def vF32_norm)

text \<open>Within one slot type the encoded bytes compare as the values do.\<close>

lemma OrderBytes_less_iff:
  assumes "value_ok v" "value_ok w" "v_typ v = v_typ w"
  shows "OrderBytes v @ x < OrderBytes w @ y \<longleftrightarrow> value_Compare v w < 0 \<or> v = w \<and> x < y"
    and "value_Compare v w = 0 \<longleftrightarrow> v = w"
proof -
  have "(OrderBytes v @ x < OrderBytes w @ y \<longleftrightarrow> value_Compare v w < 0 \<or> v = w \<and> x < y) \<and>
      (value_Compare v w = 0 \<longleftrightarrow> v = w)"
    using assms(1)
  proof (cases rule: value_okE)
    case (F32 f)
    obtain g where "w = vF32 g" using assms(2) F32 assms(3) by (cases rule: value_okE) auto
    with F32 show ?thesis using norm32_cases [of f g]
      by (auto simp: OrderBytes_def value_Order_simps value_Compare_simps float32_codec.put_append_less_iff ftotal_norm32
          f32_less_irrefl(1) dest: f32_less_irrefl(2))
  next
    case Bool
    from assms(2) Bool assms(3) show ?thesis
      by (cases rule: value_okE) (auto simp: OrderBytes_def value_Order_simps value_Compare_simps cmpUint_simps
          bool_codec.put_append_less_iff)
  next
    case U8
    from assms(2) U8 assms(3) show ?thesis
      by (cases rule: value_okE) (auto simp: OrderBytes_def value_Order_simps value_Compare_simps cmpUint_simps
          uint8_codec.put_append_less_iff)
  next
    case U32
    from assms(2) U32 assms(3) show ?thesis
      by (cases rule: value_okE) (auto simp: OrderBytes_def value_Order_simps value_Compare_simps cmpUint_simps
          uint32_codec.put_append_less_iff)
  next
    case U64
    from assms(2) U64 assms(3) show ?thesis
      by (cases rule: value_okE) (auto simp: OrderBytes_def value_Order_simps value_Compare_simps cmpUint_simps
          uint64_codec.put_append_less_iff)
  next
    case Str
    from assms(2) Str assms(3) show ?thesis
      by (cases rule: value_okE) (auto simp: OrderBytes_def value_Order_simps value_Compare_simps cmpUint_simps
          string_codec.put_append_less_iff)
  qed
  then show "OrderBytes v @ x < OrderBytes w @ y \<longleftrightarrow> value_Compare v w < 0 \<or> v = w \<and> x < y"
    and "value_Compare v w = 0 \<longleftrightarrow> v = w" by blast+
qed

lemma value_Compare_flip: "value_Compare w v = - value_Compare v w"
  by (cases "v_typ v") (auto simp: value_Compare_def cmpUint_def Let_def dest: f32_less_irrefl(2))

lemma OrderBytes_append_eq_iff:
  assumes "value_ok v" "value_ok w" "v_typ v = v_typ w"
  shows "OrderBytes v @ x = OrderBytes w @ y \<longleftrightarrow> v = w \<and> x = y"
proof
  assume eq: "OrderBytes v @ x = OrderBytes w @ y"
  have "\<not> value_Compare v w < 0" "\<not> value_Compare w v < 0"
    using OrderBytes_less_iff(1) [OF assms, of x y] OrderBytes_less_iff(1) [OF assms(2,1) assms(3) [symmetric], of y x] eq
    by auto
  then have "value_Compare v w = 0" using value_Compare_flip [of w v] by linarith
  then show "v = w \<and> x = y" using OrderBytes_less_iff(2) [OF assms] eq by simp
qed simp

section \<open>A row is a partial map from slots to values\<close>

definition val_at :: "Value list \<Rightarrow> nat \<Rightarrow> Value" where
  "val_at vs i = (if i < length vs then vs ! i else noValue)"

lemma row_Get_val_at:
  "row_Get r slot = (let v = val_at (r_values r) (unat slot) in if v_typ v = SlotUnspecified then None else Some v)"
  by (simp add: row_Get_def val_at_def Let_def)

lemma val_at_pad: "val_at (vs @ replicate k noValue) i = val_at vs i"
  by (auto simp: val_at_def nth_append)

lemma val_at_update: "i < length vs \<Longrightarrow> val_at (vs[i := v]) j = (if j = i then v else val_at vs j)"
  by (simp add: val_at_def)

lemma val_at_row_Set:
  "\<not> (length (r_values r) \<le> unat slot \<and> v_typ v = SlotUnspecified) \<Longrightarrow>
   val_at (r_values (row_Set slot v r)) j = (if j = unat slot then v else val_at (r_values r) j)"
  by (cases "length (r_values r) \<le> unat slot") (simp_all add: row_Set_def Let_def val_at_update val_at_pad)

lemma row_Get_Set:
  "row_Get (row_Set slot v r) slot' =
     (if slot' = slot then (if v_typ v = SlotUnspecified then None else Some v) else row_Get r slot')"
proof (cases "length (r_values r) \<le> unat slot \<and> v_typ v = SlotUnspecified")
  case True
  then have "row_Set slot v r = r" by (simp add: row_Set_def Let_def)
  with True show ?thesis by (simp add: row_Get_def)
next
  case False
  then show ?thesis by (simp add: row_Get_val_at val_at_row_Set Let_def word_unat_eq_iff [of slot' slot])
qed

definition row_ok :: "Row \<Rightarrow> bool" where
  "row_ok r \<longleftrightarrow> length (r_values r) \<le> 2 ^ 16 \<and> r_present r = int (length (row_Slots r))"

lemma row_Slots_iff:
  "row_ok r \<Longrightarrow> i \<in> set (row_Slots r) \<longleftrightarrow> i < 2 ^ 16 \<and> row_Get r (of_nat i) \<noteq> None"
proof -
  assume "row_ok r"
  then have "length (r_values r) \<le> 65536" by (simp add: row_ok_def)
  moreover have "unat (of_nat i :: 16 word) = i" if "i < 65536" using that by (simp add: unat_of_nat take_bit_nat_eq_self unsigned_of_nat)
  ultimately show ?thesis by (auto simp: row_Slots_def row_Get_def)
qed

lemma sorted_row_Slots: "sorted (row_Slots r)" "distinct (row_Slots r)"
  by (simp_all add: row_Slots_def sorted_wrt_filter)

definition n_present :: "Value list \<Rightarrow> nat" where
  "n_present vs = length (filter (\<lambda>v. v_typ v \<noteq> SlotUnspecified) vs)"

lemma length_row_Slots: "length (row_Slots r) = n_present (r_values r)"
proof -
  have "filter (\<lambda>v. v_typ v \<noteq> SlotUnspecified) vs = map ((!) vs) (filter (\<lambda>i. v_typ (vs ! i) \<noteq> SlotUnspecified) [0..<length vs])" for vs
    by (metis (no_types, lifting) comp_def filter_cong filter_map map_nth)
  then show ?thesis unfolding n_present_def row_Slots_def by (metis length_map)
qed

lemma n_present_Cons: "int (n_present (w # ws)) = (if v_typ w \<noteq> SlotUnspecified then 1 else 0) + int (n_present ws)"
  by (simp add: n_present_def)

lemma n_present_update:
  "i < length vs \<Longrightarrow>
   int (n_present (vs[i := v])) = int (n_present vs) + (if v_typ v \<noteq> SlotUnspecified then 1 else 0)
     - (if v_typ (vs ! i) \<noteq> SlotUnspecified then 1 else 0)"
proof (induction vs arbitrary: i)
  case (Cons w ws)
  show ?case
  proof (cases i)
    case (Suc k)
    then show ?thesis using Cons.IH [of k] Cons.prems unfolding Suc list_update.simps nat.case n_present_Cons by simp
  qed (simp add: n_present_Cons)
qed simp

lemma row_ok_New: "row_ok (NewRow ver)"
  by (simp add: row_ok_def NewRow_def length_row_Slots n_present_def)

lemma row_ok_Set: "row_ok r \<Longrightarrow> row_ok (row_Set slot v r)"
proof -
  assume ok: "row_ok r"
  let ?i = "unat slot"
  have i: "?i < 2 ^ 16" using unsigned_less [of slot, where 'a = nat] by simp
  have pad: "n_present (r_values r @ replicate k noValue) = n_present (r_values r)" for k
    by (simp add: n_present_def)
  show ?thesis
    using ok i n_present_update [of ?i "r_values r @ replicate (?i + 1 - length (r_values r)) noValue" v]
      n_present_update [of ?i "r_values r" v]
    by (auto simp: row_ok_def length_row_Slots row_Set_def Let_def pad)
qed

section \<open>The bitmap\<close>

lemma length_set_bitmap [simp]: "length (set_bitmap slots bm) = length bm"
  by (induction slots arbitrary: bm) (simp_all add: set_bitmap_def)

lemma set_bitmap_Cons:
  "set_bitmap (slot # slots) bm = set_bitmap slots (bm[slot div 8 := (bm ! (slot div 8)) OR push_bit (slot mod 8) 1])"
  by (simp add: set_bitmap_def)

lemma bit_set_bitmap:
  "\<forall>slot\<in>set slots. slot div 8 < length bm \<Longrightarrow> i < length bm \<Longrightarrow> j < 8 \<Longrightarrow>
   bit (set_bitmap slots bm ! i) j \<longleftrightarrow> bit (bm ! i) j \<or> 8 * i + j \<in> set slots"
proof (induction slots arbitrary: bm)
  case Nil
  then show ?case by (simp add: set_bitmap_def)
next
  case (Cons slot slots)
  let ?bm = "bm[slot div 8 := (bm ! (slot div 8)) OR push_bit (slot mod 8) 1]"
  have "bit (?bm ! i) j \<longleftrightarrow> bit (bm ! i) j \<or> 8 * i + j = slot"
  proof (cases "i = slot div 8")
    case True
    then have "j = slot mod 8 \<longleftrightarrow> 8 * i + j = slot" using Cons.prems(3) by presburger
    with True Cons.prems show ?thesis by (auto simp: bit_or_iff bit_exp_iff)
  next
    case False
    then have "8 * i + j \<noteq> slot" using Cons.prems(3) by auto
    with False show ?thesis by simp
  qed
  then show ?case using Cons.IH [of ?bm] Cons.prems by (auto simp: set_bitmap_Cons)
qed

lemma bitmap_test:
  assumes "\<forall>slot\<in>set slots. slot div 8 < n" "slot < 8 * n"
  shows "(set_bitmap slots (replicate n 0) ! (slot div 8)) AND push_bit (slot mod 8) 1 = 0 \<longleftrightarrow> slot \<notin> set slots"
proof -
  have "bit (set_bitmap slots (replicate n 0) ! (slot div 8)) (slot mod 8) \<longleftrightarrow> slot \<in> set slots"
    using assms bit_set_bitmap [of slots "replicate n 0" "slot div 8" "slot mod 8"] by (simp add: less_mult_imp_div_less mult.commute)
  then show ?thesis unfolding bit_iff_and_push_bit_not_eq_0 by blast
qed

section \<open>A row survives the schema growing\<close>

definition row_fits :: "Slots \<Rightarrow> Row \<Rightarrow> bool" where
  "row_fits s r \<longleftrightarrow>
     row_ok r \<and>
     (\<forall>slot v. row_Get r slot = Some v \<longrightarrow>
        value_ok v \<and> (\<exists>d. slots_Get s slot = Some d \<and> sd_Type d = v_typ v))"

lemma fold_encodeValue:
  "\<forall>i\<in>set is. value_ok (f i) \<Longrightarrow>
   fold (\<lambda>i out. encodeValue out (f i)) is out = out @ concat (map (\<lambda>i. encodeValue [] (f i)) is)"
proof (induction "is" arbitrary: out)
  case (Cons i "is")
  then show ?case using encodeValue_append [of "f i" out] by simp
qed simp

lemma DecodeRow_loop_ok:
  assumes "\<forall>i\<in>set is. ((bitmap ! (i div 8)) AND push_bit (i mod 8) 1 = 0) \<longleftrightarrow> \<not> P i"
    and "\<forall>i\<in>set is. P i \<longrightarrow> value_ok (f i) \<and> (\<exists>d. slots_Get s (of_nat i) = Some d \<and> sd_Type d = v_typ (f i))"
  shows "DecodeRow_loop s bitmap is (concat (map (\<lambda>i. encodeValue [] (f i)) (filter P is)) @ tail) row =
    Inr (fold (\<lambda>i row. if sd_Retired (the (slots_Get s (of_nat i))) then row else row_Set (of_nat i) (f i) row) (filter P is) row)"
  using assms
proof (induction "is" arbitrary: row)
  case (Cons i "is")
  show ?case
  proof (cases "P i")
    case True
    then obtain d where d: "slots_Get s (of_nat i) = Some d" "sd_Type d = v_typ (f i)" "value_ok (f i)"
      using Cons.prems by auto
    then show ?thesis using True Cons decodeValue_encodeValue [of "f i"] by simp
  next
    case False
    then show ?thesis using Cons by simp
  qed
qed simp

lemma row_Get_fold_Set:
  assumes "\<forall>i\<in>set is. i < 2 ^ 16 \<and> v_typ (f i) \<noteq> SlotUnspecified"
  shows "row_Get (fold (\<lambda>i row. if R (of_nat i :: 16 word) then row else row_Set (of_nat i) (f i) row) is row) slot =
    (if unat slot \<in> set is \<and> \<not> R slot then Some (f (unat slot)) else row_Get row slot)"
  using assms
proof (induction "is" arbitrary: row)
  case (Cons i "is")
  have "slot = of_nat i \<longleftrightarrow> unat slot = i"
    using Cons.prems by (auto simp: unat_of_nat take_bit_nat_eq_self unsigned_of_nat)
  then show ?case using Cons by (auto simp: row_Get_Set)
qed simp

lemma r_SchemaVersion_fold_Set:
  "r_SchemaVersion (fold (\<lambda>i row. if R i then row else row_Set (of_nat i) (f i) row) is row) = r_SchemaVersion row"
  by (induction "is" arbitrary: row) (simp_all add: row_Set_def Let_def)

lemma row_fits_slotD:
  assumes "slots_ok s" "row_fits s r" "i \<in> set (row_Slots r)"
  shows "i \<le> 2039" "value_ok (r_values r ! i)" "i div 8 < BitmapLen s"
    "row_Get r (of_nat i) = Some (r_values r ! i)"
    "\<exists>d. slots_Get s (of_nat i) = Some d \<and> sd_Type d = v_typ (r_values r ! i)"
proof -
  have ok: "row_ok r" using assms(2) by (simp add: row_fits_def)
  then have i: "i < 2 ^ 16" using assms(3) by (simp add: row_Slots_iff)
  then have u: "unat (of_nat i :: 16 word) = i" by (simp add: unat_of_nat take_bit_nat_eq_self unsigned_of_nat)
  show get: "row_Get r (of_nat i) = Some (r_values r ! i)"
    using assms(3) u by (simp add: row_Get_def row_Slots_def)
  then show "value_ok (r_values r ! i)" and d: "\<exists>d. slots_Get s (of_nat i) = Some d \<and> sd_Type d = v_typ (r_values r ! i)"
    using assms(2) by (auto simp: row_fits_def)
  then obtain d where d: "slots_Get s (of_nat i) = Some d" by blast
  then show "i \<le> 2039"
    using slots_Get_ok [OF assms(1) d] u by (simp add: word_le_nat_alt MaxEncodableSlot_def)
  have "sl_defs s \<noteq> []" using d by (auto simp: slots_Get_def)
  moreover have "i \<le> unat (MaxSlot s)" using MaxSlot_upper [OF d] u by (simp add: word_le_nat_alt)
  ultimately show "i div 8 < BitmapLen s" by (simp add: BitmapLen_def div_le_mono le_imp_less_Suc)
qed

lemma BitmapLen_le: "slots_ok s \<Longrightarrow> BitmapLen s \<le> 255"
  using MaxSlot_le [of s] div_le_mono [of "unat (MaxSlot s)" 2039 8]
  by (simp add: BitmapLen_def word_le_nat_alt MaxEncodableSlot_def)

lemma row_Encode_fits:
  assumes "slots_ok s" "row_fits s r"
  shows "row_Encode r s = Inr ([RowFormatVersion] @ be32 (r_SchemaVersion r) @ [of_nat (BitmapLen s)] @
     set_bitmap (row_Slots r) (replicate (BitmapLen s) 0) @ concat (map (\<lambda>i. encodeValue [] (r_values r ! i)) (row_Slots r)))"
proof -
  note D = row_fits_slotD [OF assms]
  have "\<not> BitmapLen s < last (row_Slots r) div 8 + 1" if "row_Slots r \<noteq> []"
    using D(3) [OF last_in_set [OF that]] by simp
  moreover have "last (row_Slots r) \<le> 2039" if "row_Slots r \<noteq> []"
    using D(1) [OF last_in_set [OF that]] .
  ultimately show ?thesis
    using D(2) by (auto simp: row_Encode_def Let_def fold_encodeValue MaxEncodableSlot_def)
qed

lemma filter_row_Slots:
  assumes "slots_ok s" "row_fits s r"
  shows "filter (\<lambda>i. i \<in> set (row_Slots r)) [0..<BitmapLen s * 8] = row_Slots r"
proof (rule sorted_distinct_set_unique)
  show "set (filter (\<lambda>i. i \<in> set (row_Slots r)) [0..<BitmapLen s * 8]) = set (row_Slots r)"
    using row_fits_slotD(3) [OF assms] by (auto simp: div_less_iff_less_mult)
qed (simp_all add: sorted_row_Slots sorted_wrt_filter)

lemma DecodeRow_header:
  assumes "n \<le> 255" "length bitmap = n"
  shows "DecodeRow ([RowFormatVersion] @ be32 ver @ [of_nat n] @ bitmap @ vals) s =
    DecodeRow_loop s bitmap [0..<n * 8] vals
      \<lparr>r_SchemaVersion = ver, r_values = replicate (n * 8) noValue, r_present = 0\<rparr>"
proof -
  have "unat (of_nat n :: byte) = n" using assms by (simp add: unat_of_nat take_bit_nat_eq_self unsigned_of_nat)
  moreover have "([RowFormatVersion] @ be32 ver @ [of_nat n] @ bitmap @ vals) ! 5 = of_nat n"
    "([RowFormatVersion] @ be32 ver @ [of_nat n] @ bitmap @ vals) ! 0 = RowFormatVersion"
    by (simp_all add: nth_append)
  ultimately show ?thesis
    using assms by (simp add: DecodeRow_def Let_def unbe_be del: append_Cons)
qed

lemma row_Get_rebuilt:
  assumes "slots_ok old" "row_fits old r" "extends new old"
  shows "row_Get (fold (\<lambda>i row. if sd_Retired (the (slots_Get new (of_nat i))) then row else row_Set (of_nat i) (r_values r ! i) row)
      (row_Slots r) \<lparr>r_SchemaVersion = ver, r_values = replicate n noValue, r_present = 0\<rparr>) slot =
    (case slots_Get new slot of Some d \<Rightarrow> if sd_Retired d then None else row_Get r slot | None \<Rightarrow> None)"
    (is "row_Get (fold ?F ?sl ?empty) slot = _")
proof -
  note D = row_fits_slotD [OF assms(1,2)]
  have empty: "row_Get ?empty slot = None" by (simp add: row_Get_val_at val_at_def Let_def)
  have row: "row_Get (fold ?F ?sl ?empty) slot =
      (if unat slot \<in> set ?sl \<and> \<not> sd_Retired (the (slots_Get new slot)) then Some (r_values r ! unat slot) else row_Get ?empty slot)"
    by (rule row_Get_fold_Set) (use D(1,2) value_ok_typ in force)
  show ?thesis
  proof (cases "unat slot \<in> set ?sl")
    case True
    then have "row_Get r slot = Some (r_values r ! unat slot)" using D(4) [of "unat slot"] by simp
    moreover have "slots_Get new slot \<noteq> None" using D(5) [OF True] assms(3) unfolding extends_def by force
    ultimately show ?thesis unfolding row using True empty by auto
  next
    case False
    then have "row_Get r slot = None" by (auto simp: row_Get_def row_Slots_def)
    then show ?thesis unfolding row using False empty by (auto split: option.splits)
  qed
qed

lemma DecodeRow_row_Encode:
  assumes "slots_ok old" "slots_ok new" "extends new old" "row_fits old r"
  shows "\<exists>b r'. row_Encode r old = Inr b \<and> DecodeRow b new = Inr r' \<and> r_SchemaVersion r' = r_SchemaVersion r \<and>
     (\<forall>slot. row_Get r' slot =
        (case slots_Get new slot of Some d \<Rightarrow> if sd_Retired d then None else row_Get r slot | None \<Rightarrow> None))"
proof -
  let ?n = "BitmapLen old" and ?sl = "row_Slots r" and ?f = "\<lambda>i. r_values r ! i"
  let ?bm = "set_bitmap ?sl (replicate ?n 0)" and ?vals = "concat (map (\<lambda>i. encodeValue [] (?f i)) ?sl)"
  let ?R = "\<lambda>slot. sd_Retired (the (slots_Get new slot))"
  let ?empty = "\<lparr>r_SchemaVersion = r_SchemaVersion r, r_values = replicate (?n * 8) noValue, r_present = 0\<rparr>"
  let ?row = "fold (\<lambda>i row. if ?R (of_nat i) then row else row_Set (of_nat i) (?f i) row) ?sl ?empty"
  note D = row_fits_slotD [OF assms(1,4)]
  note ext = assms(3)
  have dec: "DecodeRow_loop new ?bm [0..<?n * 8] (concat (map (\<lambda>i. encodeValue [] (?f i)) (filter (\<lambda>i. i \<in> set ?sl) [0..<?n * 8])) @ []) ?empty =
      Inr (fold (\<lambda>i row. if ?R (of_nat i) then row else row_Set (of_nat i) (?f i) row) (filter (\<lambda>i. i \<in> set ?sl) [0..<?n * 8]) ?empty)"
  proof (rule DecodeRow_loop_ok)
    show "\<forall>i\<in>set [0..<?n * 8]. ?bm ! (i div 8) AND push_bit (i mod 8) 1 = 0 \<longleftrightarrow> i \<notin> set ?sl"
      using D(3) bitmap_test [of ?sl ?n] by (simp del: push_bit_of_1)
    show "\<forall>i\<in>set [0..<?n * 8]. i \<in> set ?sl \<longrightarrow>
        value_ok (?f i) \<and> (\<exists>d. slots_Get new (of_nat i) = Some d \<and> sd_Type d = v_typ (?f i))"
      using D(2,5) ext unfolding extends_def by metis
  qed
  have "row_Get ?row slot = (case slots_Get new slot of Some d \<Rightarrow> if sd_Retired d then None else row_Get r slot | None \<Rightarrow> None)" for slot
    by (rule row_Get_rebuilt [OF assms(1,4) ext])
  moreover have "DecodeRow ([RowFormatVersion] @ be32 (r_SchemaVersion r) @ [of_nat ?n] @ ?bm @ ?vals) new = Inr ?row"
    using dec DecodeRow_header [OF BitmapLen_le [OF assms(1)], of ?bm "r_SchemaVersion r" ?vals new]
    unfolding filter_row_Slots [OF assms(1,4)] by simp
  ultimately show ?thesis
    using row_Encode_fits [OF assms(1,4)] by (auto simp: r_SchemaVersion_fold_Set)
qed

text \<open>
  C20: an attribute row written under one slot table is read back under every later table that the
  start-up check admits: encoding succeeds, decoding under the newer table succeeds, and each slot
  holds what was written, except that a slot retired since reads as absent. The bitmap length
  always fits its one header byte, so no row is ever read under the wrong slots.
\<close>

theorem row_survives_schema_growth:
  assumes "slots_ok old" "slots_ok new" "slots_Validate new (Some old) = None" "row_fits old r"
  shows "\<exists>b r'. row_Encode r old = Inr b \<and> DecodeRow b new = Inr r' \<and> r_SchemaVersion r' = r_SchemaVersion r \<and>
     (\<forall>slot. row_Get r' slot =
        (case slots_Get new slot of Some d \<Rightarrow> if sd_Retired d then None else row_Get r slot | None \<Rightarrow> None))"
  using DecodeRow_row_Encode [OF assms(1,2) _ assms(4)] assms(3) by (simp add: slots_Validate_iff [OF assms(1)])

theorem row_survives_schema_growth_witness:
  "\<exists>b r'. row_Encode (row_Set 3 (vU8 7) (NewRow 1))
        \<lparr>sl_version = 1, sl_defs = [(3, \<lparr>sd_Slot = 3, sd_Name = [65], sd_Type = SlotU8, sd_Indexed = True, sd_Retired = False\<rparr>)],
         sl_names = [([65], 3)]\<rparr> = Inr b \<and>
     DecodeRow b \<lparr>sl_version = 2, sl_defs = [(3, \<lparr>sd_Slot = 3, sd_Name = [65], sd_Type = SlotU8, sd_Indexed = True, sd_Retired = False\<rparr>),
            (9, \<lparr>sd_Slot = 9, sd_Name = [66], sd_Type = SlotString, sd_Indexed = True, sd_Retired = False\<rparr>)],
         sl_names = [([65], 3), ([66], 9)]\<rparr> = Inr r' \<and> row_Get r' 3 = Some (vU8 7) \<and> row_Get r' 9 = None"
proof -
  let ?d = "\<lparr>sd_Slot = 3, sd_Name = [65], sd_Type = SlotU8, sd_Indexed = True, sd_Retired = False\<rparr> :: SlotDef"
  let ?e = "\<lparr>sd_Slot = 9, sd_Name = [66], sd_Type = SlotString, sd_Indexed = True, sd_Retired = False\<rparr> :: SlotDef"
  let ?old = "\<lparr>sl_version = 1, sl_defs = [(3, ?d)], sl_names = [([65], 3)]\<rparr> :: Slots"
  let ?new = "\<lparr>sl_version = 2, sl_defs = [(3, ?d), (9, ?e)], sl_names = [([65], 3), ([66], 9)]\<rparr> :: Slots"
  let ?r = "row_Set 3 (vU8 7) (NewRow 1)"
  have ok: "slots_ok ?old" "slots_ok ?new"
    by (auto simp: slots_ok_def MaxEncodableSlot_def split: if_splits)
  have val: "slots_Validate ?new (Some ?old) = None"
    by (simp add: slots_Validate_def slots_Defs_def)
  have new: "row_Get (NewRow 1) slot = None" for slot by (simp add: row_Get_def NewRow_def)
  have fits: "row_fits ?old ?r"
    by (auto simp: row_fits_def row_ok_Set row_ok_New row_Get_Set new slots_Get_def value_ok_def split: if_splits)
  from row_survives_schema_growth [OF ok val fits] obtain b r' where
    b: "row_Encode ?r ?old = Inr b" "DecodeRow b ?new = Inr r'"
    "\<forall>slot. row_Get r' slot =
        (case slots_Get ?new slot of Some d \<Rightarrow> if sd_Retired d then None else row_Get ?r slot | None \<Rightarrow> None)" by blast
  have "row_Get r' 3 = Some (vU8 7)" "row_Get r' 9 = None"
    using b(3) by (simp_all add: slots_Get_def row_Get_Set new)
  with b(1,2) show ?thesis by blast
qed

text \<open>
  C22: an attribute value's order bytes sort as the value compares, whatever bytes follow them in an
  index key, and two values have the same order bytes only when they are the same value: no value
  is a prefix of another, so an index entry's key names its value exactly.
\<close>

theorem value_index_order:
  assumes "value_ok v" "value_ok w" "v_typ v = v_typ w"
  shows "(OrderBytes v @ x < OrderBytes w @ y \<longleftrightarrow> value_Compare v w < 0 \<or> v = w \<and> x < y) \<and>
     (OrderBytes v @ x = OrderBytes w @ y \<longleftrightarrow> v = w \<and> x = y) \<and> (value_Compare v w = 0 \<longleftrightarrow> v = w)"
  using OrderBytes_less_iff(1) [OF assms, of x y] OrderBytes_less_iff(2) [OF assms] OrderBytes_append_eq_iff [OF assms, of x y]
  by simp

theorem value_index_order_witness:
  "OrderBytes (vStr [97]) @ [1] < OrderBytes (vStr [97, 0]) @ [0] \<longleftrightarrow> value_Compare (vStr [97]) (vStr [97, 0]) < 0"
proof -
  have "value_ok (vStr [97])" "value_ok (vStr [97, 0])" "v_typ (vStr [97]) = v_typ (vStr [97, 0])"
    by (auto simp: value_ok_def fits_def)
  from value_index_order [OF this, of "[1]" "[0]"] show ?thesis by (simp add: vStr_def)
qed

section \<open>What decodes is typed\<close>

lemma fits_take_unat: "fits (take (unat n) b)" for n :: "64 word"
  using unsigned_less [of n, where 'a=nat] by (simp add: fits_def)

lemma decodeValue_typed:
  "decodeValue ty b = Inr (v, rest) \<Longrightarrow> value_ok v \<and> v_typ v = ty"
  by (cases ty)
    (auto simp: decodeValue_def decodeString_def value_ok_def Let_def bindR_eq_Inr fits_take_unat
      split: prod.splits if_splits)

definition row_typed :: "Slots \<Rightarrow> Row \<Rightarrow> bool" where
  "row_typed s r \<longleftrightarrow> row_fits s r \<and> (\<forall>slot d. slots_Get s slot = Some d \<and> sd_Retired d \<longrightarrow> row_Get r slot = None)"

lemma row_typed_Set:
  assumes "row_typed s r" "slots_Get s slot = Some d" "v_typ v = sd_Type d" "value_ok v" "\<not> sd_Retired d"
  shows "row_typed s (row_Set slot v r)"
  using assms by (auto simp: row_typed_def row_fits_def row_ok_Set row_Get_Set split: if_splits)

lemma DecodeRow_loop_typed:
  "row_typed s row \<Longrightarrow> DecodeRow_loop s bm is rest row = Inr row' \<Longrightarrow> row_typed s row'"
proof (induction "is" arbitrary: rest row)
  case (Cons slot "is")
  then show ?case
    by (auto split: if_splits option.splits sum.splits dest!: decodeValue_typed intro: Cons.IH Cons.IH [OF row_typed_Set] simp del: push_bit_of_1)
qed simp

lemma DecodeRow_typed:
  assumes "DecodeRow b s = Inr row"
  shows "row_typed s row"
proof -
  let ?n = "unat (b ! 5)"
  let ?empty = "\<lparr>r_SchemaVersion = unbe (take 4 (drop 1 b)), r_values = replicate (?n * 8) noValue, r_present = 0\<rparr>"
  have none: "row_Get ?empty slot = None" for slot by (cases "unat slot < ?n * 8") (simp_all add: row_Get_def)
  have "?n < 256" using unsigned_less [of "b ! 5", where 'a=nat] by simp
  then have "row_ok ?empty" by (auto simp: row_ok_def row_Slots_def filter_empty_conv)
  then have "row_typed s ?empty" using none by (simp add: row_typed_def row_fits_def)
  then show ?thesis
    using assms DecodeRow_loop_typed [of s ?empty] by (auto simp: DecodeRow_def Let_def split: if_splits)
qed

text \<open>
  C21: whatever bytes an attribute row is read from, if the read succeeds then the row is well typed
  under the table it was read with. Every slot it populates is declared, is not retired, and holds
  a canonical value of exactly the declared type (no NaN, no minus zero, no value of another width),
  and the row's count of populated slots is right.
\<close>

theorem decoded_row_is_typed:
  assumes "DecodeRow b s = Inr row"
  shows "row_ok row \<and>
     (\<forall>slot v. row_Get row slot = Some v \<longrightarrow>
        value_ok v \<and> (\<exists>d. slots_Get s slot = Some d \<and> sd_Type d = v_typ v \<and> \<not> sd_Retired d))"
  using DecodeRow_typed [OF assms] by (fastforce simp: row_typed_def row_fits_def)

theorem decoded_row_is_typed_witness:
  "\<exists>row. DecodeRow [1, 0, 0, 0, 1, 1, 8, 7]
        \<lparr>sl_version = 1, sl_defs = [(3, \<lparr>sd_Slot = 3, sd_Name = [65], sd_Type = SlotU8, sd_Indexed = True, sd_Retired = False\<rparr>)],
         sl_names = [([65], 3)]\<rparr> = Inr row \<and> row_Get row 3 = Some (vU8 7) \<and> value_ok (vU8 7)"
proof -
  let ?s = "\<lparr>sl_version = 1, sl_defs = [(3, \<lparr>sd_Slot = 3, sd_Name = [65], sd_Type = SlotU8, sd_Indexed = True, sd_Retired = False\<rparr>)],
         sl_names = [([65], 3)]\<rparr> :: Slots"
  have "map_sum id (\<lambda>row. row_Get row 3) (DecodeRow [1, 0, 0, 0, 1, 1, 8, 7] ?s) = Inr (Some (vU8 7))"
    by code_simp
  then obtain row where row: "DecodeRow [1, 0, 0, 0, 1, 1, 8, 7] ?s = Inr row" "row_Get row 3 = Some (vU8 7)"
    by (cases "DecodeRow [1, 0, 0, 0, 1, 1, 8, 7] ?s") auto
  from decoded_row_is_typed [OF row(1)] row show ?thesis by blast
qed

end
