(* ===== verification/Tenants.thy ===== *)
theory Tenants
  imports Memkv "HOL-Library.AList"
begin

text \<open>
  Who a request is for: the tenant policies of \<^verbatim>\<open>src/internal/tenant\<close> (capability,
  resolver, confinement, directory cache, inventory), the keyring of
  \<^verbatim>\<open>src/internal/auth\<close>, and the durable directory of
  \<^verbatim>\<open>src/internal/tenant/tenantkv\<close> over the engine. A context is the pair of values the
  code stores in it. SHA-256 is the parameter \<open>sha\<close>; the protobuf encoding of a directory
  row is the parameters \<open>enc\<close> and \<open>dec\<close>, with the round trip as a hypothesis where a
  result needs it. Requests whose context is cancelled halfway are not covered. Names printed in messages are left out.
\<close>

section \<open>Capability\<close>

datatype Capability = NoCapability | SingleTenant | IdentityScoped

definition capabilityNames :: "(Capability \<times> string) list" where
  "capabilityNames = [(NoCapability, ''none''), (SingleTenant, ''single-tenant''), (IdentityScoped, ''identity'')]"

definition ParseCapability :: "string \<Rightarrow> Capability res" where
  "ParseCapability name =
     (case find (\<lambda>(c, n). n = name \<and> c \<noteq> NoCapability) capabilityNames of
        Some (c, n) \<Rightarrow> Inr c
      | None \<Rightarrow> fail Invalid ''tenant.ParseCapability'' ''not a tenant capability'')"

section \<open>Claims and contexts\<close>

record Claim =
  cl_Bound :: tenant
  cl_CrossTenant :: bool
  cl_Authorized :: "tenant list"
  cl_Requested :: bytes

definition authorizes :: "Claim \<Rightarrow> tenant \<Rightarrow> bool" where
  "authorizes c t \<longleftrightarrow> (if length (cl_Authorized c) = 0 then True else list_ex (\<lambda>a. a = t) (cl_Authorized c))"

record ctx =
  ctx_claim :: "Claim option"
  ctx_tenant :: "tenant option"

definition WithClaim :: "ctx \<Rightarrow> Claim \<Rightarrow> ctx" where
  "WithClaim x c = x\<lparr>ctx_claim := Some c\<rparr>"

definition noClaim :: Claim where
  "noClaim = \<lparr>cl_Bound = [], cl_CrossTenant = False, cl_Authorized = [], cl_Requested = []\<rparr>"

definition ClaimFrom :: "ctx \<Rightarrow> Claim \<times> bool" where
  "ClaimFrom x = (case ctx_claim x of Some c \<Rightarrow> (c, True) | None \<Rightarrow> (noClaim, False))"

definition tenant_NewContext :: "ctx \<Rightarrow> tenant \<Rightarrow> ctx" where
  "tenant_NewContext x t = x\<lparr>ctx_tenant := Some t\<rparr>"

definition tenant_FromContext :: "ctx \<Rightarrow> tenant \<times> bool" where
  "tenant_FromContext x = (case ctx_tenant x of Some t \<Rightarrow> (t, t \<noteq> []) | None \<Rightarrow> ([], False))"

definition Require :: "ctx \<Rightarrow> tenant res" where
  "Require x =
     (let (t, ok) = tenant_FromContext x in
      if \<not> ok then fail Invalid ''tenant.Require'' ''this context carries no tenant: there is no unscoped read path (Invariant 1)''
      else if \<not> tenant_Valid t then fail Invalid ''tenant.Require'' ''context carries a value that is not a tenant id''
      else Inr t)"

section \<open>The resolver\<close>

record Resolver =
  rs_Capability :: Capability
  rs_Default :: tenant

definition single :: "Resolver \<Rightarrow> Claim \<Rightarrow> string \<Rightarrow> tenant res" where
  "single r c op =
     (if cl_Requested c \<noteq> [] then fail Forbidden op ''this build serves one tenant, so a request may not name one''
      else if rs_Default r = [] then fail Invalid op ''this build serves one tenant and none is configured; set tenant.default''
      else if \<not> tenant_Valid (rs_Default r) then fail Invalid op ''the implicit tenant is not a tenant id''
      else if cl_Bound c \<noteq> [] \<and> cl_Bound c \<noteq> rs_Default r
      then fail Forbidden op ''this credential is bound to another tenant''
      else Inr (rs_Default r))"

definition identity :: "Resolver \<Rightarrow> Claim \<Rightarrow> string \<Rightarrow> tenant res" where
  "identity r c op =
     (if cl_Bound c \<noteq> []
      then if \<not> tenant_Valid (cl_Bound c) then fail Invalid op ''the credential is bound to something that is not a tenant id''
           else Inr (cl_Bound c)
      else if cl_Requested c \<noteq> []
      then if \<not> cl_CrossTenant c then fail Forbidden op ''this credential may not name a tenant''
           else bindR (tenant_Parse (cl_Requested c)) (\<lambda>i.
             if \<not> authorizes c i then fail Forbidden op ''this credential is not authorized for that tenant''
             else Inr i)
      else if 0 < length (cl_Authorized c)
      then fail Invalid op ''this credential is authorized for a set; name one of them with the tenant header''
      else if rs_Default r = []
      then fail Invalid op ''the request named no tenant, the credential is bound to none, and no default tenant is configured''
      else Inr (rs_Default r))"

definition resolver_FromContext :: "Resolver \<Rightarrow> ctx \<Rightarrow> tenant res" where
  "resolver_FromContext r x =
     (let op = ''tenant.Resolver.FromContext''; c = fst (ClaimFrom x) in
      case rs_Capability r of
        SingleTenant \<Rightarrow> single r c op
      | IdentityScoped \<Rightarrow> identity r c op
      | NoCapability \<Rightarrow> fail Invalid op ''this server was composed without a tenant capability'')"

section \<open>Principals and the keyring\<close>

datatype auth_kind = KindConfigured | KindOperator | KindUser

record Principal =
  p_ID :: bytes
  p_Tenant :: tenant
  p_CrossTenant :: bool
  p_Authorized :: "tenant list"
  p_Kind :: auth_kind
  p_User :: id

definition AnonymousPrincipal :: Principal where
  "AnonymousPrincipal =
     \<lparr>p_ID = str ''anonymous'', p_Tenant = [], p_CrossTenant = True, p_Authorized = [], p_Kind = KindConfigured, p_User = 0\<rparr>"

definition principal_Claim :: "Principal \<Rightarrow> bytes \<Rightarrow> Claim" where
  "principal_Claim p requested =
     \<lparr>cl_Bound = p_Tenant p, cl_CrossTenant = p_CrossTenant p, cl_Authorized = p_Authorized p, cl_Requested = requested\<rparr>"

record Credential =
  cr_ID :: bytes
  cr_Secret :: bytes
  cr_Tenant :: tenant
  cr_CrossTenant :: bool
  cr_Kind :: auth_kind
  cr_Authorized :: "tenant list"

record Keyring =
  k_byHash :: "bytes \<rightharpoonup> Principal"
  k_order :: "bytes list"

fun first_unparsable :: "tenant list \<Rightarrow> bool" where
  "first_unparsable [] = False"
| "first_unparsable (a # as) = (case tenant_Parse a of Inl e \<Rightarrow> True | Inr t \<Rightarrow> first_unparsable as)"

text \<open>The checks one credential passes, in the order the loop makes them; \<open>None\<close> is acceptance.\<close>

definition credential_fault :: "Credential \<Rightarrow> error option" where
  "credential_fault c = (let op = ''auth.NewKeyring'' in
     if cr_Secret c = [] then Some (err Invalid op ''no secret'')
     else if cr_Kind c = KindUser then Some (err Invalid op ''configured as a user credential'')
     else if cr_Tenant c \<noteq> [] \<and> (case tenant_Parse (cr_Tenant c) of Inl e \<Rightarrow> True | Inr t \<Rightarrow> False)
     then Some (err Invalid op ''bound to something that is not a tenant id'')
     else if cr_Tenant c \<noteq> [] \<and> cr_CrossTenant c then Some (err Invalid op ''bound and also cross-tenant'')
     else if cr_Tenant c \<noteq> [] \<and> 0 < length (cr_Authorized c) then Some (err Invalid op ''bound and also authorised for a set'')
     else if first_unparsable (cr_Authorized c) then Some (err Invalid op ''authorised for something that is not a tenant id'')
     else if 0 < length (cr_Authorized c) \<and> \<not> cr_CrossTenant c
     then Some (err Invalid op ''authorised for a set but not marked cross-tenant'')
     else None)"

text \<open>The generated name of an unnamed credential is the parameter \<open>numbered\<close>.\<close>

fun keyring_loop ::
    "(bytes \<Rightarrow> bytes) \<Rightarrow> (nat \<Rightarrow> bytes) \<Rightarrow> nat \<Rightarrow> Credential list \<Rightarrow> Keyring \<Rightarrow> Keyring res" where
  "keyring_loop sha numbered i [] k = Inr k"
| "keyring_loop sha numbered i (c # cs) k =
     (case credential_fault c of
        Some e \<Rightarrow> Inl e
      | None \<Rightarrow>
          let h = sha (cr_Secret c) in
          if k_byHash k h \<noteq> None then fail Invalid ''auth.NewKeyring'' ''reuses a secret another credential already uses''
          else let i' = (if cr_ID c = [] then numbered i else cr_ID c);
                   p = \<lparr>p_ID = i', p_Tenant = cr_Tenant c, p_CrossTenant = cr_CrossTenant c,
                        p_Authorized = cr_Authorized c, p_Kind = cr_Kind c, p_User = 0\<rparr>
               in keyring_loop sha numbered (Suc i) cs
                    (k\<lparr>k_byHash := (k_byHash k)(h \<mapsto> p), k_order := k_order k @ [h]\<rparr>))"

definition NewKeyring :: "(bytes \<Rightarrow> bytes) \<Rightarrow> (nat \<Rightarrow> bytes) \<Rightarrow> Credential list \<Rightarrow> Keyring res" where
  "NewKeyring sha numbered creds = keyring_loop sha numbered 0 creds \<lparr>k_byHash = Map.empty, k_order = []\<rparr>"

definition keyring_Anonymous :: "Keyring \<Rightarrow> bool" where
  "keyring_Anonymous k \<longleftrightarrow> length (k_order k) = 0"

definition noPrincipal :: Principal where
  "noPrincipal =
     \<lparr>p_ID = [], p_Tenant = [], p_CrossTenant = False, p_Authorized = [], p_Kind = KindConfigured, p_User = 0\<rparr>"

text \<open>
  Every stored hash is compared, so the last match is the one that counts. A match is
  \<open>Some\<close> of what the map holds, the zero principal for a missing key as in Go.
\<close>

fun verify_loop :: "Keyring \<Rightarrow> bytes \<Rightarrow> bytes list \<Rightarrow> Principal option \<Rightarrow> Principal option" where
  "verify_loop k presented [] found = found"
| "verify_loop k presented (h # hs) found =
     verify_loop k presented hs 
       (if h = presented then Some (case k_byHash k h of Some p \<Rightarrow> p | None \<Rightarrow> noPrincipal) else found)"

definition Verify :: "(bytes \<Rightarrow> bytes) \<Rightarrow> Keyring \<Rightarrow> bytes \<Rightarrow> Principal res" where
  "Verify sha k credential =
     (if keyring_Anonymous k then Inr AnonymousPrincipal
      else case verify_loop k (sha credential) (k_order k) None of
             None \<Rightarrow> fail Unauthorized ''auth.Verify'' ''the presented credential is not one this server issued''
           | Some p \<Rightarrow>
               if credential = [] then fail Unauthorized ''auth.Verify'' ''the presented credential is not one this server issued''
               else Inr p)"

section \<open>Directories\<close>

record Meta =
  m_ID :: tenant
  m_DisplayName :: bytes
  m_SchemaVersion :: "32 word"
  m_CreatedAt :: time
  m_UpdatedAt :: time

definition noMeta :: Meta where
  "noMeta = \<lparr>m_ID = [], m_DisplayName = [], m_SchemaVersion = 0, m_CreatedAt = 0, m_UpdatedAt = 0\<rparr>"

definition DefaultSchemaVersion :: "32 word" where
  "DefaultSchemaVersion = 1"

text \<open>
  The interface as the functions a directory offers over its state. \<^verbatim>\<open>ForEach\<close> hands ids
  to its callback one by one; here it is the list of ids it hands out, with the error that ends it.
\<close>

record 'd Directory =
  d_Create :: "'d \<Rightarrow> tenant \<Rightarrow> Meta \<Rightarrow> 'd \<times> error option"
  d_Get :: "'d \<Rightarrow> tenant \<Rightarrow> Meta res"
  d_List :: "'d \<Rightarrow> Meta list res"
  d_ForEach :: "'d \<Rightarrow> tenant list \<times> error option"

definition Ensure :: "'d Directory \<Rightarrow> 'd \<Rightarrow> tenant \<Rightarrow> 'd \<times> Meta res" where
  "Ensure D d i =
     (case d_Get D d i of
        Inr m \<Rightarrow> (d, Inr m)
      | Inl e \<Rightarrow>
          if \<not> Is (Some e) NotFound then (d, Inl e)
          else case d_Create D d i noMeta of
                 (d', Some e') \<Rightarrow> if \<not> Is (Some e') Conflict then (d', Inl e') else (d', d_Get D d' i)
               | (d', None) \<Rightarrow> (d', d_Get D d' i))"

definition Confine :: "'d Directory \<Rightarrow> tenant \<Rightarrow> 'd Directory" where
  "Confine D only =
     \<lparr>d_Create = (\<lambda>d i m.
        if i \<noteq> only then (d, Some (err Forbidden ''tenant.Directory.Create'' ''this build serves one tenant''))
        else d_Create D d i m),
      d_Get = (\<lambda>d i. if i \<noteq> only then fail NotFound ''tenant.Directory.Get'' ''no such tenant'' else d_Get D d i),
      d_List = (\<lambda>d. bindR (d_List D d) (\<lambda>metas. Inr (filter (\<lambda>m. m_ID m = only) metas))),
      d_ForEach = (\<lambda>d. apfst (filter (\<lambda>i. i = only)) (d_ForEach D d))\<rparr>"

section \<open>The directory cache\<close>

definition CacheTTL :: int where
  "CacheTTL = 30 * 1000 * 1000 * 1000"

definition CacheMaxEntries :: nat where
  "CacheMaxEntries = 4096"

record knownTenant =
  kt_meta :: Meta
  kt_expires :: time

record 'd cached =
  ca_inner :: 'd
  ca_ttl :: int
  ca_known :: "(tenant \<times> knownTenant) list"

definition Cached :: "'d \<Rightarrow> int \<Rightarrow> 'd cached" where
  "Cached d ttl = \<lparr>ca_inner = d, ca_ttl = (if ttl \<le> 0 then CacheTTL else ttl), ca_known = []\<rparr>"

definition cache_lookup :: "'d cached \<Rightarrow> time \<Rightarrow> tenant \<Rightarrow> Meta option" where
  "cache_lookup c now i =
     (case map_of (ca_known c) i of
        None \<Rightarrow> None
      | Some e \<Rightarrow> if \<not> now < kt_expires e then None else Some (kt_meta e))"

definition remember :: "'d cached \<Rightarrow> time \<Rightarrow> tenant \<Rightarrow> Meta \<Rightarrow> 'd cached" where
  "remember c now i m =
     (let known = (if CacheMaxEntries \<le> length (ca_known c) then [] else ca_known c)
      in c\<lparr>ca_known := AList.update i \<lparr>kt_meta = m, kt_expires = now + ca_ttl c\<rparr> known\<rparr>)"

definition forget :: "'d cached \<Rightarrow> tenant \<Rightarrow> 'd cached" where
  "forget c i = c\<lparr>ca_known := AList.delete i (ca_known c)\<rparr>"

definition cached_Get :: "'d Directory \<Rightarrow> time \<Rightarrow> 'd cached \<Rightarrow> tenant \<Rightarrow> 'd cached \<times> Meta res" where
  "cached_Get D now c i =
     (case cache_lookup c now i of
        Some m \<Rightarrow> (c, Inr m)
      | None \<Rightarrow>
          (case d_Get D (ca_inner c) i of
             Inl e \<Rightarrow> (c, Inl e)
           | Inr m \<Rightarrow> (remember c now i m, Inr m)))"

definition cached_Create :: "'d Directory \<Rightarrow> 'd cached \<Rightarrow> tenant \<Rightarrow> Meta \<Rightarrow> 'd cached \<times> error option" where
  "cached_Create D c i m =
     (case d_Create D (ca_inner c) i m of (d', e) \<Rightarrow> (forget (c\<lparr>ca_inner := d'\<rparr>) i, e))"

section \<open>The start-up inventory\<close>

record Inventory =
  inv_Implicit :: tenant
  inv_HasImplicit :: bool
  inv_Others :: "tenant list"

fun inventory_loop :: "Meta list \<Rightarrow> Inventory \<Rightarrow> Inventory" where
  "inventory_loop [] iv = iv"
| "inventory_loop (m # ms) iv =
     inventory_loop ms
       (if m_ID m = inv_Implicit iv then iv\<lparr>inv_HasImplicit := True\<rparr>
        else iv\<lparr>inv_Others := inv_Others iv @ [m_ID m]\<rparr>)"

definition TakeInventory :: "'d Directory \<Rightarrow> 'd \<Rightarrow> tenant \<Rightarrow> Inventory res" where
  "TakeInventory D d implicit =
     (case tenant_Parse implicit of
        Inl e \<Rightarrow> Inl (Error Invalid ''tenant.TakeInventory'' (Wrapped ''the implicit tenant is not a tenant id'' e))
      | Inr t \<Rightarrow>
          bindR (d_List D d) (\<lambda>metas.
            Inr (inventory_loop metas \<lparr>inv_Implicit = implicit, inv_HasImplicit = False, inv_Others = []\<rparr>)))"

definition inventory_SingleTenant :: "Inventory \<Rightarrow> bool" where
  "inventory_SingleTenant iv \<longleftrightarrow> length (inv_Others iv) = 0"

definition inventory_MigrationRequired :: "Inventory \<Rightarrow> error option" where
  "inventory_MigrationRequired iv =
     (if inventory_SingleTenant iv then None
      else Some (err MigrationRequired ''tenant.Inventory'' ''this data directory holds tenants beyond the implicit tenant''))"

section \<open>The durable directory\<close>

text \<open>The fields of the \<^verbatim>\<open>pb.Tenant\<close> message.\<close>

record pb_Tenant =
  row_SchemaVersion :: "32 word"
  row_DisplayName :: "bytes option"
  row_CreatedAtUnixMs :: "64 word"
  row_UpdatedAtUnixMs :: "64 word"

definition tenants_prefix :: bytes where
  "tenants_prefix = str ''/tenants/''"

definition dir_Key :: "tenant \<Rightarrow> bytes" where
  "dir_Key i = System (tenants_prefix @ i)"

definition marshal_row :: "Meta \<Rightarrow> pb_Tenant" where
  "marshal_row m =
     \<lparr>row_SchemaVersion = m_SchemaVersion m,
      row_DisplayName = (if m_DisplayName m \<noteq> [] then Some (m_DisplayName m) else None),
      row_CreatedAtUnixMs = of_int (UnixMilli (m_CreatedAt m)),
      row_UpdatedAtUnixMs = of_int (UnixMilli (m_UpdatedAt m))\<rparr>"

definition dir_unixMilli :: "64 word \<Rightarrow> time" where
  "dir_unixMilli ms = (if ms = 0 then 0 else of_UnixMilli (sint ms))"

definition dir_unmarshal :: "(bytes \<Rightarrow> pb_Tenant option) \<Rightarrow> tenant \<Rightarrow> bytes \<Rightarrow> string \<Rightarrow> Meta res" where
  "dir_unmarshal dec i b op =
     (case dec b of
        None \<Rightarrow> fail Corruption op ''the directory row will not parse''
      | Some row \<Rightarrow>
          if row_SchemaVersion row = 0 then fail Corruption op ''the directory row carries no schema version''
          else Inr \<lparr>m_ID = i, m_DisplayName = (case row_DisplayName row of None \<Rightarrow> [] | Some n \<Rightarrow> n),
                    m_SchemaVersion = row_SchemaVersion row,
                    m_CreatedAt = dir_unixMilli (row_CreatedAtUnixMs row),
                    m_UpdatedAt = dir_unixMilli (row_UpdatedAtUnixMs row)\<rparr>)"

definition dir_Get :: "(bytes \<Rightarrow> pb_Tenant option) \<Rightarrow> Store \<Rightarrow> tenant \<Rightarrow> Meta res" where
  "dir_Get dec s i = (let op = ''tenant.Directory.Get'' in
     case store_Get s (dir_Key i) of
       Inl e \<Rightarrow> if Is (Some e) NotFound then fail NotFound op ''no such tenant'' else Inl e
     | Inr b \<Rightarrow> dir_unmarshal dec i b op)"

definition dir_stamp :: "time \<Rightarrow> tenant \<Rightarrow> Meta \<Rightarrow> Meta" where
  "dir_stamp now i m =
     \<lparr>m_ID = i, m_DisplayName = m_DisplayName m,
      m_SchemaVersion = (if m_SchemaVersion m = 0 then DefaultSchemaVersion else m_SchemaVersion m),
      m_CreatedAt = (if m_CreatedAt m = 0 then now else m_CreatedAt m),
      m_UpdatedAt = now\<rparr>"

text \<open>
  \<^verbatim>\<open>Create\<close> reads the row and writes it in two separate calls on the store. The argument
  \<open>others\<close> is what other writers do to the store in between; a marshal error is
  \<open>enc\<close> returning None.
\<close>

definition dir_Create ::
    "(pb_Tenant \<Rightarrow> bytes option) \<Rightarrow> (bytes \<Rightarrow> pb_Tenant option) \<Rightarrow> (Store \<Rightarrow> Store) \<Rightarrow> time \<Rightarrow>
     Store \<Rightarrow> tenant \<Rightarrow> Meta \<Rightarrow> Store \<times> error option" where
  "dir_Create enc dec others now s i m = (let op = ''tenant.Directory.Create'' in
     case tenant_Parse i of
       Inl e \<Rightarrow> (s, Some e)
     | Inr _ \<Rightarrow>
         (case dir_Get dec s i of
            Inr _ \<Rightarrow> (others s, Some (err Conflict op ''tenant already exists''))
          | Inl e \<Rightarrow>
              if \<not> Is (Some e) NotFound then (others s, Some e)
              else case enc (marshal_row (dir_stamp now i m)) of
                     None \<Rightarrow> (others s, Some (err Invalid op ''encoding the tenant row''))
                   | Some b \<Rightarrow> store_Set (others s) (dir_Key i) b))"

definition idFromKey :: "bytes \<Rightarrow> string \<Rightarrow> tenant res" where
  "idFromKey k op =
     (let want = System tenants_prefix in
      if length k \<le> length want \<or> take (length want) k \<noteq> want
      then fail Corruption op ''a key in the tenant directory range is not a directory key''
      else Inr (drop (length want) k))"

text \<open>The walk collects the rows it handed on; \<open>None\<close> is a walk that reached the end.\<close>

fun dir_each_loop ::
    "(bytes \<Rightarrow> pb_Tenant option) \<Rightarrow> string \<Rightarrow> (bytes \<times> bytes) list \<Rightarrow> Meta list \<Rightarrow> Meta list \<times> error option" where
  "dir_each_loop dec op [] out = (out, None)"
| "dir_each_loop dec op ((k, v) # es) out =
     (case idFromKey k op of
        Inl e \<Rightarrow> (out, Some e)
      | Inr i \<Rightarrow>
          (case dir_unmarshal dec i v op of
             Inl e \<Rightarrow> (out, Some e)
           | Inr m \<Rightarrow> dir_each_loop dec op es (out @ [m])))"

definition dir_each :: "(bytes \<Rightarrow> pb_Tenant option) \<Rightarrow> string \<Rightarrow> Store \<Rightarrow> Meta list \<times> error option" where
  "dir_each dec op s =
     (let (lower, upper) = PrefixRange (System tenants_prefix) in
      case itr_entries (store_NewIterator s (Some lower) upper) of
        Inl e \<Rightarrow> ([], Some e)
      | Inr es \<Rightarrow> dir_each_loop dec op es [])"

definition dir_List :: "(bytes \<Rightarrow> pb_Tenant option) \<Rightarrow> Store \<Rightarrow> Meta list \<times> error option" where
  "dir_List dec s = dir_each dec ''tenant.Directory.List'' s"

section \<open>Resolution respects the credential\<close>

lemma tenant_Parse_iff: "tenant_Parse x = Inr t \<longleftrightarrow> t = x \<and> tenant_Valid x"
  by (auto simp: tenant_Parse_def tenant_Valid_def split: option.splits)

lemma authorizes_iff: "authorizes c t \<longleftrightarrow> cl_Authorized c = [] \<or> t \<in> set (cl_Authorized c)"
  by (auto simp: authorizes_def list_ex_iff)

lemma identity_iff:
  "identity r c op = Inr t \<longleftrightarrow>
     (if cl_Bound c \<noteq> [] then t = cl_Bound c \<and> tenant_Valid t
      else if cl_Requested c \<noteq> []
      then t = cl_Requested c \<and> tenant_Valid t \<and> cl_CrossTenant c \<and> (cl_Authorized c = [] \<or> t \<in> set (cl_Authorized c))
      else t = rs_Default r \<and> t \<noteq> [] \<and> cl_Authorized c = [])"
  by (auto simp: identity_def bindR_eq_Inr tenant_Parse_iff authorizes_iff)

lemma single_iff:
  "single r c op = Inr t \<longleftrightarrow>
     t = rs_Default r \<and> t \<noteq> [] \<and> tenant_Valid t \<and> cl_Requested c = [] \<and> (cl_Bound c = [] \<or> cl_Bound c = t)"
  by (auto simp: single_def)

lemma first_unparsable_iff: "first_unparsable ts \<longleftrightarrow> (\<exists>t\<in>set ts. \<not> tenant_Valid t)"
proof (induction ts)
  case (Cons t ts)
  then show ?case by (cases "tenant_Parse t") (auto simp: tenant_Parse_def tenant_Valid_def split: option.splits)
qed simp

text \<open>The principal a credential stands for.\<close>

definition stands_for :: "Credential \<Rightarrow> Principal \<Rightarrow> bool" where
  "stands_for c p \<longleftrightarrow>
     p_Tenant p = cr_Tenant c \<and> p_CrossTenant p = cr_CrossTenant c \<and> p_Authorized p = cr_Authorized c \<and>
     p_Kind p = cr_Kind c \<and> credential_fault c = None"

definition keyring_ok :: "(bytes \<Rightarrow> bytes) \<Rightarrow> Credential list \<Rightarrow> Keyring \<Rightarrow> bool" where
  "keyring_ok sha cs k \<longleftrightarrow>
     length (k_order k) = length cs \<and>
     (\<forall>h. h \<in> set (k_order k) \<longrightarrow> (\<exists>p. k_byHash k h = Some p \<and> (\<exists>c\<in>set cs. sha (cr_Secret c) = h \<and> stands_for c p)))"

lemma keyring_loop_ok:
  "keyring_loop sha numbered i cs k = Inr k' \<Longrightarrow> keyring_ok sha cs0 k \<Longrightarrow> keyring_ok sha (cs0 @ cs) k'"
proof (induction cs arbitrary: cs0 i k)
  case Nil
  then show ?case by simp
next
  case (Cons c cs)
  let ?h = "sha (cr_Secret c)"
  from Cons.prems(1) have f: "credential_fault c = None" and d: "k_byHash k ?h = None"
    by (auto simp: Let_def split: option.splits if_splits)
  define p where "p = \<lparr>p_ID = (if cr_ID c = [] then numbered i else cr_ID c), p_Tenant = cr_Tenant c,
    p_CrossTenant = cr_CrossTenant c, p_Authorized = cr_Authorized c, p_Kind = cr_Kind c, p_User = 0\<rparr>"
  let ?k = "k\<lparr>k_byHash := (k_byHash k)(?h \<mapsto> p), k_order := k_order k @ [?h]\<rparr>"
  have "stands_for c p" using f by (simp add: stands_for_def p_def)
  then have "keyring_ok sha (cs0 @ [c]) ?k"
    using Cons.prems(2) by (auto simp: keyring_ok_def)
  moreover have "keyring_loop sha numbered (Suc i) cs ?k = Inr k'"
    using Cons.prems(1) f d by (simp add: p_def Let_def)
  ultimately show ?case using Cons.IH [of "Suc i" ?k "cs0 @ [c]"] by simp
qed

lemma verify_loop_sound:
  "verify_loop k h hs found = Some p \<Longrightarrow>
   found = Some p \<or> (h \<in> set hs \<and> p = (case k_byHash k h of Some q \<Rightarrow> q | None \<Rightarrow> noPrincipal))"
proof (induction hs arbitrary: found)
  case (Cons g hs)
  then show ?case by (cases "g = h") fastforce+
qed simp

lemma verify_loop_complete: "verify_loop k h hs found = None \<longleftrightarrow> found = None \<and> h \<notin> set hs"
  by (induction hs arbitrary: found) auto

lemma NewKeyring_ok: "NewKeyring sha numbered creds = Inr k \<Longrightarrow> keyring_ok sha creds k"
  using keyring_loop_ok [of sha numbered 0 creds _ k "[]"] by (simp add: NewKeyring_def keyring_ok_def)

lemma Verify_sound:
  assumes "NewKeyring sha numbered creds = Inr k" "Verify sha k secret = Inr p"
  shows "(creds = [] \<and> p = AnonymousPrincipal) \<or>
    (secret \<noteq> [] \<and> (\<exists>c\<in>set creds. sha (cr_Secret c) = sha secret \<and> stands_for c p))"
proof -
  have ok: "keyring_ok sha creds k" by (rule NewKeyring_ok [OF assms(1)])
  show ?thesis
  proof (cases "keyring_Anonymous k")
    case True
    then show ?thesis using ok assms(2) by (simp add: Verify_def keyring_Anonymous_def keyring_ok_def)
  next
    case False
    then have v: "verify_loop k (sha secret) (k_order k) None = Some p" "secret \<noteq> []"
      using assms(2) by (auto simp: Verify_def split: option.splits if_splits)
    then show ?thesis using verify_loop_sound [OF v(1)] ok by (force simp: keyring_ok_def)
  qed
qed

text \<open>
  C15: From the presented secret to the tenant: whatever tenant a request header names, a request
  whose secret this keyring verified is resolved, under the identity policy, to the tenant its
  credential is bound to, or to one of the tenants the credential lists, or, for an unbound and
  unrestricted credential, to a tenant it was allowed to name or the default.
\<close>

theorem credential_confines_request:
  assumes "NewKeyring sha numbered creds = Inr k" "creds \<noteq> []"
    and "Verify sha k secret = Inr p"
    and "rs_Capability r = IdentityScoped"
    and "resolver_FromContext r (WithClaim x (principal_Claim p requested)) = Inr t"
  shows "\<exists>c\<in>set creds. sha (cr_Secret c) = sha secret \<and>
    (if cr_Tenant c \<noteq> [] then t = cr_Tenant c
     else if cr_Authorized c \<noteq> [] then t \<in> set (cr_Authorized c) \<and> t = requested
     else if requested \<noteq> [] then cr_CrossTenant c \<and> t = requested
     else t = rs_Default r)"
proof -
  obtain c where c: "c \<in> set creds" "sha (cr_Secret c) = sha secret" "stands_for c p"
    using Verify_sound [OF assms(1,3)] assms(2) by blast
  have "identity r (principal_Claim p requested) ''tenant.Resolver.FromContext'' = Inr t"
    using assms(4,5) by (simp add: resolver_FromContext_def WithClaim_def ClaimFrom_def)
  then have "if cr_Tenant c \<noteq> [] then t = cr_Tenant c
     else if cr_Authorized c \<noteq> [] then t \<in> set (cr_Authorized c) \<and> t = requested
     else if requested \<noteq> [] then cr_CrossTenant c \<and> t = requested else t = rs_Default r"
    using c(3) by (auto simp: identity_iff principal_Claim_def stands_for_def split: if_splits)
  with c show ?thesis by blast
qed

theorem credential_confines_request_witness:
  "\<exists>k p. NewKeyring (\<lambda>b. b) (\<lambda>_. []) [\<lparr>cr_ID = [], cr_Secret = [1], cr_Tenant = str ''acme'', cr_CrossTenant = False, cr_Kind = KindConfigured, cr_Authorized = []\<rparr>] = Inr k \<and>
     Verify (\<lambda>b. b) k [1] = Inr p \<and>
     resolver_FromContext \<lparr>rs_Capability = IdentityScoped, rs_Default = str ''d''\<rparr>
       (WithClaim \<lparr>ctx_claim = None, ctx_tenant = None\<rparr> (principal_Claim p (str ''other''))) = Inr (str ''acme'')"
proof -
  let ?c = "\<lparr>cr_ID = [], cr_Secret = [1], cr_Tenant = str ''acme'', cr_CrossTenant = False, cr_Kind = KindConfigured, cr_Authorized = []\<rparr>"
  let ?r = "\<lparr>rs_Capability = IdentityScoped, rs_Default = str ''d''\<rparr>"
  let ?x = "\<lparr>ctx_claim = None, ctx_tenant = None\<rparr>"
  have v: "tenant_Parse (str ''acme'') = Inr (str ''acme'')" "tenant_Valid (str ''acme'')" "str ''acme'' \<noteq> []"
    by code_simp+
  then obtain k p where k: "NewKeyring (\<lambda>b. b) (\<lambda>_. []) [?c] = Inr k" "Verify (\<lambda>b. b) k [1] = Inr p" "p_Tenant p = str ''acme''"
    by (simp add: NewKeyring_def credential_fault_def Let_def Verify_def keyring_Anonymous_def)
  then obtain t where t: "resolver_FromContext ?r (WithClaim ?x (principal_Claim p (str ''other''))) = Inr t"
    using v by (simp add: resolver_FromContext_def WithClaim_def ClaimFrom_def identity_def principal_Claim_def)
  have "t = str ''acme''"
    using credential_confines_request [OF k(1) _ k(2) _ t] v by (simp split: if_splits)
  with k t show ?thesis by blast
qed

text \<open>
  Under the single-tenant policy every request that is served is served the configured tenant:
  a request that names any tenant is refused as Forbidden, and so is a credential bound elsewhere.
\<close>

lemma single_tenant_serves_one:
  assumes "rs_Capability r = SingleTenant"
  shows "(\<forall>t. resolver_FromContext r x = Inr t \<longrightarrow>
            t = rs_Default r \<and> tenant_Valid t \<and> cl_Requested (fst (ClaimFrom x)) = [] \<and>
            cl_Bound (fst (ClaimFrom x)) \<in> {[], t}) \<and>
         (cl_Requested (fst (ClaimFrom x)) \<noteq> [] \<longrightarrow>
            (\<exists>e. resolver_FromContext r x = Inl e \<and> is_kind e Forbidden))"
  using assms
  by (auto simp: resolver_FromContext_def single_iff) (simp add: single_def)

section \<open>Confinement and caching\<close>

text \<open>
  A confined directory shows, creates and visits its one tenant only; for that tenant it
  behaves as the directory beneath it.
\<close>

lemma confined_to_one_tenant:
  assumes "i \<noteq> only"
  shows "(\<exists>e. d_Get (Confine D only) d i = Inl e \<and> is_kind e NotFound) \<and>
         (\<exists>e. d_Create (Confine D only) d i m = (d, Some e) \<and> is_kind e Forbidden) \<and>
         (case d_List (Confine D only) d of Inl e \<Rightarrow> d_List D d = Inl e | Inr ms \<Rightarrow> \<forall>m\<in>set ms. m_ID m = only) \<and>
         set (fst (d_ForEach (Confine D only) d)) \<subseteq> {only} \<and>
         d_Get (Confine D only) d only = d_Get D d only"
  using assms by (cases "d_List D d") (auto simp: Confine_def)

text \<open>What the cache believes agrees with the directory, and the cache is bounded.\<close>

definition cache_ok :: "'d Directory \<Rightarrow> 'd cached \<Rightarrow> bool" where
  "cache_ok D c \<longleftrightarrow>
     distinct (map fst (ca_known c)) \<and> length (ca_known c) \<le> CacheMaxEntries \<and>
     (\<forall>i e. map_of (ca_known c) i = Some e \<longrightarrow> d_Get D (ca_inner c) i = Inr (kt_meta e))"

lemma length_update_le: "length (AList.update k v xs) \<le> Suc (length xs)"
  by (induction xs) auto

lemma cache_ok_Cached: "cache_ok D (Cached d ttl)"
  by (simp add: cache_ok_def Cached_def)

lemma cache_ok_Get:
  assumes "cache_ok D c"
  shows "cache_ok D (fst (cached_Get D now c i)) \<and> ca_inner (fst (cached_Get D now c i)) = ca_inner c \<and>
    snd (cached_Get D now c i) = d_Get D (ca_inner c) i"
proof (cases "cache_lookup c now i")
  case (Some m)
  then show ?thesis using assms
    by (auto simp: cached_Get_def cache_lookup_def cache_ok_def split: option.splits if_splits)
next
  case None
  show ?thesis
  proof (cases "d_Get D (ca_inner c) i")
    case (Inr m)
    let ?kn = "if CacheMaxEntries \<le> length (ca_known c) then [] else ca_known c"
    have "length (AList.update i e ?kn) \<le> CacheMaxEntries" for e
      using assms length_update_le [of i e ?kn] by (auto simp: CacheMaxEntries_def)
    moreover have "distinct (map fst (AList.update i e ?kn))" for e
      using assms by (simp add: cache_ok_def distinct_update)
    ultimately show ?thesis using assms None Inr
      by (auto simp: cached_Get_def remember_def Let_def cache_ok_def update_conv')
  qed (use assms None in \<open>simp add: cached_Get_def\<close>)
qed

lemma cache_ok_Create:
  assumes "cache_ok D c" "\<And>j. j \<noteq> i \<Longrightarrow> d_Get D (fst (d_Create D (ca_inner c) i m)) j = d_Get D (ca_inner c) j"
  shows "cache_ok D (fst (cached_Create D c i m))"
proof -
  let ?c = "fst (cached_Create D c i m)" and ?d = "fst (d_Create D (ca_inner c) i m)"
  have c: "ca_known ?c = AList.delete i (ca_known c)" "ca_inner ?c = ?d"
    by (simp_all add: cached_Create_def forget_def split: prod.split)
  have "length (ca_known ?c) \<le> CacheMaxEntries"
    using assms(1) length_delete_le [of i "ca_known c"] unfolding cache_ok_def c by linarith
  moreover have "d_Get D (ca_inner ?c) j = Inr (kt_meta e)" if "map_of (ca_known ?c) j = Some e" for j e
    using that assms(1) assms(2) [of j] unfolding c by (simp add: cache_ok_def delete_conv' split: if_splits)
  ultimately show ?thesis using assms(1) by (simp add: cache_ok_def c distinct_delete)
qed



section \<open>The durable directory\<close>

lemma dir_Key_inject [simp]: "dir_Key i = dir_Key j \<longleftrightarrow> i = j"
  by (simp add: dir_Key_def System_def)

lemma tenant_Valid_Parse: "tenant_Valid i \<Longrightarrow> tenant_Parse i = Inr i"
  by (simp add: tenant_Parse_iff)

lemma idFromKey_iff: "idFromKey k op = Inr i \<longleftrightarrow> i \<noteq> [] \<and> k = dir_Key i"
proof -
  have d: "dir_Key i = System tenants_prefix @ i" by (simp add: dir_Key_def System_def)
  show ?thesis unfolding d
    by (auto simp: idFromKey_def Let_def) (metis append_take_drop_id)
qed

lemma dir_Get_frame: "s_closed s' = s_closed s \<Longrightarrow> s_data s' (dir_Key j) = s_data s (dir_Key j) \<Longrightarrow> dir_Get dec s' j = dir_Get dec s j"
  by (simp add: dir_Get_def store_Get_def lookup_def)

text \<open>The instant a stored row gives back: whole milliseconds, the epoch itself read as no time.\<close>

definition stored_time :: "time \<Rightarrow> time" where
  "stored_time t = dir_unixMilli (of_int (UnixMilli t))"

lemma dir_Create_ok:
  assumes "dir_Create enc dec others now s i m = (s', None)"
  obtains b where "tenant_Valid i" "enc (marshal_row (dir_stamp now i m)) = Some b"
    "\<not> s_closed (others s)" "s' = store_set (others s) (dir_Key i) b"
  using assms
  by (auto simp: dir_Create_def Let_def tenant_Parse_iff store_Set_def split: sum.splits option.splits if_splits)

text \<open>
  Creating a tenant without interference. A tenant that exists is refused as Conflict and the
  store is left as it is; a creation that succeeds is read back with its defaults filled in and its
  times cut to milliseconds, and no other tenant's row changes.
\<close>

lemma directory_create_then_get:
  assumes "\<And>r b. enc r = Some b \<Longrightarrow> dec b = Some r"
  shows "(\<forall>m0. dir_Get dec s i = Inr m0 \<longrightarrow> tenant_Valid i \<longrightarrow>
            (\<exists>e. dir_Create enc dec (\<lambda>s. s) now s i m = (s, Some e) \<and> is_kind e Conflict)) \<and>
         (\<forall>s'. dir_Create enc dec (\<lambda>s. s) now s i m = (s', None) \<longrightarrow>
            (let n = dir_stamp now i m in
             dir_Get dec s' i = Inr (n\<lparr>m_CreatedAt := stored_time (m_CreatedAt n), m_UpdatedAt := stored_time (m_UpdatedAt n)\<rparr>)) \<and>
            (\<forall>j. j \<noteq> i \<longrightarrow> dir_Get dec s' j = dir_Get dec s j))"
proof (intro conjI allI impI)
  fix m0
  assume "dir_Get dec s i = Inr m0" "tenant_Valid i"
  then show "\<exists>e. dir_Create enc dec (\<lambda>s. s) now s i m = (s, Some e) \<and> is_kind e Conflict"
    by (simp add: dir_Create_def tenant_Valid_Parse)
next
  fix s'
  assume "dir_Create enc dec (\<lambda>s. s) now s i m = (s', None)"
  then obtain b where b: "enc (marshal_row (dir_stamp now i m)) = Some b" "\<not> s_closed s"
      "s' = store_set s (dir_Key i) b"
    by (rule dir_Create_ok)
  have v: "m_SchemaVersion (dir_stamp now i m) \<noteq> 0" by (simp add: dir_stamp_def DefaultSchemaVersion_def)
  show "let n = dir_stamp now i m in
      dir_Get dec s' i = Inr (n\<lparr>m_CreatedAt := stored_time (m_CreatedAt n), m_UpdatedAt := stored_time (m_UpdatedAt n)\<rparr>)"
    using b assms [OF b(1)] v
    by (simp add: dir_Get_def store_Get_def lookup_def dir_unmarshal_def marshal_row_def stored_time_def dir_stamp_def)
  fix j
  assume "j \<noteq> i"
  with b show "dir_Get dec s' j = dir_Get dec s j" by (intro dir_Get_frame) simp_all
qed

text \<open>
  C18: The read and the write of a creation are two calls on the store. When another creation of the
  same tenant falls between them, both report success and the later write replaces the row the
  earlier one stored.
\<close>

theorem directory_create_races:
  assumes "tenant_Valid i"
  shows "let enc = (\<lambda>r. Some (code r)); first = dir_Create enc dec (\<lambda>s. s) now1 New i m1;
             second = dir_Create enc dec (\<lambda>s. fst first) now2 New i m2
         in snd first = None \<and> s_data (fst first) (dir_Key i) = Some (code (marshal_row (dir_stamp now1 i m1))) \<and>
            snd second = None \<and> s_data (fst second) (dir_Key i) = Some (code (marshal_row (dir_stamp now2 i m2)))"
  using assms
  by (simp add: dir_Create_def tenant_Valid_Parse dir_Get_def store_Get_def lookup_def fail_def err_def Is_def
      store_Set_def Let_def)

theorem directory_create_races_witness:
  "snd (dir_Create (\<lambda>r. Some [1]) (\<lambda>b. None)
      (\<lambda>s. fst (dir_Create (\<lambda>r. Some [1]) (\<lambda>b. None) (\<lambda>s. s) 5 New (str ''a'') noMeta)) 6 New (str ''a'') noMeta) = None"
proof -
  have "tenant_Valid (str ''a'')" by code_simp
  from directory_create_races [OF this, of "\<lambda>r. [1]" "\<lambda>b. None" 5 noMeta 6 noMeta] show ?thesis
    by (simp add: Let_def)
qed

lemma list_all2_mem1: "list_all2 P xs ys \<Longrightarrow> x \<in> set xs \<Longrightarrow> \<exists>y\<in>set ys. P x y"
  by (induction rule: list_all2_induct) auto

lemma list_all2_mem2: "list_all2 P xs ys \<Longrightarrow> y \<in> set ys \<Longrightarrow> \<exists>x\<in>set xs. P x y"
  by (induction rule: list_all2_induct) auto

lemma dir_each_loop_Some:
  "dir_each_loop dec op es out = (ms, None) \<Longrightarrow>
   \<exists>ns. ms = out @ ns \<and> list_all2 (\<lambda>(k, v) m. m_ID m \<noteq> [] \<and> k = dir_Key (m_ID m) \<and> dir_unmarshal dec (m_ID m) v op = Inr m) es ns"
proof (induction dec op es out rule: dir_each_loop.induct)
  case (2 dec op k v es out)
  then obtain i m where i: "idFromKey k op = Inr i" "dir_unmarshal dec i v op = Inr m"
    by (auto split: sum.splits)
  with 2 obtain ns where "ms = (out @ [m]) @ ns"
      "list_all2 (\<lambda>(k, v) m. m_ID m \<noteq> [] \<and> k = dir_Key (m_ID m) \<and> dir_unmarshal dec (m_ID m) v op = Inr m) es ns"
    by fastforce
  moreover have "m_ID m = i" using i by (auto simp: dir_unmarshal_def split: option.splits if_splits)
  ultimately show ?case using i by (intro exI [of _ "m # ns"]) (auto simp: idFromKey_iff)
qed simp

lemma dir_unmarshal_op: "dir_unmarshal dec i b op = Inr m \<longleftrightarrow> dir_unmarshal dec i b op' = Inr m"
  by (auto simp: dir_unmarshal_def split: option.splits)

lemma dir_Get_iff:
  "dir_Get dec s i = Inr m \<longleftrightarrow>
     \<not> s_closed s \<and> (\<exists>b. s_data s (dir_Key i) = Some b \<and> dir_unmarshal dec i b op = Inr m)"
  using dir_unmarshal_op [of dec i _ op m "''tenant.Directory.Get''"]
  by (auto simp: dir_Get_def store_Get_def lookup_def errClosed_def fail_def Let_def
      split: option.splits if_splits)

lemma dir_Key_prefix: "prefix (System tenants_prefix) (dir_Key i)"
  by (simp add: dir_Key_def System_def)

lemma dir_Key_less_iff: "dir_Key i < dir_Key j \<longleftrightarrow> i < j"
  by (simp add: dir_Key_def System_def append_less_append_iff)

text \<open>
  C17: A listing that succeeds is complete and in id order: it holds exactly the metadata
  \<^verbatim>\<open>Get\<close> returns for the tenants that have a row, each once.
\<close>

theorem directory_lists_every_tenant_in_order:
  assumes "store_ok s" "dir_List dec s = (ms, None)"
  shows "sorted_wrt (<) (map m_ID ms) \<and> set ms = {m. \<exists>i. i \<noteq> [] \<and> dir_Get dec s i = Inr m}"
proof -
  let ?op = "''tenant.Directory.List''" and ?R = "PrefixRange (System tenants_prefix)"
  have "\<not> s_closed s" using assms(2)
    by (auto simp: dir_List_def dir_each_def store_NewIterator_def split: prod.splits)
  then have live: "store_live s" using assms(1) by (simp add: store_live_def)
  then have "dir_each_loop dec ?op (store_scan s ?R) [] = (ms, None)"
    using assms(2) \<open>\<not> s_closed s\<close>
    by (simp add: dir_List_def dir_each_def store_NewIterator_def store_scan_def case_prod_unfold)
  then have all: "list_all2 (\<lambda>(k, v) m. m_ID m \<noteq> [] \<and> k = dir_Key (m_ID m) \<and> dir_unmarshal dec (m_ID m) v ?op = Inr m) (store_scan s ?R) ms"
    using dir_each_loop_Some by fastforce
  then have keys: "map fst (store_scan s ?R) = map (\<lambda>m. dir_Key (m_ID m)) ms"
    by (induction rule: list_all2_induct) auto
  have "sorted_wrt (<) (map (\<lambda>m. dir_Key (m_ID m)) ms)"
    using memkv.scan_sorted [OF live, of ?R] keys by simp
  then have "sorted_wrt (<) (map m_ID ms)" by (simp add: sorted_wrt_map dir_Key_less_iff)
  moreover have "set ms = {m. \<exists>i. i \<noteq> [] \<and> dir_Get dec s i = Inr m}"
  proof (intro set_eqI iffI)
    fix m
    assume "m \<in> set ms"
    then obtain k v where "(k, v) \<in> set (store_scan s ?R)" "m_ID m \<noteq> []" "k = dir_Key (m_ID m)"
        "dir_unmarshal dec (m_ID m) v ?op = Inr m"
      using list_all2_mem2 [OF all] by fastforce
    then show "m \<in> {m. \<exists>i. i \<noteq> [] \<and> dir_Get dec s i = Inr m}"
      using live \<open>\<not> s_closed s\<close> by (auto simp: memkv.scan_mem_iff dir_Get_iff [of dec s _ _ ?op])
  next
    fix m
    assume "m \<in> {m. \<exists>i. i \<noteq> [] \<and> dir_Get dec s i = Inr m}"
    then obtain i b where i: "i \<noteq> []" "s_data s (dir_Key i) = Some b" "dir_unmarshal dec i b ?op = Inr m"
      by (auto simp: dir_Get_iff [of dec s _ _ ?op])
    then have "(dir_Key i, b) \<in> set (store_scan s ?R)"
      using live by (simp add: memkv.scan_mem_iff in_PrefixRange_iff dir_Key_prefix)
    then obtain n where n: "n \<in> set ms" "dir_Key i = dir_Key (m_ID n)" "dir_unmarshal dec (m_ID n) b ?op = Inr n"
      using list_all2_mem1 [OF all] by fastforce
    then show "m \<in> set ms" using i by simp
  qed
  ultimately show ?thesis by blast
qed

theorem directory_lists_every_tenant_in_order_witness:
  "let row = \<lparr>row_SchemaVersion = 1, row_DisplayName = None, row_CreatedAtUnixMs = 0, row_UpdatedAtUnixMs = 0\<rparr>;
       s = store_set New (dir_Key (str ''a'')) [7]
   in \<exists>ms. dir_List (\<lambda>b. Some row) s = (ms, None) \<and> length ms = 1 \<and>
        set ms = {m. \<exists>i. i \<noteq> [] \<and> dir_Get (\<lambda>b. Some row) s i = Inr m}"
proof -
  let ?row = "\<lparr>row_SchemaVersion = 1, row_DisplayName = None, row_CreatedAtUnixMs = 0, row_UpdatedAtUnixMs = 0\<rparr>"
  let ?k = "dir_Key (str ''a'')" and ?R = "PrefixRange (System tenants_prefix)"
  let ?s = "store_set New ?k [7]"
  have ok: "store_ok ?s" by (simp add: store_ok_store_set)
  have "store_scan ?s ?R = [(?k, [7])]"
    using s_keys_store_set [of New ?k "[7]"]
    by (simp add: store_scan_filter [OF ok] in_PrefixRange_iff dir_Key_prefix entry_def store_view_def)
  moreover have "idFromKey ?k op = Inr (str ''a'')" for op by (simp add: idFromKey_iff str_def)
  ultimately obtain ms where ms: "dir_List (\<lambda>b. Some ?row) ?s = (ms, None)" "length ms = 1"
    by (simp add: dir_List_def dir_each_def store_NewIterator_def store_scan_def case_prod_unfold dir_unmarshal_def)
  with directory_lists_every_tenant_in_order [OF ok ms(1)] show ?thesis unfolding Let_def by blast
qed

end
