(* ===== verification/Txn.thy ===== *)
theory Txn
  imports Memkv
begin

text \<open>
  Transactions, \<^verbatim>\<open>src/internal/txn\<close>: \<^verbatim>\<open>tx.go\<close> over a batch of the engine,
  the retry loop of \<^verbatim>\<open>do.go\<close> and the stripe of \<^verbatim>\<open>gate.go\<close>. A callback is a
  label of type \<open>'c\<close>; an operation that runs callbacks returns the labels it ran, in
  order. Other writers run between the steps of a transaction: the body of \<^verbatim>\<open>Do\<close>
  hands back the store as it is when the commit begins, and each pause hands it on as it is
  afterwards. The sync flag reaches only the engine's durability and has no effect on what is
  stored.
\<close>

section \<open>One transaction\<close>

record 'c tx =
  tx_onCommit :: "'c list"
  tx_onClose :: "'c list"
  tx_batch :: batch
  tx_sync :: bool
  tx_committed :: bool
  tx_closed :: bool

definition tx_New :: "bool \<Rightarrow> 'c tx" where
  "tx_New sync =
     \<lparr>tx_onCommit = [], tx_onClose = [], tx_batch = NewBatch, tx_sync = sync,
      tx_committed = False, tx_closed = False\<rparr>"

definition tx_spent :: "'c tx \<Rightarrow> bool" where
  "tx_spent t \<longleftrightarrow> tx_closed t \<or> tx_committed t"

definition tx_usable :: "string \<Rightarrow> 'c tx \<Rightarrow> error option" where
  "tx_usable op t =
     (if tx_closed t then Some (err Invalid op ''this transaction has been closed'')
      else if tx_committed t
      then Some (err Invalid op ''this transaction has already committed; open a new one rather than replaying it'')
      else None)"

definition tx_Get :: "Store \<Rightarrow> 'c tx \<Rightarrow> bytes \<Rightarrow> bytes res" where
  "tx_Get s t key =
     (case tx_usable ''txn.Get'' t of Some e \<Rightarrow> Inl e | None \<Rightarrow> batch_Get s (tx_batch t) key)"

definition tx_Set :: "bytes \<Rightarrow> bytes \<Rightarrow> 'c tx \<Rightarrow> 'c tx" where
  "tx_Set key val t = (if tx_spent t then t else t\<lparr>tx_batch := batch_Set key val (tx_batch t)\<rparr>)"

definition tx_Delete :: "bytes \<Rightarrow> 'c tx \<Rightarrow> 'c tx" where
  "tx_Delete key t = (if tx_spent t then t else t\<lparr>tx_batch := batch_Delete key (tx_batch t)\<rparr>)"

definition tx_Len :: "'c tx \<Rightarrow> nat" where
  "tx_Len t = (if tx_closed t then 0 else batch_Len (tx_batch t))"

definition tx_Expect :: "bytes \<Rightarrow> bytes \<Rightarrow> bool \<Rightarrow> 'c tx \<Rightarrow> 'c tx" where
  "tx_Expect key val ex t =
     (if \<not> tx_spent t then t\<lparr>tx_batch := batch_Expect key val ex (tx_batch t)\<rparr> else t)"

definition tx_OnCommit :: "'c \<Rightarrow> 'c tx \<Rightarrow> bool \<times> 'c tx" where
  "tx_OnCommit f t = (if tx_spent t then (False, t) else (True, t\<lparr>tx_onCommit := tx_onCommit t @ [f]\<rparr>))"

definition tx_OnClose :: "'c \<Rightarrow> 'c tx \<Rightarrow> bool \<times> 'c tx" where
  "tx_OnClose f t = (if tx_spent t then (False, t) else (True, t\<lparr>tx_onClose := tx_onClose t @ [f]\<rparr>))"

text \<open>The store, the transaction, the error, and the callbacks run.\<close>

definition tx_Commit :: "Store \<Rightarrow> 'c tx \<Rightarrow> Store \<times> 'c tx \<times> error option \<times> 'c list" where
  "tx_Commit s t =
     (case tx_usable ''txn.Commit'' t of
        Some e \<Rightarrow> (s, t, Some e, [])
      | None \<Rightarrow>
          (case batch_Commit s (tx_batch t) of
             (s', b', Some e) \<Rightarrow> (s', t\<lparr>tx_batch := b'\<rparr>, Some e, [])
           | (s', b', None) \<Rightarrow>
               (s', t\<lparr>tx_batch := b', tx_committed := True, tx_onClose := []\<rparr>, None, tx_onCommit t)))"

definition tx_Close :: "'c tx \<Rightarrow> 'c tx \<times> 'c list" where
  "tx_Close t =
     (if tx_closed t then (t, [])
      else (t\<lparr>tx_closed := True, tx_batch := batch_Close (tx_batch t), tx_onClose := []\<rparr>, tx_onClose t))"

section \<open>The retry loop\<close>

definition MaxAttempts :: nat where
  "MaxAttempts = 8"

text \<open>Durations in nanoseconds.\<close>

definition baseBackoff :: int where
  "baseBackoff = 100 * 1000"

definition maxBackoff :: int where
  "maxBackoff = 10 * 1000 * 1000"

definition backoff_window :: "nat \<Rightarrow> int" where
  "backoff_window n = (let window = push_bit n baseBackoff in if maxBackoff < window then maxBackoff else window)"

definition pause :: "bool \<Rightarrow> error option" where
  "pause cancelled = (if cancelled then Some (err Unavailable ''txn.Do'' ''context canceled'') else None)"

type_synonym 'c body = "Store \<Rightarrow> 'c tx \<Rightarrow> Store \<times> 'c tx \<times> error option"

text \<open>The deferred \<^verbatim>\<open>Close\<close> runs on every path; the callbacks run come last in the result.\<close>

definition attempt :: "bool \<Rightarrow> 'c body \<Rightarrow> Store \<Rightarrow> Store \<times> error option \<times> 'c list" where
  "attempt sync body s =
     (case body s (tx_New sync) of
        (s1, t1, Some e) \<Rightarrow> (s1, Some e, snd (tx_Close t1))
      | (s1, t1, None) \<Rightarrow>
          (case tx_Commit s1 t1 of
             (s2, t2, e, cbs) \<Rightarrow> (s2, e, cbs @ snd (tx_Close t2))))"

text \<open>
  \<open>Do_loop\<close> has \<open>m\<close> attempts left, the next one numbered \<open>n\<close>. The environment
  says for each pause whether the context was done first and what the store is afterwards.
\<close>

fun Do_loop ::
    "bool \<Rightarrow> 'c body \<Rightarrow> (nat \<Rightarrow> bool) \<Rightarrow> (nat \<Rightarrow> Store \<Rightarrow> Store) \<Rightarrow> nat \<Rightarrow> nat \<Rightarrow> error option \<Rightarrow> Store \<Rightarrow>
     Store \<times> error option" where
  "Do_loop sync body cancelled env 0 n lastErr s =
     (s, E Conflict ''txn.Do''
           (Some (case lastErr of
                    None \<Rightarrow> Plain ''this write met a concurrent one MaxAttempts times running''
                  | Some e \<Rightarrow> Wrapped ''this write met a concurrent one MaxAttempts times running'' e)))"
| "Do_loop sync body cancelled env (Suc m) n lastErr s =
     (case attempt sync body s of
        (s', None, cbs) \<Rightarrow> (s', None)
      | (s', Some e, cbs) \<Rightarrow>
          if \<not> Is (Some e) Conflict then (s', Some e)
          else case pause (cancelled n) of
                 Some e' \<Rightarrow> (env n s', Some e')
               | None \<Rightarrow> Do_loop sync body cancelled env m (Suc n) (Some e) (env n s'))"

definition Do ::
    "bool \<Rightarrow> 'c body \<Rightarrow> (nat \<Rightarrow> bool) \<Rightarrow> (nat \<Rightarrow> Store \<Rightarrow> Store) \<Rightarrow> Store \<Rightarrow> Store \<times> error option" where
  "Do sync body cancelled env s = Do_loop sync body cancelled env MaxAttempts 0 None s"

section \<open>The gate\<close>

definition gateStripes :: "32 word" where
  "gateStripes = 256"

text \<open>\<^verbatim>\<open>fnv.New32a\<close>: the 32-bit FNV-1a hash.\<close>

definition fnv32a :: "bytes \<Rightarrow> 32 word" where
  "fnv32a bs = fold (\<lambda>b h. (h XOR ucast b) * 16777619) bs 2166136261"

definition stripe :: "bytes \<Rightarrow> 32 word" where
  "stripe key = fnv32a key mod gateStripes"

section \<open>A transaction commits at most once and runs one set of callbacks\<close>

text \<open>
  A client may call the operations in any order, also after the transaction is spent, and other
  writers may replace the store between two calls. \<open>tx_steps\<close> runs a sequence of calls and
  keeps a ledger: the registrations that were accepted, the callbacks that ran, and whether a
  commit of this transaction was applied.
\<close>

datatype 'c call = CGet bytes | CSet bytes bytes | CDelete bytes | CExpect bytes bytes bool
  | COnCommit 'c | COnClose 'c | CCommit | CClose | COther Store

record 'c ledger =
  l_store :: Store
  l_tx :: "'c tx"
  l_regCommit :: "'c list"
  l_regClose :: "'c list"
  l_ran :: "'c list"
  l_applied :: nat

fun tx_step :: "'c call \<Rightarrow> 'c ledger \<Rightarrow> 'c ledger" where
  "tx_step (CGet k) l = l"
| "tx_step (CSet k v) l = l\<lparr>l_tx := tx_Set k v (l_tx l)\<rparr>"
| "tx_step (CDelete k) l = l\<lparr>l_tx := tx_Delete k (l_tx l)\<rparr>"
| "tx_step (CExpect k v ex) l = l\<lparr>l_tx := tx_Expect k v ex (l_tx l)\<rparr>"
| "tx_step (COnCommit f) l =
     (let (ok, t) = tx_OnCommit f (l_tx l)
      in l\<lparr>l_tx := t, l_regCommit := l_regCommit l @ (if ok then [f] else [])\<rparr>)"
| "tx_step (COnClose f) l =
     (let (ok, t) = tx_OnClose f (l_tx l)
      in l\<lparr>l_tx := t, l_regClose := l_regClose l @ (if ok then [f] else [])\<rparr>)"
| "tx_step CCommit l =
     (case tx_Commit (l_store l) (l_tx l) of (s', t', e, cbs) \<Rightarrow>
        l\<lparr>l_store := s', l_tx := t', l_ran := l_ran l @ cbs,
          l_applied := l_applied l + (if e = None then 1 else 0)\<rparr>)"
| "tx_step CClose l = (case tx_Close (l_tx l) of (t', cbs) \<Rightarrow> l\<lparr>l_tx := t', l_ran := l_ran l @ cbs\<rparr>)"
| "tx_step (COther s) l = l\<lparr>l_store := s\<rparr>"

definition ledger0 :: "bool \<Rightarrow> Store \<Rightarrow> 'c ledger" where
  "ledger0 sync s =
     \<lparr>l_store = s, l_tx = tx_New sync, l_regCommit = [], l_regClose = [], l_ran = [], l_applied = 0\<rparr>"

definition ledger_ok :: "'c ledger \<Rightarrow> bool" where
  "ledger_ok l \<longleftrightarrow> (let t = l_tx l in
     tx_onCommit t = l_regCommit l \<and>
     (if tx_committed t then l_applied l = 1 \<and> l_ran l = l_regCommit l \<and> tx_onClose t = []
      else l_applied l = 0 \<and>
        (if tx_closed t then l_ran l = l_regClose l \<and> tx_onClose t = []
         else l_ran l = [] \<and> tx_onClose t = l_regClose l)))"

lemma ledger_ok_init: "ledger_ok (ledger0 sync s)"
  by (simp add: ledger_ok_def ledger0_def tx_New_def)

lemma ledger_ok_step: "ledger_ok l \<Longrightarrow> ledger_ok (tx_step c l)"
  by (cases c)
     (auto simp: ledger_ok_def Let_def tx_Set_def tx_Delete_def tx_Expect_def tx_OnCommit_def tx_OnClose_def
        tx_Commit_def tx_Close_def tx_usable_def tx_spent_def split: option.splits prod.splits)

lemma ledger_ok_run: "ledger_ok l \<Longrightarrow> ledger_ok (fold tx_step cs l)"
  by (induction cs arbitrary: l) (simp_all add: ledger_ok_step)

text \<open>
  C14: Whatever sequence of calls a client makes, and whatever other writers do in between, a
  transaction applies its batch at most once. Once closed it has run exactly the accepted commit
  callbacks if it committed, and exactly the accepted close callbacks if it did not.
\<close>

theorem tx_commits_once_runs_one_side:
  fixes cs :: "'c call list"
  shows "(let l = fold tx_step cs (ledger0 sync s) in
     l_applied l \<le> 1 \<and>
     l_ran (tx_step CClose l) = (if l_applied l = 1 then l_regCommit l else l_regClose l))"
proof -
  have "ledger_ok (fold tx_step cs (ledger0 sync s))"
    by (rule ledger_ok_run [OF ledger_ok_init])
  then show ?thesis by (auto simp: ledger_ok_def Let_def tx_Close_def split: if_splits prod.splits)
qed

section \<open>The retry loop commits once or not at all\<close>

definition holds :: "(bytes \<rightharpoonup> bytes) \<Rightarrow> condition \<Rightarrow> bool" where
  "holds m c \<longleftrightarrow> m (c_key c) = (if c_exists c then Some (c_value c) else None)"

lemma tx_Commit_error: "tx_Commit s t = (s', t', Some e, cbs) \<Longrightarrow> s' = s \<and> cbs = []"
  by (auto simp: tx_Commit_def dest: batch_Commit_Some split: option.splits prod.splits)

lemma tx_Commit_ok:
  "tx_Commit s t = (s', t', None, cbs) \<Longrightarrow>
   \<not> s_closed s \<and> list_all (holds (s_data s)) (b_conditions (tx_batch t)) \<and>
   s' = fold apply_op (b_ops (tx_batch t)) s"
  by (auto simp: tx_Commit_def batch_Commit_None condition_fails_iff holds_def list_all_iff
      split: option.splits prod.splits)

lemma attempt_error:
  "attempt sync body s = (s', Some e, cbs) \<Longrightarrow> s' = fst (body s (tx_New sync))"
  by (auto simp: attempt_def dest: tx_Commit_error split: prod.splits option.splits)

lemma attempt_ok:
  assumes "attempt sync body s = (s', None, cbs)"
  obtains sc t where "body s (tx_New sync) = (sc, t, None)"
    "list_all (holds (s_data sc)) (b_conditions (tx_batch t))" "s' = fold apply_op (b_ops (tx_batch t)) sc"
  using assms by (auto simp: attempt_def dest: tx_Commit_ok split: prod.splits option.splits)

lemma Do_loop_outcome:
  assumes body: "\<And>s t. R\<^sup>*\<^sup>* s (fst (body s t))" and env: "\<And>n s. R\<^sup>*\<^sup>* s (env n s)"
    and "Do_loop sync body cancelled env m n lastErr s = (s', e)"
  shows "(e \<noteq> None \<longrightarrow> R\<^sup>*\<^sup>* s s') \<and>
    (e = None \<longrightarrow> (\<exists>sa sc t. R\<^sup>*\<^sup>* s sa \<and> body sa (tx_New sync) = (sc, t, None) \<and> R\<^sup>*\<^sup>* sa sc \<and>
       list_all (holds (s_data sc)) (b_conditions (tx_batch t)) \<and> s' = fold apply_op (b_ops (tx_batch t)) sc))"
  using assms(3)
proof (induction m arbitrary: n lastErr s)
  case 0
  then show ?case by (auto simp: E_def)
next
  case (Suc m)
  obtain s1 e1 cbs where a: "attempt sync body s = (s1, e1, cbs)" by (cases "attempt sync body s") auto
  show ?case
  proof (cases e1)
    case None
    then have eq: "s' = s1" "e = None" using Suc.prems a by simp_all
    from a None obtain sc t where sc: "body s (tx_New sync) = (sc, t, None)"
        "list_all (holds (s_data sc)) (b_conditions (tx_batch t))" "s1 = fold apply_op (b_ops (tx_batch t)) sc"
      using attempt_ok by metis
    moreover have "R\<^sup>*\<^sup>* s sc" using body [of s "tx_New sync"] sc by simp
    ultimately show ?thesis using eq by blast
  next
    case (Some e2)
    have s1: "R\<^sup>*\<^sup>* s s1" using attempt_error [of sync body s s1 e2 cbs] a Some body [of s "tx_New sync"] by simp
    then have s2: "R\<^sup>*\<^sup>* s (env n s1)" using env [of s1 n] by simp
    show ?thesis
    proof (cases "Is (Some e2) Conflict \<and> \<not> cancelled n")
      case True
      then have "Do_loop sync body cancelled env m (Suc n) (Some e2) (env n s1) = (s', e)"
        using Suc.prems a Some by (simp add: pause_def)
      from Suc.IH [OF this] show ?thesis using rtranclp_trans [OF s2] by blast
    next
      case False
      then show ?thesis using Suc.prems a Some s1 s2 by (auto simp: pause_def split: if_splits)
    qed
  qed
qed

lemma rtranclp_alone: "(=)\<^sup>*\<^sup>* x y \<longleftrightarrow> x = y"
  by (auto elim: rtranclp_induct)

text \<open>
  C13: \<^verbatim>\<open>Do\<close> commits once or not at all. \<open>R\<close> is what other writers may do to the store
  in one step. When \<^verbatim>\<open>Do\<close> reports an error, the store has only been changed by others. When
  it reports success, the last thing that happened is one commit: the body ran on a fresh
  transaction, every expectation it recorded still held in the store the batch was applied to,
  and the result is that store with the staged operations applied in order.
\<close>

theorem Do_commits_once_or_not_at_all:
  assumes "\<And>s t. R\<^sup>*\<^sup>* s (fst (body s t))" "\<And>n s. R\<^sup>*\<^sup>* s (env n s)"
    and "Do sync body cancelled env s = (s', e)"
  shows "case e of
      Some _ \<Rightarrow> R\<^sup>*\<^sup>* s s'
    | None \<Rightarrow> \<exists>sa sc t. R\<^sup>*\<^sup>* s sa \<and> body sa (tx_New sync) = (sc, t, None) \<and> R\<^sup>*\<^sup>* sa sc \<and>
        list_all (holds (s_data sc)) (b_conditions (tx_batch t)) \<and>
        s_data s' = fold op_effect (b_ops (tx_batch t)) (s_data sc)"
  using Do_loop_outcome [OF assms(1,2) assms(3) [unfolded Do_def]] by (auto split: option.splits)

theorem Do_commits_once_or_not_at_all_witness:
  "s_data (fst (Do True (\<lambda>s t. (s, tx_Set [1] [2] (tx_Expect [1] [] False t :: nat tx), None)) (\<lambda>_. False) (\<lambda>_ s. s) New)) =
     [[1] \<mapsto> [2]]"
proof -
  let ?body = "\<lambda>s t. (s, tx_Set [1] [2] (tx_Expect [1] [] False t :: nat tx), None)"
  let ?t = "tx_Set [1] [2] (tx_Expect [1] [] False (tx_New True :: nat tx))"
  have t: "tx_batch ?t = \<lparr>b_ops = [\<lparr>op_key = [1], op_value = [2], op_delete = False\<rparr>],
      b_conditions = [\<lparr>c_key = [1], c_value = [], c_exists = False\<rparr>]\<rparr>"
    by (simp add: tx_Set_def tx_Expect_def tx_New_def tx_spent_def batch_Set_def batch_Expect_def NewBatch_def)
  have u: "\<not> tx_closed ?t" "\<not> tx_committed ?t"
    by (simp_all add: tx_Set_def tx_Expect_def tx_New_def tx_spent_def)
  have "\<exists>s'. Do True ?body (\<lambda>_. False) (\<lambda>_ s. s) New = (s', None)"
    using t u by (simp add: Do_def MaxAttempts_def numeral_eq_Suc attempt_def tx_Commit_def tx_usable_def
        batch_Commit_def condition_fails_iff)
  then obtain s' where s': "Do True ?body (\<lambda>_. False) (\<lambda>_ s. s) New = (s', None)" by blast
  have "\<exists>sa. New = sa \<and> s_data s' = fold op_effect (b_ops (tx_batch ?t)) (s_data sa)"
    using Do_commits_once_or_not_at_all [of "(=)" ?body "\<lambda>_ s. s", OF _ _ s'] by (auto simp: rtranclp_alone)
  then show ?thesis using s' t by (simp add: op_effect_def)
qed

lemma Do_loop_conflicts:
  assumes "\<And>s. \<exists>s' e cbs. attempt sync body s = (s', Some e, cbs) \<and> is_kind e Conflict"
    and "\<And>n. \<not> cancelled n"
  shows "\<exists>s' e. Do_loop sync body cancelled env m n lastErr s = (s', Some e) \<and> is_kind e Conflict"
proof (induction m arbitrary: n lastErr s)
  case 0
  then show ?case by (simp add: E_def)
next
  case (Suc m)
  obtain s1 e1 cbs where a: "attempt sync body s = (s1, Some e1, cbs)" "is_kind e1 Conflict"
    using assms(1) by blast
  then have "Do_loop sync body cancelled env (Suc m) n lastErr s =
      Do_loop sync body cancelled env m (Suc n) (Some e1) (env n s1)"
    using assms(2) [of n] by (simp add: pause_def is_kind_def)
  then show ?case using Suc.IH by simp
qed

lemma backoff_total: "(\<Sum>n<MaxAttempts. backoff_window n) = 22700000"
  by (simp add: MaxAttempts_def backoff_window_def baseBackoff_def maxBackoff_def Let_def push_bit_eq_mult
      numeral_eq_Suc)

lemma stripe_less: "stripe key < gateStripes"
  by (simp add: stripe_def gateStripes_def word_less_nat_alt unat_mod)

end
