(* ===== verification/Staging.thy ===== *)
theory Staging
  imports Txn
begin

text \<open>
  What a transaction will have written: the view of the store through the operations staged so
  far. Every write path of the program stages into a transaction, so the components below state
  their effect on this view, and the commit turns it into the store.
\<close>

section \<open>The view through a transaction\<close>

definition tx_view :: "Store \<Rightarrow> 'c tx \<Rightarrow> bytes \<rightharpoonup> bytes" where
  "tx_view s t = fold op_effect (b_ops (tx_batch t)) (s_data s)"

definition tx_live :: "Store \<Rightarrow> 'c tx \<Rightarrow> bool" where
  "tx_live s t \<longleftrightarrow> \<not> s_closed s \<and> \<not> tx_spent t"

abbreviation tx_conds :: "'c tx \<Rightarrow> condition list" where
  "tx_conds t \<equiv> b_conditions (tx_batch t)"

named_theorems staging \<open>effect of the staging calls on the view, the conditions and liveness\<close>

lemma tx_live_New [simp]: "tx_live s (tx_New sync) \<longleftrightarrow> \<not> s_closed s"
  by (simp add: tx_live_def tx_New_def tx_spent_def)

lemma tx_view_New [simp]: "tx_view s (tx_New sync) = s_data s"
  by (simp add: tx_view_def tx_New_def NewBatch_def)

lemma tx_live_stage [staging]:
  "tx_live s (tx_Set k v t) = tx_live s t" "tx_live s (tx_Delete k t) = tx_live s t"
  "tx_live s (tx_Expect k v ex t) = tx_live s t"
  "tx_live s (snd (tx_OnCommit f t)) = tx_live s t" "tx_live s (snd (tx_OnClose f t)) = tx_live s t"
  by (simp_all add: tx_live_def tx_Set_def tx_Delete_def tx_Expect_def tx_OnCommit_def tx_OnClose_def tx_spent_def)

lemma tx_view_stage [staging]:
  "tx_live s t \<Longrightarrow> tx_view s (tx_Set k v t) = (tx_view s t)(k \<mapsto> v)"
  "tx_live s t \<Longrightarrow> tx_view s (tx_Delete k t) = (tx_view s t)(k := None)"
  "tx_view s (tx_Expect k v ex t) = tx_view s t"
  "tx_view s (snd (tx_OnCommit f t)) = tx_view s t" "tx_view s (snd (tx_OnClose f t)) = tx_view s t"
  by (simp_all add: tx_view_def tx_live_def tx_Set_def tx_Delete_def tx_Expect_def tx_OnCommit_def tx_OnClose_def
      batch_Set_def batch_Delete_def batch_Expect_def op_effect_def)

lemma tx_Get_Some: "tx_live s t \<Longrightarrow> tx_view s t k = Some v \<Longrightarrow> tx_Get s t k = Inr v"
  by (auto simp: tx_live_def tx_view_def tx_Get_def tx_usable_def tx_spent_def batch_Get_def fold_op_effect
      store_Get_def lookup_def split: option.splits if_splits)

lemma tx_Get_None:
  assumes "tx_live s t" "tx_view s t k = None"
  obtains e where "tx_Get s t k = Inl e" "is_kind e NotFound"
  using assms
  by (auto simp: tx_live_def tx_view_def tx_Get_def tx_usable_def tx_spent_def batch_Get_def fold_op_effect
      store_Get_def lookup_def fail_def split: option.splits if_splits)

lemma tx_Get_cases:
  assumes "tx_live s t"
  shows "(case tx_Get s t k of Inr v \<Rightarrow> tx_view s t k = Some v | Inl e \<Rightarrow> is_kind e NotFound \<and> tx_view s t k = None)"
proof (cases "tx_view s t k")
  case None
  with assms obtain e where "tx_Get s t k = Inl e" "is_kind e NotFound" by (rule tx_Get_None)
  then show ?thesis using None by simp
next
  case (Some v)
  then show ?thesis using tx_Get_Some [OF assms] by simp
qed

lemma tx_Get_view: "tx_live s t \<Longrightarrow> tx_Get s t k = Inr v \<longleftrightarrow> tx_view s t k = Some v"
  using tx_Get_cases [of s t k] tx_Get_Some [of s t k v] by (cases "tx_Get s t k") simp_all

lemma tx_Get_Inl: "tx_live s t \<Longrightarrow> tx_Get s t k = Inl e \<Longrightarrow> is_kind e NotFound \<and> tx_view s t k = None"
  using tx_Get_cases [of s t k] by simp

lemma Is_is_kind [simp]: "Is (Some e) k \<longleftrightarrow> is_kind e k"
  by (simp add: is_kind_def)

section \<open>Commit\<close>

lemma tx_Commit_view:
  "tx_Commit s t = (s', t', None, cbs) \<Longrightarrow>
   s_data s' = tx_view s t \<and> \<not> s_closed s' \<and> (\<forall>c\<in>set (tx_conds t). \<not> condition_fails s c)"
  by (auto simp: tx_Commit_def tx_view_def batch_Commit_def list_ex_iff split: option.splits if_splits)

lemma tx_Commit_live:
  assumes "tx_live s t" "\<forall>c\<in>set (tx_conds t). \<not> condition_fails s c"
  obtains s' t' where "tx_Commit s t = (s', t', None, tx_onCommit t)" "s_data s' = tx_view s t" "\<not> s_closed s'"
  using assms
  by (auto simp: tx_live_def tx_spent_def tx_Commit_def tx_usable_def tx_view_def batch_Commit_def list_ex_iff)

lemma tx_Commit_conflict:
  assumes "tx_live s t" "c \<in> set (tx_conds t)" "condition_fails s c"
  obtains e where "tx_Commit s t = (s, t, Some e, [])" "is_kind e Conflict"
proof -
  have "list_ex (condition_fails s) (tx_conds t)" using assms(2,3) by (auto simp: list_ex_iff)
  then have "tx_Commit s t = (s, t, Some (err Conflict ''memkv.Batch.Commit'' ''conditional write conflict''), [])"
    using assms(1) by (cases t) (simp add: tx_live_def tx_spent_def tx_Commit_def tx_usable_def batch_Commit_def)
  then show ?thesis using that by simp
qed

section \<open>Staging within a set of keys\<close>

text \<open>
  A staging step from \<open>t\<close> to \<open>t'\<close> that keeps the transaction usable and leaves every key outside
  \<open>K\<close> as it was.
\<close>

definition stages_in :: "Store \<Rightarrow> bytes set \<Rightarrow> 'c tx \<Rightarrow> 'c tx \<Rightarrow> bool" where
  "stages_in s K t t' \<longleftrightarrow>
     (tx_live s t \<longrightarrow> tx_live s t' \<and> (\<forall>k. k \<notin> K \<longrightarrow> tx_view s t' k = tx_view s t k) \<and> set (tx_conds t) \<subseteq> set (tx_conds t'))"

lemma stages_in_refl [simp, intro]: "stages_in s K t t"
  by (simp add: stages_in_def)

lemma stages_in_trans: "stages_in s K t t' \<Longrightarrow> stages_in s K t' t'' \<Longrightarrow> stages_in s K t t''"
  by (auto simp: stages_in_def)

lemma stages_in_mono: "stages_in s K t t' \<Longrightarrow> K \<subseteq> K' \<Longrightarrow> stages_in s K' t t'"
  by (auto simp: stages_in_def)

lemma set_conds_Expect: "set (tx_conds t) \<subseteq> set (tx_conds (tx_Expect k v ex t))"
  by (auto simp: tx_Expect_def batch_Expect_def)

lemma tx_conds_stage [staging]:
  "tx_conds (tx_Set k v t) = tx_conds t" "tx_conds (tx_Delete k t) = tx_conds t"
  "tx_conds (snd (tx_OnCommit f t)) = tx_conds t" "tx_conds (snd (tx_OnClose f t)) = tx_conds t"
  by (simp_all add: tx_Set_def tx_Delete_def tx_OnCommit_def tx_OnClose_def batch_Set_def batch_Delete_def)

lemma stages_in_Set: "k \<in> K \<Longrightarrow> stages_in s K t (tx_Set k v t)"
  by (auto simp: stages_in_def staging)

lemma stages_in_Delete: "k \<in> K \<Longrightarrow> stages_in s K t (tx_Delete k t)"
  by (auto simp: stages_in_def staging)

lemma stages_in_Expect: "stages_in s K t (tx_Expect k v ex t)"
  by (simp add: stages_in_def staging set_conds_Expect)

lemma stages_in_callbacks: "stages_in s K t (snd (tx_OnCommit f t))" "stages_in s K t (snd (tx_OnClose f t))"
  by (simp_all add: stages_in_def staging)

lemmas stages_in_intros = stages_in_Set stages_in_Delete stages_in_Expect stages_in_callbacks

lemma stages_in_fold:
  assumes "\<And>x t. x \<in> set xs \<Longrightarrow> stages_in s K t (f x t)"
  shows "stages_in s K t (fold f xs t)"
  using assms
proof (induction xs arbitrary: t)
  case (Cons x xs)
  then show ?case by (auto intro: stages_in_trans [of s K t "f x t"])
qed simp

lemma stages_in_liveD: "stages_in s K t t' \<Longrightarrow> tx_live s t \<Longrightarrow> tx_live s t'"
  by (simp add: stages_in_def)

lemma stages_in_viewD: "stages_in s K t t' \<Longrightarrow> tx_live s t \<Longrightarrow> k \<notin> K \<Longrightarrow> tx_view s t' k = tx_view s t k"
  by (simp add: stages_in_def)

lemma stages_in_condsD: "stages_in s K t t' \<Longrightarrow> tx_live s t \<Longrightarrow> set (tx_conds t) \<subseteq> set (tx_conds t')"
  by (simp add: stages_in_def)

text \<open>A fresh expectation is kept when nothing was staged or expected at its key before.\<close>

lemma tx_Expect_new:
  assumes "\<not> tx_spent t" "\<forall>o1\<in>set (b_ops (tx_batch t)). op_key o1 \<noteq> k" "\<forall>c\<in>set (tx_conds t). c_key c \<noteq> k"
  shows "\<lparr>c_key = k, c_value = v, c_exists = ex\<rparr> \<in> set (tx_conds (tx_Expect k v ex t))"
  using assms by (auto simp: tx_Expect_def batch_Expect_def list_ex_iff)

end
