(* ===== verification/Codec.thy ===== *)
theory Codec
  imports Keys
begin

text \<open>
  The durable envelope and the page tokens of \<^verbatim>\<open>src/internal/codec\<close>: \<^verbatim>\<open>envelope.go\<close>,
  \<^verbatim>\<open>record.go\<close>, \<^verbatim>\<open>vector.go\<close>, \<^verbatim>\<open>edge.go\<close> and \<^verbatim>\<open>token.go\<close>. The protobuf
  encoding of a message is the parameters \<open>enc\<close> and \<open>dec\<close>. Base64 is the standard library's
  unpadded URL alphabet, whose decoder skips line breaks and ignores the unused low bits of the
  last character.
\<close>

section \<open>The envelope\<close>

definition Magic :: bytes where
  "Magic = str ''RMM1''"

definition HeaderLen :: nat where
  "HeaderLen = length Magic + 2"

definition CodecProtobuf :: byte where "CodecProtobuf = 1"

definition CodecVectorProtobuf :: byte where "CodecVectorProtobuf = 2"

definition CodecEdgeProtobuf :: byte where "CodecEdgeProtobuf = 3"

definition RecordEnvelope :: "32 word" where "RecordEnvelope = 1"

definition checkHeaderCodec :: "bytes \<Rightarrow> string \<Rightarrow> byte \<Rightarrow> error option" where
  "checkHeaderCodec b op want =
     (if length b < HeaderLen then Some (err Corruption op ''a record value is shorter than its header'')
      else if take (length Magic) b \<noteq> Magic then Some (err Corruption op ''value does not begin with the magic; it is not a record'')
      else if RecordEnvelope < ucast (b ! 4) then Some (err IncompatibleVersion op ''record envelope version on disk is newer than this binary'')
      else if b ! 5 = want then None
      else if b ! 5 = CodecProtobuf \<or> b ! 5 = CodecVectorProtobuf \<or> b ! 5 = CodecEdgeProtobuf
      then Some (err Corruption op ''this value is encoded with another codec than was expected here'')
      else Some (err IncompatibleVersion op ''body codec is not one this binary knows''))"

definition checkHeader :: "bytes \<Rightarrow> string \<Rightarrow> error option" where
  "checkHeader b op = checkHeaderCodec b op CodecProtobuf"

definition EnvelopeVersion :: "bytes \<Rightarrow> (byte \<times> byte) res" where
  "EnvelopeVersion b =
     (case checkHeader b ''codec.EnvelopeVersion'' of Some e \<Rightarrow> Inl e | None \<Rightarrow> Inr (b ! 4, b ! 5))"

definition headerFor :: "bytes \<Rightarrow> byte \<Rightarrow> bytes" where
  "headerFor dst codec = dst @ Magic @ [ucast RecordEnvelope] @ [codec]"

definition header :: "bytes \<Rightarrow> bytes" where
  "header dst = headerFor dst CodecProtobuf"

section \<open>Messages\<close>

text \<open>A nil message is \<open>None\<close>.\<close>

definition RecordBody :: "bytes \<Rightarrow> bytes res" where
  "RecordBody b = (case checkHeader b ''codec.RecordBody'' of Some e \<Rightarrow> Inl e | None \<Rightarrow> Inr (drop HeaderLen b))"

definition MarshalRecord :: "('r \<Rightarrow> bytes option) \<Rightarrow> 'r option \<Rightarrow> bytes res" where
  "MarshalRecord enc r = (let op = ''codec.MarshalRecord'' in
     case r of
       None \<Rightarrow> fail Invalid op ''record is nil''
     | Some r \<Rightarrow>
         (case enc r of
            None \<Rightarrow> fail Invalid op ''encoding the record body''
          | Some body \<Rightarrow> Inr (header [] @ body)))"

definition UnmarshalRecord :: "(bytes \<Rightarrow> 'r option) \<Rightarrow> bytes \<Rightarrow> 'r res" where
  "UnmarshalRecord dec b = (let op = ''codec.UnmarshalRecord'' in
     case checkHeader b op of
       Some e \<Rightarrow> Inl e
     | None \<Rightarrow> (case dec (drop HeaderLen b) of
                  None \<Rightarrow> fail Corruption op ''the record body will not parse''
                | Some r \<Rightarrow> Inr r))"

record pb_Vector =
  pv_ModelId :: bytes
  pv_Dim :: "32 word"
  pv_Values :: "32 word list"

definition MarshalVector :: "(pb_Vector \<Rightarrow> bytes option) \<Rightarrow> pb_Vector option \<Rightarrow> bytes res" where
  "MarshalVector enc v = (let op = ''codec.MarshalVector'' in
     case v of
       None \<Rightarrow> fail Invalid op ''vector is nil''
     | Some v \<Rightarrow>
         if pv_ModelId v = [] then fail Invalid op ''a vector without a model id may not be stored''
         else if unat (pv_Dim v) \<noteq> length (pv_Values v) then fail Invalid op ''vector declares another number of dimensions than it carries''
         else case enc v of
                None \<Rightarrow> fail Invalid op ''encoding the vector''
              | Some body \<Rightarrow> Inr (headerFor [] CodecVectorProtobuf @ body))"

definition UnmarshalVector :: "(bytes \<Rightarrow> pb_Vector option) \<Rightarrow> bytes \<Rightarrow> pb_Vector res" where
  "UnmarshalVector dec b = (let op = ''codec.UnmarshalVector'' in
     case checkHeaderCodec b op CodecVectorProtobuf of
       Some e \<Rightarrow> Inl e
     | None \<Rightarrow>
         (case dec (drop HeaderLen b) of
            None \<Rightarrow> fail Corruption op ''the vector body will not parse''
          | Some v \<Rightarrow>
              if unat (pv_Dim v) \<noteq> length (pv_Values v)
              then fail Corruption op ''a stored vector is truncated'' else Inr v))"

definition MarshalEdge :: "('e \<Rightarrow> bytes option) \<Rightarrow> 'e option \<Rightarrow> bytes res" where
  "MarshalEdge enc e = (let op = ''codec.MarshalEdge'' in
     case e of
       None \<Rightarrow> fail Invalid op ''edge is nil''
     | Some e \<Rightarrow>
         (case enc e of
            None \<Rightarrow> fail Invalid op ''encoding the edge''
          | Some body \<Rightarrow> Inr (headerFor [] CodecEdgeProtobuf @ body)))"

definition UnmarshalEdge :: "(bytes \<Rightarrow> 'e option) \<Rightarrow> bytes \<Rightarrow> 'e res" where
  "UnmarshalEdge dec b = (let op = ''codec.UnmarshalEdge'' in
     case checkHeaderCodec b op CodecEdgeProtobuf of
       Some e \<Rightarrow> Inl e
     | None \<Rightarrow> (case dec (drop HeaderLen b) of
                  None \<Rightarrow> fail Corruption op ''the edge body will not parse''
                | Some e \<Rightarrow> Inr e))"

section \<open>Base64\<close>

definition b64_char :: "byte \<Rightarrow> byte" where
  "b64_char v = (if v < 26 then v + 65 else if v < 52 then v + 71 else if v < 62 then v - 4 else if v = 62 then 45 else 95)"

definition b64_val :: "byte \<Rightarrow> byte option" where
  "b64_val c =
     (if 65 \<le> c \<and> c \<le> 90 then Some (c - 65) else if 97 \<le> c \<and> c \<le> 122 then Some (c - 71)
      else if 48 \<le> c \<and> c \<le> 57 then Some (c + 4) else if c = 45 then Some 62 else if c = 95 then Some 63 else None)"

fun b64_sextets :: "bytes \<Rightarrow> bytes" where
  "b64_sextets [] = []"
| "b64_sextets [a] = [drop_bit 2 a, push_bit 4 (take_bit 2 a)]"
| "b64_sextets [a, b] = [drop_bit 2 a, push_bit 4 (take_bit 2 a) OR drop_bit 4 b, push_bit 2 (take_bit 4 b)]"
| "b64_sextets (a # b # c # rest) =
     [drop_bit 2 a, push_bit 4 (take_bit 2 a) OR drop_bit 4 b, push_bit 2 (take_bit 4 b) OR drop_bit 6 c, take_bit 6 c] @ b64_sextets rest"

fun b64_octets :: "bytes \<Rightarrow> bytes option" where
  "b64_octets [] = Some []"
| "b64_octets [a] = None"
| "b64_octets [a, b] = Some [push_bit 2 a OR drop_bit 4 b]"
| "b64_octets [a, b, c] = Some [push_bit 2 a OR drop_bit 4 b, push_bit 4 b OR drop_bit 2 c]"
| "b64_octets (a # b # c # d # rest) =
     map_option (\<lambda>bs. [push_bit 2 a OR drop_bit 4 b, push_bit 4 b OR drop_bit 2 c, push_bit 6 c OR d] @ bs) (b64_octets rest)"

definition b64_EncodeToString :: "bytes \<Rightarrow> bytes" where
  "b64_EncodeToString b = map b64_char (b64_sextets b)"

definition b64_DecodeString :: "bytes \<Rightarrow> bytes option" where
  "b64_DecodeString s =
     (let vs = map b64_val (filter (\<lambda>c. c \<noteq> 10 \<and> c \<noteq> 13) s) in
      if None \<in> set vs then None else b64_octets (map the vs))"

section \<open>Page tokens\<close>

definition TokenVersion :: byte where "TokenVersion = 3"

type_synonym TokenKind = byte

definition TokenListing :: TokenKind where "TokenListing = 1"
definition TokenSearch :: TokenKind where "TokenSearch = 2"
definition TokenHistory :: TokenKind where "TokenHistory = 3"
definition TokenEdges :: TokenKind where "TokenEdges = 4"
definition TokenRelated :: TokenKind where "TokenRelated = 5"

definition badToken :: "string \<Rightarrow> string \<Rightarrow> error" where
  "badToken op msg = err Invalid op msg"

definition AppendLengthPrefixed :: "bytes \<Rightarrow> bytes \<Rightarrow> bytes" where
  "AppendLengthPrefixed dst b = AppendUvarint dst (of_nat (length b)) @ b"

definition readLengthPrefixed :: "bytes \<Rightarrow> (bytes \<times> bytes) option" where
  "readLengthPrefixed b =
     (case Uvarint b of (n, w) \<Rightarrow>
        if w \<le> 0 then None
        else let b = drop (nat w) b in
          if length b < unat n then None else Some (take (unat n) b, drop (unat n) b))"

definition EncodeToken :: "TokenKind \<Rightarrow> tenant \<Rightarrow> bytes \<Rightarrow> bytes" where
  "EncodeToken kind t payload =
     b64_EncodeToString (AppendUvarint [TokenVersion, kind] (of_nat (length t)) @ t @ payload)"

definition splitToken :: "bytes \<Rightarrow> string \<Rightarrow> (TokenKind \<times> tenant \<times> bytes) res" where
  "splitToken token op =
     (if token = [] then Inl (badToken op ''this page token is empty'')
      else case b64_DecodeString token of
             None \<Rightarrow> Inl (badToken op ''this page token is not a token this server issued'')
           | Some raw \<Rightarrow>
               if length raw < 2 then Inl (badToken op ''this page token ends before its header'')
               else if raw ! 0 \<noteq> TokenVersion then Inl (badToken op ''this page token is of another version'')
               else case readLengthPrefixed (drop 2 raw) of
                      None \<Rightarrow> Inl (badToken op ''this page token ends inside its tenant'')
                    | Some (name, rest) \<Rightarrow> Inr (raw ! 1, name, rest))"

definition DecodeToken :: "bytes \<Rightarrow> TokenKind \<Rightarrow> tenant \<Rightarrow> bytes res" where
  "DecodeToken token want t = (let op = ''codec.DecodeToken'' in
     bindR (splitToken token op) (\<lambda>(kind, name, payload).
       if kind \<noteq> want then Inl (badToken op ''this page token resumes another kind of request'')
       else if name \<noteq> t then Inl (badToken op ''this page token was issued for a different tenant'')
       else Inr payload))"

definition TokenTenant :: "bytes \<Rightarrow> tenant res" where
  "TokenTenant token = bindR (splitToken token ''codec.TokenTenant'') (\<lambda>(kind, name, payload). Inr name)"

section \<open>Base64 decodes what it encoded\<close>

lemma b64_val_char: "v < 64 \<Longrightarrow> b64_val (b64_char v) = Some v \<and> b64_char v \<noteq> 10 \<and> b64_char v \<noteq> 13"
proof -
  assume "v < 64"
  then have "v \<in> set (map of_nat [0..<64])"
    by (intro image_eqI [of v of_nat "unat v"] | simp add: word_less_nat_alt)+
  moreover have "\<forall>v\<in>set (map of_nat [0..<64]). b64_val (b64_char v) = Some v \<and> b64_char v \<noteq> 10 \<and> b64_char v \<noteq> 13"
    by code_simp
  ultimately show ?thesis by blast
qed

lemma less_64_iff: "(v :: byte) < 64 \<longleftrightarrow> take_bit 6 v = v"
proof -
  have "unat v mod 64 = unat v \<longleftrightarrow> unat v < 64"
    by (metis mod_less mod_less_divisor zero_less_numeral)
  then show ?thesis by (simp add: word_less_nat_alt take_bit_eq_mod word_unat_eq_iff unat_mod)
qed

lemma byte_eqI:
  fixes x y :: byte
  assumes "bit x 0 = bit y 0" "bit x 1 = bit y 1" "bit x 2 = bit y 2" "bit x 3 = bit y 3"
    "bit x 4 = bit y 4" "bit x 5 = bit y 5" "bit x 6 = bit y 6" "bit x 7 = bit y 7"
  shows "x = y"
proof (rule bit_word_eqI)
  fix n
  assume "n < LENGTH(8)"
  then have "n \<in> {0, 1, 2, 3, 4, 5, 6, 7}" by auto
  then show "bit x n = bit y n" using assms by blast
qed

lemma bit_byte_high: "8 \<le> n \<Longrightarrow> \<not> bit (a :: byte) n"
  by (auto dest: bit_imp_le_length)

lemma b64_sextets_less: "\<forall>v\<in>set (b64_sextets b). v < 64"
proof (induction b rule: b64_sextets.induct)
qed (auto simp: less_64_iff intro!: byte_eqI simp: bit_simps bit_byte_high)

lemma b64_octets_sextets: "b64_octets (b64_sextets b) = Some b"
proof (induction b rule: b64_sextets.induct)
qed (auto intro!: byte_eqI simp: bit_simps bit_byte_high)

lemma b64_roundtrip: "b64_DecodeString (b64_EncodeToString b) = Some b"
proof -
  have "map b64_val (filter (\<lambda>c. c \<noteq> 10 \<and> c \<noteq> 13) (map b64_char vs)) = map Some vs" if "\<forall>v\<in>set vs. v < 64" for vs
    using that by (induction vs) (auto simp: b64_val_char)
  from this [OF b64_sextets_less] show ?thesis
    by (auto simp: b64_DecodeString_def b64_EncodeToString_def b64_octets_sextets comp_def)
qed

section \<open>Values and tokens open only where they were made\<close>

lemma checkHeaderCodec_headerFor:
  "checkHeaderCodec (headerFor [] c @ body) op want =
     (if c = want then None
      else if c = CodecProtobuf \<or> c = CodecVectorProtobuf \<or> c = CodecEdgeProtobuf
      then Some (err Corruption op ''this value is encoded with another codec than was expected here'')
      else Some (err IncompatibleVersion op ''body codec is not one this binary knows''))"
  by (simp add: checkHeaderCodec_def headerFor_def Magic_def HeaderLen_def RecordEnvelope_def str_def)

lemma headerFor_length [simp]: "length (headerFor [] c) = HeaderLen" "drop HeaderLen (headerFor [] c) = []"
  by (simp_all add: headerFor_def Magic_def HeaderLen_def)

lemmas codec_ids = CodecProtobuf_def CodecVectorProtobuf_def CodecEdgeProtobuf_def

lemma UnmarshalRecord_header:
  "UnmarshalRecord dec (header [] @ body) =
     (case dec body of None \<Rightarrow> fail Corruption ''codec.UnmarshalRecord'' ''the record body will not parse'' | Some r \<Rightarrow> Inr r)"
  by (simp add: UnmarshalRecord_def checkHeader_def header_def checkHeaderCodec_headerFor Let_def)

lemma UnmarshalVector_header:
  "dec body = Some v \<Longrightarrow> unat (pv_Dim v) = length (pv_Values v) \<Longrightarrow>
   UnmarshalVector dec (headerFor [] CodecVectorProtobuf @ body) = Inr v"
  by (simp add: UnmarshalVector_def checkHeaderCodec_headerFor Let_def)

lemma MarshalRecord_Inr: "MarshalRecord enc r = Inr b \<longleftrightarrow> (\<exists>m body. r = Some m \<and> enc m = Some body \<and> b = header [] @ body)"
  by (auto simp: MarshalRecord_def Let_def split: option.splits)

lemma MarshalVector_Inr:
  "MarshalVector enc v = Inr b \<longleftrightarrow>
     (\<exists>m body. v = Some m \<and> pv_ModelId m \<noteq> [] \<and> unat (pv_Dim m) = length (pv_Values m) \<and> enc m = Some body \<and>
        b = headerFor [] CodecVectorProtobuf @ body)"
  by (auto simp: MarshalVector_def Let_def split: option.splits)

lemma MarshalEdge_Inr:
  "MarshalEdge enc e = Inr b \<longleftrightarrow> (\<exists>m body. e = Some m \<and> enc m = Some body \<and> b = headerFor [] CodecEdgeProtobuf @ body)"
  by (auto simp: MarshalEdge_def Let_def split: option.splits)

text \<open>
  C23: a stored value is read back as the message it was written from, and only as that kind of
  message: the record, vector and edge readers each refuse the other two as corrupt instead of
  misreading them, and a vector that does not carry the dimensions it declares is never written.
\<close>

theorem envelopes_separate_messages:
  assumes "\<And>m b. encR m = Some b \<Longrightarrow> decR b = Some m"
    and "\<And>m b. encV m = Some b \<Longrightarrow> decV b = Some m"
    and "\<And>m b. encE m = Some b \<Longrightarrow> decE b = Some m"
    and "MarshalRecord encR r = Inr br" "MarshalVector encV v = Inr bv" "MarshalEdge encE e = Inr bed"
  shows "(\<exists>m. r = Some m \<and> UnmarshalRecord decR br = Inr m) \<and>
     (\<exists>m. v = Some m \<and> UnmarshalVector decV bv = Inr m \<and> unat (pv_Dim m) = length (pv_Values m)) \<and>
     (\<exists>m. e = Some m \<and> UnmarshalEdge decE bed = Inr m) \<and>
     (\<forall>b\<in>{bv, bed}. \<exists>er. UnmarshalRecord decR b = Inl er \<and> is_kind er Corruption) \<and>
     (\<forall>b\<in>{br, bed}. \<exists>er. UnmarshalVector decV b = Inl er \<and> is_kind er Corruption) \<and>
     (\<forall>b\<in>{br, bv}. \<exists>er. UnmarshalEdge decE b = Inl er \<and> is_kind er Corruption)"
proof -
  from assms(4-6) obtain mr mv me xr xv xe where
    "r = Some mr" "encR mr = Some xr" "br = headerFor [] CodecProtobuf @ xr"
    "v = Some mv" "encV mv = Some xv" "bv = headerFor [] CodecVectorProtobuf @ xv" "unat (pv_Dim mv) = length (pv_Values mv)"
    "e = Some me" "encE me = Some xe" "bed = headerFor [] CodecEdgeProtobuf @ xe"
    by (auto simp: MarshalRecord_Inr MarshalVector_Inr MarshalEdge_Inr header_def)
  moreover from this have "decR xr = Some mr" "decV xv = Some mv" "decE xe = Some me" using assms(1-3) by blast+
  ultimately show ?thesis
    by (simp add: UnmarshalRecord_def UnmarshalVector_def UnmarshalEdge_def checkHeader_def checkHeaderCodec_headerFor
        Let_def codec_ids)
qed

theorem envelopes_separate_messages_witness:
  "UnmarshalRecord (\<lambda>b. if b = [9] then Some (5 :: nat) else None) (header [] @ [9]) = Inr 5 \<and>
   (\<exists>er. UnmarshalEdge (\<lambda>b. if b = [9] then Some (7 :: nat) else None) (header [] @ [9]) = Inl er \<and> is_kind er Corruption)"
proof -
  let ?v = "\<lparr>pv_ModelId = [77], pv_Dim = 1, pv_Values = [0]\<rparr> :: pb_Vector"
  define eR dR where "eR = (\<lambda>m :: nat. if m = 5 then Some [9 :: byte] else None)"
    and "dR = (\<lambda>b :: bytes. if b = [9] then Some (5 :: nat) else None)"
  define eV dV where "eV = (\<lambda>m. if m = ?v then Some [8 :: byte] else None)"
    and "dV = (\<lambda>b :: bytes. if b = [8] then Some ?v else None)"
  define eE dE where "eE = (\<lambda>m :: nat. if m = 7 then Some [9 :: byte] else None)"
    and "dE = (\<lambda>b :: bytes. if b = [9] then Some (7 :: nat) else None)"
  note d = eR_def dR_def eV_def dV_def eE_def dE_def
  have "eR m = Some b \<Longrightarrow> dR b = Some m" "eV v = Some b \<Longrightarrow> dV b = Some v" "eE m = Some b \<Longrightarrow> dE b = Some m" for m v b
    by (simp_all add: d split: if_splits)
  moreover have "MarshalRecord eR (Some 5) = Inr (header [] @ [9])"
    "MarshalVector eV (Some ?v) = Inr (headerFor [] CodecVectorProtobuf @ [8])"
    "MarshalEdge eE (Some 7) = Inr (headerFor [] CodecEdgeProtobuf @ [9])"
    by (simp_all add: MarshalRecord_def MarshalVector_def MarshalEdge_def Let_def d)
  ultimately have "UnmarshalRecord dR (header [] @ [9]) = Inr 5 \<and>
      (\<exists>er. UnmarshalEdge dE (header [] @ [9]) = Inl er \<and> is_kind er Corruption)"
    using envelopes_separate_messages [of eR dR eV dV eE dE] by blast
  then show ?thesis by (simp only: d)
qed

lemma readLengthPrefixed_lp: "fits t \<Longrightarrow> readLengthPrefixed (uvarint (len64 t) @ t @ rest) = Some (t, rest)"
  by (simp add: readLengthPrefixed_def unat_len64 Let_def)

lemma splitToken_EncodeToken: "fits t \<Longrightarrow> splitToken (EncodeToken kind t payload) op = Inr (kind, t, payload)"
proof -
  assume "fits t"
  let ?raw = "AppendUvarint [TokenVersion, kind] (of_nat (length t)) @ t @ payload"
  have raw: "?raw = [TokenVersion, kind] @ uvarint (len64 t) @ t @ payload"
    by (subst AppendUvarint_uvarint) (simp add: len64_def)
  have "b64_EncodeToString ?raw \<noteq> []" using b64_roundtrip [of ?raw] raw by (auto simp: b64_DecodeString_def)
  then show ?thesis
    using readLengthPrefixed_lp [OF \<open>fits t\<close>, of payload]
    by (simp add: splitToken_def EncodeToken_def b64_roundtrip raw)
qed

text \<open>
  C24: a page token opens for exactly the kind of request and the tenant it was issued for, and then
  gives back the position it was issued with. No other kind of request and no other tenant can
  resume from it.
\<close>

theorem token_opens_only_for_its_request:
  assumes "fits t"
  shows "(DecodeToken (EncodeToken kind t payload) want t' = Inr p \<longleftrightarrow> want = kind \<and> t' = t \<and> p = payload) \<and>
     TokenTenant (EncodeToken kind t payload) = Inr t"
  using splitToken_EncodeToken [OF assms, of kind payload]
  by (auto simp: DecodeToken_def TokenTenant_def Let_def badToken_def)

theorem token_opens_only_for_its_request_witness:
  "DecodeToken (EncodeToken TokenListing [97, 98] [1, 2, 3]) TokenListing [97, 98] = Inr [1, 2, 3] \<and>
   DecodeToken (EncodeToken TokenListing [97, 98] [1, 2, 3]) TokenListing [97] \<noteq> Inr [1, 2, 3]"
proof -
  have "fits [97, 98]" by (simp add: fits_def)
  from token_opens_only_for_its_request [OF this, of TokenListing "[1, 2, 3]" TokenListing] show ?thesis by simp
qed

end
