(* ===== verification/Vectors.thy ===== *)
theory Vectors
  imports Staging Codec
begin

text \<open>
  Canonical vectors and passage rows, \<^verbatim>\<open>src/internal/vector\<close>: \<^verbatim>\<open>store.go\<close>,
  \<^verbatim>\<open>passage.go\<close> and the staging and scanning half of \<^verbatim>\<open>entries.go\<close>. A float is its
  bit pattern; the protobuf encoding of a vector is the parameters \<open>enc\<close> and \<open>dec\<close>. A scan's
  callback carries its own state \<open>'a\<close> and may stop the scan with an error; a scan returns the
  state it reached. Cancellation of a context is left out.
\<close>

section \<open>Vectors and their store\<close>

record Vec =
  vec_ModelID :: bytes
  vec_Dim :: int
  vec_Values :: "32 word list"

definition CanonicalKey :: "tenant \<Rightarrow> nspace \<Rightarrow> id \<Rightarrow> bytes" where
  "CanonicalKey t ns rid = Vector t ns rid"

definition vec_Encode :: "(pb_Vector \<Rightarrow> bytes option) \<Rightarrow> Vec option \<Rightarrow> bytes res" where
  "vec_Encode enc v =
     (case v of
        None \<Rightarrow> fail Invalid ''vector.Encode'' ''vector is nil''
      | Some v \<Rightarrow>
          MarshalVector enc (Some \<lparr>pv_ModelId = vec_ModelID v, pv_Dim = word_of_int (vec_Dim v), pv_Values = vec_Values v\<rparr>))"

definition vec_Decode :: "(bytes \<Rightarrow> pb_Vector option) \<Rightarrow> bytes \<Rightarrow> Vec res" where
  "vec_Decode dec b =
     bindR (UnmarshalVector dec b) (\<lambda>v.
       Inr \<lparr>vec_ModelID = pv_ModelId v, vec_Dim = uint (pv_Dim v), vec_Values = pv_Values v\<rparr>)"

definition vec_Stage ::
    "(pb_Vector \<Rightarrow> bytes option) \<Rightarrow> tenant \<Rightarrow> nspace \<Rightarrow> id \<Rightarrow> Vec option \<Rightarrow> 'c tx \<Rightarrow> 'c tx \<times> error option" where
  "vec_Stage enc t ns rid v tx =
     (case vec_Encode enc v of
        Inl e \<Rightarrow> (tx, Some e)
      | Inr val \<Rightarrow> (tx_Set (CanonicalKey t ns rid) val tx, None))"

definition vec_StageDelete :: "tenant \<Rightarrow> nspace \<Rightarrow> id \<Rightarrow> 'c tx \<Rightarrow> 'c tx" where
  "vec_StageDelete t ns rid tx = tx_Delete (CanonicalKey t ns rid) tx"

definition vec_Put ::
    "(pb_Vector \<Rightarrow> bytes option) \<Rightarrow> Store \<Rightarrow> tenant \<Rightarrow> nspace \<Rightarrow> id \<Rightarrow> Vec option \<Rightarrow> Store \<times> error option" where
  "vec_Put enc s t ns rid v =
     (case vec_Encode enc v of Inl e \<Rightarrow> (s, Some e) | Inr val \<Rightarrow> store_Set s (CanonicalKey t ns rid) val)"

definition vec_Delete :: "Store \<Rightarrow> tenant \<Rightarrow> nspace \<Rightarrow> id \<Rightarrow> Store \<times> error option" where
  "vec_Delete s t ns rid = store_Delete s (CanonicalKey t ns rid)"

definition vec_Get :: "(bytes \<Rightarrow> pb_Vector option) \<Rightarrow> Store \<Rightarrow> tenant \<Rightarrow> nspace \<Rightarrow> id \<Rightarrow> Vec res" where
  "vec_Get dec s t ns rid = (let op = ''vector.Store.Get'' in
     case store_Get s (CanonicalKey t ns rid) of
       Inl e \<Rightarrow> if Is (Some e) NotFound then fail NotFound op ''no vector for record'' else Inl e
     | Inr b \<Rightarrow>
         (case vec_Decode dec b of
            Inl e \<Rightarrow> Inl (Error (KindOf (Some e)) op (Wrapped ''the vector of record'' e))
          | Inr v \<Rightarrow> Inr v))"

definition ridFromKey :: "bytes \<Rightarrow> string \<Rightarrow> id res" where
  "ridFromKey k op =
     (if length k < 16 then fail Corruption op ''a key in the vector range is too short to hold a record id''
      else case FromBytes (drop (length k - 16) k) of
             Inl e \<Rightarrow> fail Corruption op ''a vector key holds a malformed record id''
           | Inr rid \<Rightarrow> Inr rid)"

fun vec_scan_loop ::
    "(bytes \<Rightarrow> pb_Vector option) \<Rightarrow> string \<Rightarrow> ('a \<Rightarrow> id \<Rightarrow> Vec \<Rightarrow> 'a \<times> error option) \<Rightarrow> (bytes \<times> bytes) list \<Rightarrow> 'a \<Rightarrow>
     'a \<times> error option" where
  "vec_scan_loop dec op fn [] a = (a, None)"
| "vec_scan_loop dec op fn ((k, val) # es) a =
     (case ridFromKey k op of
        Inl e \<Rightarrow> (a, Some e)
      | Inr rid \<Rightarrow>
          (case vec_Decode dec val of
             Inl e \<Rightarrow> (a, Some (Error (KindOf (Some e)) op (Wrapped ''the vector of record'' e)))
           | Inr v \<Rightarrow>
               (case fn a rid v of
                  (a', Some e) \<Rightarrow> (a', Some e)
                | (a', None) \<Rightarrow> vec_scan_loop dec op fn es a')))"

definition vec_scan ::
    "(bytes \<Rightarrow> pb_Vector option) \<Rightarrow> Store \<Rightarrow> tenant \<Rightarrow> nspace \<Rightarrow> ('a \<Rightarrow> id \<Rightarrow> Vec \<Rightarrow> 'a \<times> error option) \<Rightarrow> 'a \<Rightarrow>
     'a \<times> error option" where
  "vec_scan dec s t ns fn a = (let op = ''vector.Store.Scan'' in
     if t = [] then (a, Some (err Invalid op ''a vector scan requires a tenant: there is no unscoped read path (Invariant 1)''))
     else let (lower, upper) = SpaceRange t ns SpaceVector in
       case itr_entries (store_NewIterator s (Some lower) upper) of
         Inl e \<Rightarrow> (a, Some e)
       | Inr es \<Rightarrow> vec_scan_loop dec op fn es a)"

definition UnknownModel :: bytes where
  "UnknownModel = str ''unknown''"

text \<open>
  \<^verbatim>\<open>Replace\<close>: the new vectors are an association list, visited in some order. Other writers
  may run between the scan and the commit; \<open>env\<close> is the store they leave.
\<close>

fun vec_Replace_loop ::
    "(pb_Vector \<Rightarrow> bytes option) \<Rightarrow> tenant \<Rightarrow> nspace \<Rightarrow> (id \<times> Vec) list \<Rightarrow> (id \<times> Vec option) list \<Rightarrow> 'c tx \<Rightarrow> 'c tx \<times> error option" where
  "vec_Replace_loop enc t ns existing [] tx = (tx, None)"
| "vec_Replace_loop enc t ns existing ((rid, v) # vs) tx =
     (let v' = (case v of
                  Some w \<Rightarrow>
                    if vec_ModelID w = []
                    then let inherited = (case map_of (rev existing) rid of None \<Rightarrow> [] | Some u \<Rightarrow> vec_ModelID u);
                             inherited = (if inherited = [] then UnknownModel else inherited)
                         in Some (w\<lparr>vec_ModelID := inherited\<rparr>)
                    else Some w
                | None \<Rightarrow> None)
      in case vec_Stage enc t ns rid v' tx of
           (tx', Some e) \<Rightarrow> (tx', Some e)
         | (tx', None) \<Rightarrow> vec_Replace_loop enc t ns existing vs tx')"

definition vec_Replace ::
    "(pb_Vector \<Rightarrow> bytes option) \<Rightarrow> (bytes \<Rightarrow> pb_Vector option) \<Rightarrow> (Store \<Rightarrow> Store) \<Rightarrow> Store \<Rightarrow> tenant \<Rightarrow> nspace \<Rightarrow>
     (id \<times> Vec option) list \<Rightarrow> Store \<times> error option" where
  "vec_Replace enc dec env s t ns vectors =
     (case vec_scan dec s t ns (\<lambda>a rid v. (a @ [(rid, v)], None)) [] of
        (existing, Some e) \<Rightarrow> (s, Some e)
      | (existing, None) \<Rightarrow>
          let tx = fold (\<lambda>rid tx. if map_of vectors rid = None then vec_StageDelete t ns rid tx else tx)
                     (map fst existing) (tx_New True :: unit tx)
          in case vec_Replace_loop enc t ns existing vectors tx of
               (tx', Some e) \<Rightarrow> (env s, Some e)
             | (tx', None) \<Rightarrow> (case tx_Commit (env s) tx' of (s', tx'', e, cbs) \<Rightarrow> (s', e)))"

section \<open>Passage rows\<close>

record PassageRow =
  pr_Start :: "32 word"
  pr_End :: "32 word"
  pr_Vector :: "Vec option"

definition passageFormat :: byte where "passageFormat = 1"

definition passageHeader :: nat where "passageHeader = 1 + 4 + 4"

definition EncodePassage :: "(pb_Vector \<Rightarrow> bytes option) \<Rightarrow> PassageRow \<Rightarrow> bytes res" where
  "EncodePassage enc r =
     (if pr_End r < pr_Start r then fail Invalid ''vector.EncodePassage'' ''span ends before it starts''
      else bindR (vec_Encode enc (pr_Vector r)) (\<lambda>v.
        Inr ([passageFormat] @ be32 (pr_Start r) @ be32 (pr_End r) @ v)))"

definition DecodePassage :: "(bytes \<Rightarrow> pb_Vector option) \<Rightarrow> bytes \<Rightarrow> PassageRow res" where
  "DecodePassage dec b = (let op = ''vector.DecodePassage'' in
     if length b < passageHeader then fail Corruption op ''a passage row has no room for its span''
     else if b ! 0 \<noteq> passageFormat then fail Corruption op ''passage row format is not the one this binary reads''
     else let start = unbe (take 4 (drop 1 b)); end' = unbe (take 4 (drop 5 b)) in
       if end' < start then fail Corruption op ''span ends before it starts''
       else case vec_Decode dec (drop passageHeader b) of
              Inl e \<Rightarrow>
                if KindOf (Some e) = Corruption then Inl e
                else Inl (Error Corruption op (Wrapped ''the passage's vector does not decode'' e))
            | Inr v \<Rightarrow>
                if vec_ModelID v = [] then fail Corruption op ''a passage row's vector names no model''
                else Inr \<lparr>pr_Start = start, pr_End = end', pr_Vector = Some v\<rparr>)"

partial_function (option) deletePassagesFrom ::
    "Store \<Rightarrow> tenant \<Rightarrow> nspace \<Rightarrow> id \<Rightarrow> 32 word \<Rightarrow> 'c tx \<Rightarrow> ('c tx \<times> error option) option" where
  "deletePassagesFrom s t ns rid p tx =
     (let k = Passage t ns rid p in
      case tx_Get s tx k of
        Inl e \<Rightarrow> Some (tx, if Is (Some e) NotFound then None else Some e)
      | Inr _ \<Rightarrow> deletePassagesFrom s t ns rid (p + 1) (tx_Delete k tx))"

fun StagePassages_loop ::
    "(pb_Vector \<Rightarrow> bytes option) \<Rightarrow> tenant \<Rightarrow> nspace \<Rightarrow> id \<Rightarrow> nat \<Rightarrow> PassageRow list \<Rightarrow> 'c tx \<Rightarrow> 'c tx \<times> error option" where
  "StagePassages_loop enc t ns rid i [] tx = (tx, None)"
| "StagePassages_loop enc t ns rid i (row # rows) tx =
     (case EncodePassage enc row of
        Inl e \<Rightarrow> (tx, Some e)
      | Inr val \<Rightarrow> StagePassages_loop enc t ns rid (i + 1) rows (tx_Set (Passage t ns rid (of_nat i)) val tx))"

definition StagePassages ::
    "(pb_Vector \<Rightarrow> bytes option) \<Rightarrow> Store \<Rightarrow> tenant \<Rightarrow> nspace \<Rightarrow> id \<Rightarrow> PassageRow list \<Rightarrow> 'c tx \<Rightarrow> ('c tx \<times> error option) option" where
  "StagePassages enc s t ns rid rows tx =
     (case StagePassages_loop enc t ns rid 0 rows tx of
        (tx', Some e) \<Rightarrow> Some (tx', Some e)
      | (tx', None) \<Rightarrow> deletePassagesFrom s t ns rid (of_nat (length rows)) tx')"

definition StageDeletePassages :: "Store \<Rightarrow> tenant \<Rightarrow> nspace \<Rightarrow> id \<Rightarrow> 'c tx \<Rightarrow> ('c tx \<times> error option) option" where
  "StageDeletePassages s t ns rid tx = deletePassagesFrom s t ns rid 0 tx"

definition DeleteEntries :: "Store \<Rightarrow> tenant \<Rightarrow> nspace \<Rightarrow> id \<Rightarrow> (Store \<times> error option) option" where
  "DeleteEntries s t ns rid =
     (case StageDeletePassages s t ns rid (vec_StageDelete t ns rid (tx_New True :: unit tx)) of
        None \<Rightarrow> None
      | Some (tx, Some e) \<Rightarrow> Some (s, Some e)
      | Some (tx, None) \<Rightarrow> Some (case tx_Commit s tx of (s', tx', e, cbs) \<Rightarrow> (s', e)))"

section \<open>The merged scan\<close>

type_synonym vkey = "id \<times> 32 word"

text \<open>The passage iterator is the entries from its position on; the state of the merge is theirs and the callback's.\<close>

fun skip_passages :: "id \<Rightarrow> (bytes \<times> bytes) list \<Rightarrow> (bytes \<times> bytes) list \<times> error option" where
  "skip_passages rid [] = ([], None)"
| "skip_passages rid ((k, val) # ps) =
     (case ParsePassage k of
        Inl e \<Rightarrow> ((k, val) # ps, Some e)
      | Inr (t, ns, prid, p) \<Rightarrow>
          if id_bytes rid \<le> id_bytes prid then ((k, val) # ps, None) else skip_passages rid ps)"

fun yield_passages ::
    "(bytes \<Rightarrow> pb_Vector option) \<Rightarrow> string \<Rightarrow> ('a \<Rightarrow> vkey \<Rightarrow> Vec \<Rightarrow> 'a \<times> error option) \<Rightarrow> id \<Rightarrow> (bytes \<times> bytes) list \<Rightarrow> 'a \<Rightarrow> bool \<Rightarrow>
     (bytes \<times> bytes) list \<times> 'a \<times> bool \<times> error option" where
  "yield_passages dec op fn rid [] a yielded = ([], a, yielded, None)"
| "yield_passages dec op fn rid ((k, val) # ps) a yielded =
     (case ParsePassage k of
        Inl e \<Rightarrow> ((k, val) # ps, a, yielded, Some e)
      | Inr (t, ns, prid, p) \<Rightarrow>
          if prid \<noteq> rid then ((k, val) # ps, a, yielded, None)
          else case DecodePassage dec val of
                 Inl e \<Rightarrow> ((k, val) # ps, a, yielded, Some (Error (KindOf (Some e)) op (Wrapped ''passage of record'' e)))
               | Inr row \<Rightarrow>
                   (case fn a (rid, p) (the (pr_Vector row)) of
                      (a', Some e) \<Rightarrow> ((k, val) # ps, a', yielded, Some e)
                    | (a', None) \<Rightarrow> yield_passages dec op fn rid ps a' True))"

definition ScanEntries_step ::
    "(bytes \<Rightarrow> pb_Vector option) \<Rightarrow> string \<Rightarrow> ('a \<Rightarrow> vkey \<Rightarrow> Vec \<Rightarrow> 'a \<times> error option) \<Rightarrow>
     (bytes \<times> bytes) list \<times> 'a \<Rightarrow> id \<Rightarrow> Vec \<Rightarrow> ((bytes \<times> bytes) list \<times> 'a) \<times> error option" where
  "ScanEntries_step dec op fn st rid canonical =
     (case skip_passages rid (fst st) of
        (ps, Some e) \<Rightarrow> ((ps, snd st), Some e)
      | (ps, None) \<Rightarrow>
          (case yield_passages dec op fn rid ps (snd st) False of
             (ps', a', yielded, Some e) \<Rightarrow> ((ps', a'), Some e)
           | (ps', a', yielded, None) \<Rightarrow>
               if yielded then ((ps', a'), None)
               else case fn a' (rid, 0) canonical of (a'', e) \<Rightarrow> ((ps', a''), e)))"

definition ScanEntries ::
    "(bytes \<Rightarrow> pb_Vector option) \<Rightarrow> Store \<Rightarrow> tenant \<Rightarrow> ('a \<Rightarrow> vkey \<Rightarrow> Vec \<Rightarrow> 'a \<times> error option) \<Rightarrow> 'a \<Rightarrow> 'a \<times> error option" where
  "ScanEntries dec s t fn a = (let op = ''vector.Store.ScanEntries''; ns = DefaultNamespace in
     if t = [] then (a, Some (err Invalid op ''a vector scan requires a tenant: there is no unscoped read path (Invariant 1)''))
     else let (plo, phi) = SpaceRange t ns SpacePassage; pit = store_NewIterator s (Some plo) phi;
              ps = (case itr_entries pit of Inl e \<Rightarrow> [] | Inr ps \<Rightarrow> ps)
          in case vec_scan dec s t ns (ScanEntries_step dec op fn) (ps, a) of
               ((ps', a'), Some e) \<Rightarrow> (a', Some e)
             | ((ps', a'), None) \<Rightarrow> (a', itr_Error pit))"

section \<open>Passage rows stay numbered from zero\<close>

lemma be32_inject: "be32 v = be32 w \<longleftrightarrow> v = w"
  using unbe_be [of 4 v] unbe_be [of 4 w] by auto

lemma Passage_inject [simp]: "Passage t ns rid p = Passage t ns rid q \<longleftrightarrow> p = q"
  by (simp add: Passage_def be32_inject)

definition passage_keys :: "tenant \<Rightarrow> nspace \<Rightarrow> id \<Rightarrow> bytes set" where
  "passage_keys t ns rid = range (Passage t ns rid)"

lemma Passage_in_keys [simp]: "Passage t ns rid p \<in> passage_keys t ns rid"
  by (simp add: passage_keys_def)

text \<open>
  The loop returns whatever the transaction and the store hold: a turn that goes on removes one of
  the finitely many rows a read finds.
\<close>

lemma tx_Get_Delete:
  "tx_Get s tx k = Inr v \<Longrightarrow> tx_Get s (tx_Delete k tx) k' = (if k' = k then fail NotFound ''memkv.Batch.Get'' ''key deleted in this batch'' else tx_Get s tx k')"
  by (cases "tx_spent tx")
     (auto simp: tx_Get_def tx_usable_def tx_Delete_def tx_spent_def batch_Get_def batch_Delete_def split: if_splits)

lemma deletePassagesFrom_total:
  "\<exists>tx' e. deletePassagesFrom s t ns rid p tx = Some (tx', e) \<and> stages_in s (passage_keys t ns rid) tx tx' \<and>
     (tx_live s tx \<longrightarrow> e = None)"
proof (induction "card {q. \<exists>v. tx_Get s tx (Passage t ns rid q) = Inr v}" arbitrary: p tx rule: less_induct)
  case less
  let ?k = "Passage t ns rid p" and ?has = "\<lambda>tx. {q. \<exists>v. tx_Get s tx (Passage t ns rid q) = Inr v}"
  show ?case
  proof (cases "tx_Get s tx ?k")
    case (Inl e)
    then show ?thesis using tx_Get_Inl [of s tx ?k e] by (auto simp: deletePassagesFrom.simps [of s t ns rid p] Let_def)
  next
    case (Inr v)
    let ?tx = "tx_Delete ?k tx"
    have "?has ?tx = ?has tx - {p}" using tx_Get_Delete [OF Inr] by auto
    then have "card (?has ?tx) < card (?has tx)"
      using Inr by (simp only:) (rule card_Diff1_less; simp)
    from less.hyps [OF this, of "p + 1"] obtain tx' e where
      tx': "deletePassagesFrom s t ns rid (p + 1) ?tx = Some (tx', e)" "stages_in s (passage_keys t ns rid) ?tx tx'"
        "tx_live s tx \<longrightarrow> e = None"
      by (auto simp: staging)
    moreover have "stages_in s (passage_keys t ns rid) tx tx'"
      by (rule stages_in_trans [OF stages_in_Delete tx'(2)]) simp
    ultimately show ?thesis using Inr by (simp add: deletePassagesFrom.simps [of s t ns rid p] Let_def)
  qed
qed

lemma deletePassagesFrom_returns:
  "tx_live s tx \<Longrightarrow> \<exists>tx'. deletePassagesFrom s t ns rid p tx = Some (tx', None) \<and> stages_in s (passage_keys t ns rid) tx tx'"
  using deletePassagesFrom_total [of s t ns rid p tx] by blast

definition passages_upto :: "Store \<Rightarrow> tenant \<Rightarrow> nspace \<Rightarrow> id \<Rightarrow> nat \<Rightarrow> 'c tx \<Rightarrow> bool" where
  "passages_upto s t ns rid n tx \<longleftrightarrow> n < 2 ^ 32 \<and> (\<forall>p. tx_view s tx (Passage t ns rid p) \<noteq> None \<longleftrightarrow> unat p < n)"

text \<open>Rows from \<open>p\<close> on are deleted when the present rows from \<open>p\<close> on are a run.\<close>

lemma deletePassagesFrom_run:
  assumes "tx_live s tx" "n < 2 ^ 32" "unat p \<le> n"
    and "\<forall>q. unat p \<le> unat q \<longrightarrow> (tx_view s tx (Passage t ns rid q) \<noteq> None \<longleftrightarrow> unat q < n)"
    and "deletePassagesFrom s t ns rid p tx = Some (tx', e)"
  shows "\<forall>q. tx_view s tx' (Passage t ns rid q) = (if unat q < unat p then tx_view s tx (Passage t ns rid q) else None)"
  using assms
proof (induction "n - unat p" arbitrary: p tx)
  case 0
  then have "tx_view s tx (Passage t ns rid p) = None" by auto
  then have "tx' = tx"
    using "0.prems"(5) tx_Get_None [OF "0.prems"(1), of "Passage t ns rid p"]
    by (auto simp: deletePassagesFrom.simps [of s t ns rid p] Let_def split: sum.splits)
  then show ?case using 0 by (metis le_antisym linorder_le_less_linear diff_is_0_eq)
next
  case (Suc m)
  let ?k = "Passage t ns rid p"
  have "unat p < n" using Suc.hyps(2) by simp
  then have p1: "unat (p + 1) = unat p + 1" using Suc.prems(2) by (simp add: unat_word_ariths(1))
  obtain v where v: "tx_view s tx ?k = Some v" using Suc.prems(4) \<open>unat p < n\<close> by (metis dual_order.refl not_None_eq)
  then have del: "deletePassagesFrom s t ns rid (p + 1) (tx_Delete ?k tx) = Some (tx', e)"
    using Suc.prems(5) tx_Get_Some [OF Suc.prems(1) v] by (simp add: deletePassagesFrom.simps [of s t ns rid p] Let_def)
  have view: "tx_view s (tx_Delete ?k tx) (Passage t ns rid q) = (if q = p then None else tx_view s tx (Passage t ns rid q))" for q
    using Suc.prems(1) by (simp add: staging)
  have "\<forall>q. unat (p + 1) \<le> unat q \<longrightarrow> (tx_view s (tx_Delete ?k tx) (Passage t ns rid q) \<noteq> None \<longleftrightarrow> unat q < n)"
    using Suc.prems(4) p1 by (auto simp: view)
  with Suc.hyps(1) [of "p + 1" "tx_Delete ?k tx"] Suc.hyps(2) Suc.prems(1,2) \<open>unat p < n\<close> p1 del
  have IH: "\<forall>q. tx_view s tx' (Passage t ns rid q) =
      (if unat q < unat p + 1 then tx_view s (tx_Delete ?k tx) (Passage t ns rid q) else None)"
    by (simp add: staging)
  show ?case
  proof
    fix q
    show "tx_view s tx' (Passage t ns rid q) = (if unat q < unat p then tx_view s tx (Passage t ns rid q) else None)"
      using IH [rule_format, of q] by (auto simp: view less_Suc_eq word_unat_eq_iff split: if_splits)
  qed
qed

lemma StagePassages_loop_ok:
  assumes "tx_live s tx" "list_all2 (\<lambda>row b. EncodePassage enc row = Inr b) rows bs" "i + length rows < 2 ^ 32"
  shows "\<exists>tx'. StagePassages_loop enc t ns rid i rows tx = (tx', None) \<and> stages_in s (passage_keys t ns rid) tx tx' \<and>
     (\<forall>q. tx_view s tx' (Passage t ns rid q) =
        (if i \<le> unat q \<and> unat q < i + length rows then Some (bs ! (unat q - i)) else tx_view s tx (Passage t ns rid q)))"
  using assms(2,1,3)
proof (induction rows bs arbitrary: i tx rule: list_all2_induct)
  case Nil
  then show ?case by force
next
  case (Cons row rows b bs)
  let ?k = "Passage t ns rid (of_nat i)" and ?tx = "tx_Set (Passage t ns rid (of_nat i)) b tx"
  have i: "unat (of_nat i :: 32 word) = i" using Cons.prems(2) by (simp add: unat_of_nat take_bit_nat_eq_self unsigned_of_nat)
  have live: "tx_live s ?tx" using Cons.prems(1) by (simp add: staging)
  from Cons.IH [OF live, of "i + 1"] Cons.prems(2) obtain tx' where
    tx': "StagePassages_loop enc t ns rid (i + 1) rows ?tx = (tx', None)" "stages_in s (passage_keys t ns rid) ?tx tx'"
    "\<forall>q. tx_view s tx' (Passage t ns rid q) =
        (if i + 1 \<le> unat q \<and> unat q < i + 1 + length rows then Some (bs ! (unat q - (i + 1))) else tx_view s ?tx (Passage t ns rid q))"
    by auto
  have "stages_in s (passage_keys t ns rid) tx tx'" by (rule stages_in_trans [OF stages_in_Set tx'(2)]) simp
  moreover have "tx_view s tx' (Passage t ns rid q) =
      (if i \<le> unat q \<and> unat q < i + length (row # rows) then Some ((b # bs) ! (unat q - i)) else tx_view s tx (Passage t ns rid q))" for q
    using tx'(3) [rule_format, of q] Cons.prems(1) i
    by (cases "unat q = i") (auto simp: staging nth_Cons' word_unat_eq_iff [of q "of_nat i"])
  ultimately show ?case using tx'(1) Cons.hyps(1) by simp
qed

lemma StagePassages_loop_within: "stages_in s (passage_keys t ns rid) tx (fst (StagePassages_loop enc t ns rid i rows tx))"
proof (induction enc t ns rid i rows tx rule: StagePassages_loop.induct)
  case (2 enc t ns rid i row rows tx)
  then show ?case by (auto split: sum.splits intro: stages_in_trans [OF stages_in_Set [OF Passage_in_keys]])
qed simp

lemma StagePassages_within:
  "\<exists>tx' e. StagePassages enc s t ns rid rows tx = Some (tx', e) \<and> stages_in s (passage_keys t ns rid) tx tx'"
proof -
  obtain tx1 e1 where tx1: "StagePassages_loop enc t ns rid 0 rows tx = (tx1, e1)" by force
  then have w: "stages_in s (passage_keys t ns rid) tx tx1" using StagePassages_loop_within [of s t ns rid tx enc 0 rows] by simp
  show ?thesis
  proof (cases e1)
    case None
    obtain tx2 e2 where "deletePassagesFrom s t ns rid (of_nat (length rows)) tx1 = Some (tx2, e2)"
        "stages_in s (passage_keys t ns rid) tx1 tx2"
      using deletePassagesFrom_total by blast
    then show ?thesis using tx1 None stages_in_trans [OF w] by (simp add: StagePassages_def)
  qed (use tx1 w in \<open>simp add: StagePassages_def\<close>)
qed

text \<open>
  C25: staging a record's passages always returns, whatever rows the store holds, and touches only
  that record's passage keys. When the record's rows were numbered \<open>0\<dots>m-1\<close> before, they are
  exactly the new rows, numbered \<open>0\<dots>n-1\<close>, after: a shorter set leaves no row of the longer one
  behind. Deleting them leaves none.
\<close>

theorem StagePassages_exact:
  assumes "tx_live s tx" "list_all2 (\<lambda>row b. EncodePassage enc row = Inr b) rows bs" "length rows < 2 ^ 32"
  shows "\<exists>tx'. StagePassages enc s t ns rid rows tx = Some (tx', None) \<and> stages_in s (passage_keys t ns rid) tx tx' \<and>
     (passages_upto s t ns rid m tx \<longrightarrow>
        passages_upto s t ns rid (length rows) tx' \<and>
        (\<forall>i < length rows. tx_view s tx' (Passage t ns rid (of_nat i)) = Some (bs ! i)) \<and>
        (\<forall>tx''. StageDeletePassages s t ns rid tx' = Some (tx'', None) \<longrightarrow> passages_upto s t ns rid 0 tx''))"
proof -
  let ?n = "of_nat (length rows) :: 32 word" and ?P = "Passage t ns rid"
  have n: "unat ?n = length rows" using assms(3) by (simp add: unat_of_nat take_bit_nat_eq_self unsigned_of_nat)
  obtain tx1 where tx1: "StagePassages_loop enc t ns rid 0 rows tx = (tx1, None)" "stages_in s (passage_keys t ns rid) tx tx1"
      "\<forall>q. tx_view s tx1 (?P q) = (if unat q < length rows then Some (bs ! unat q) else tx_view s tx (?P q))"
    using StagePassages_loop_ok [OF assms(1,2), of 0 t ns rid] assms(3) by auto
  have live1: "tx_live s tx1" using stages_in_liveD [OF tx1(2) assms(1)] .
  obtain tx2 where tx2: "deletePassagesFrom s t ns rid ?n tx1 = Some (tx2, None)" "stages_in s (passage_keys t ns rid) tx1 tx2"
    using deletePassagesFrom_returns [OF live1] by blast
  have exact: "tx_view s tx2 (?P q) = (if unat q < length rows then Some (bs ! unat q) else None)"
    if "passages_upto s t ns rid m tx" for q
  proof -
    have "\<forall>q. unat ?n \<le> unat q \<longrightarrow> (tx_view s tx1 (?P q) \<noteq> None \<longleftrightarrow> unat q < max m (length rows))"
      using that n tx1(3) by (auto simp: passages_upto_def)
    then show ?thesis
      using deletePassagesFrom_run [OF live1 _ _ _ tx2(1), of "max m (length rows)"] that n assms(3) tx1(3)
      by (simp add: passages_upto_def)
  qed
  have "passages_upto s t ns rid 0 tx3"
    if m: "passages_upto s t ns rid m tx" and del: "StageDeletePassages s t ns rid tx2 = Some (tx3, None)" for tx3
    using deletePassagesFrom_run [of s tx2 "length rows" 0 t ns rid tx3 None] exact [OF m] assms(3) del
      stages_in_liveD [OF tx2(2) live1]
    by (simp add: StageDeletePassages_def passages_upto_def)
  moreover have "tx_view s tx2 (?P (of_nat i)) = Some (bs ! i)"
    if "passages_upto s t ns rid m tx" "i < length rows" for i
    using exact [OF that(1), of "of_nat i"] that(2) assms(3) by (simp add: unat_of_nat take_bit_nat_eq_self unsigned_of_nat)
  moreover have "passages_upto s t ns rid (length rows) tx2" if "passages_upto s t ns rid m tx"
    using exact [OF that] assms(3) by (simp add: passages_upto_def)
  ultimately show ?thesis using tx1(1) tx2(1) stages_in_trans [OF tx1(2) tx2(2)] by (simp add: StagePassages_def)
qed

theorem StagePassages_exact_witness:
  "\<exists>tx'. StagePassages (\<lambda>_. Some [1]) New [97] [98] 5 [\<lparr>pr_Start = 0, pr_End = 3, pr_Vector = Some \<lparr>vec_ModelID = [77], vec_Dim = 1, vec_Values = [0]\<rparr>\<rparr>]
       (tx_New True :: unit tx) = Some (tx', None) \<and> passages_upto New [97] [98] 5 1 tx'"
proof -
  let ?row = "\<lparr>pr_Start = 0, pr_End = 3, pr_Vector = Some \<lparr>vec_ModelID = [77], vec_Dim = 1, vec_Values = [0]\<rparr>\<rparr> :: PassageRow"
  have "\<exists>b. EncodePassage (\<lambda>_. Some [1]) ?row = Inr b"
    by (simp add: EncodePassage_def vec_Encode_def MarshalVector_def Let_def)
  then obtain b where "list_all2 (\<lambda>row b. EncodePassage (\<lambda>_. Some [1]) row = Inr b) [?row] [b]" by auto
  moreover have "tx_live New (tx_New True :: unit tx)" "passages_upto New [97] [98] 5 0 (tx_New True :: unit tx)"
    by (simp_all add: passages_upto_def)
  ultimately show ?thesis using StagePassages_exact [of New "tx_New True :: unit tx" _ "[?row]" "[b]" "[97]" "[98]" 5 0]
    by auto
qed

section \<open>The merged scan is a nested scan\<close>

fun each :: "('a \<Rightarrow> 'k \<Rightarrow> 'v \<Rightarrow> 'a \<times> error option) \<Rightarrow> 'a \<Rightarrow> ('k \<times> 'v) list \<Rightarrow> 'a \<times> error option" where
  "each fn a [] = (a, None)"
| "each fn a ((k, v) # xs) = (case fn a k v of (a', Some e) \<Rightarrow> (a', Some e) | (a', None) \<Rightarrow> each fn a' xs)"

lemma each_append:
  "each fn a (xs @ ys) = (case each fn a xs of (a', Some e) \<Rightarrow> (a', Some e) | (a', None) \<Rightarrow> each fn a' ys)"
  by (induction fn a xs rule: each.induct) (auto split: prod.splits option.splits)

text \<open>What one entry of either range holds, for a row that parses.\<close>

definition passage_rid :: "bytes \<times> bytes \<Rightarrow> id" where
  "passage_rid x = (case ParsePassage (fst x) of Inr (t, ns, rid, p) \<Rightarrow> rid | Inl e \<Rightarrow> 0)"

definition passage_entry :: "(bytes \<Rightarrow> pb_Vector option) \<Rightarrow> bytes \<times> bytes \<Rightarrow> vkey \<times> Vec" where
  "passage_entry dec x =
     ((passage_rid x, case ParsePassage (fst x) of Inr (t, ns, rid, p) \<Rightarrow> p | Inl e \<Rightarrow> 0),
      case DecodePassage dec (snd x) of Inr row \<Rightarrow> the (pr_Vector row) | Inl e \<Rightarrow> undefined)"

definition passage_good :: "(bytes \<Rightarrow> pb_Vector option) \<Rightarrow> bytes \<times> bytes \<Rightarrow> bool" where
  "passage_good dec x \<longleftrightarrow> (\<exists>t ns rid p row. ParsePassage (fst x) = Inr (t, ns, rid, p) \<and> DecodePassage dec (snd x) = Inr row)"

definition vector_rid :: "bytes \<times> bytes \<Rightarrow> id" where
  "vector_rid x = (case FromBytes (drop (length (fst x) - 16) (fst x)) of Inr rid \<Rightarrow> rid | Inl e \<Rightarrow> 0)"

definition vector_of :: "(bytes \<Rightarrow> pb_Vector option) \<Rightarrow> bytes \<times> bytes \<Rightarrow> Vec" where
  "vector_of dec x = (case vec_Decode dec (snd x) of Inr v \<Rightarrow> v | Inl e \<Rightarrow> undefined)"

definition vector_good :: "(bytes \<Rightarrow> pb_Vector option) \<Rightarrow> bytes \<times> bytes \<Rightarrow> bool" where
  "vector_good dec x \<longleftrightarrow> (\<exists>op rid v. ridFromKey (fst x) op = Inr rid \<and> vec_Decode dec (snd x) = Inr v)"

text \<open>The reference: for each canonical vector, its own passages if it has any, and else itself.\<close>

definition entries_of ::
    "(bytes \<Rightarrow> pb_Vector option) \<Rightarrow> (id \<Rightarrow> (bytes \<times> bytes) list) \<Rightarrow> bytes \<times> bytes \<Rightarrow> (vkey \<times> Vec) list" where
  "entries_of dec passages x =
     (let ps = passages (vector_rid x) in
      if ps = [] then [((vector_rid x, 0), vector_of dec x)] else map (passage_entry dec) ps)"

lemma skip_passages_eq:
  "\<forall>x\<in>set ps. passage_good dec x \<Longrightarrow> skip_passages rid ps = (dropWhile (\<lambda>x. passage_rid x < rid) ps, None)"
  by (induction ps) (auto simp: passage_good_def passage_rid_def not_le)

lemma yield_passages_eq:
  assumes "\<forall>x\<in>set ps. passage_good dec x"
  shows "case each fn a (map (passage_entry dec) (takeWhile (\<lambda>x. passage_rid x = rid) ps)) of
      (a', None) \<Rightarrow> yield_passages dec op fn rid ps a y =
         (dropWhile (\<lambda>x. passage_rid x = rid) ps, a', y \<or> takeWhile (\<lambda>x. passage_rid x = rid) ps \<noteq> [], None)
    | (a', Some e) \<Rightarrow> \<exists>ps' y'. yield_passages dec op fn rid ps a y = (ps', a', y', Some e)"
  using assms
proof (induction ps arbitrary: a y)
  case (Cons x ps)
  obtain k v where x: "x = (k, v)" by force
  with Cons.prems obtain t ns prid p row where
    good: "ParsePassage k = Inr (t, ns, prid, p)" "DecodePassage dec v = Inr row" by (auto simp: passage_good_def)
  then have px: "passage_rid x = prid" "passage_entry dec x = ((prid, p), the (pr_Vector row))"
    by (simp_all add: x passage_rid_def passage_entry_def)
  show ?case
  proof (cases "prid = rid")
    case True
    obtain a' e where fn: "fn a (rid, p) (the (pr_Vector row)) = (a', e)" by force
    show ?thesis using Cons.IH [of a' True] Cons.prems px good True fn
      by (cases e) (simp_all add: x split: prod.splits option.splits)
  next
    case False
    then show ?thesis using px good by (simp add: x)
  qed
qed simp

lemma sorted_split_eq:
  assumes "sorted (map f xs)"
  shows "takeWhile (\<lambda>x. f x = r) (dropWhile (\<lambda>x. f x < r) xs) = filter (\<lambda>x. f x = r) xs"
    and "dropWhile (\<lambda>x. f x = r) (dropWhile (\<lambda>x. f x < r) xs) = filter (\<lambda>x. r < f x) xs"
proof -
  have "takeWhile (\<lambda>x. f x = r) ys = filter (\<lambda>x. f x = r) ys \<and> dropWhile (\<lambda>x. f x = r) ys = filter (\<lambda>x. r < f x) ys"
    if "sorted (map f ys)" "\<forall>y\<in>set ys. r \<le> f y" for ys
    using that
  proof (induction ys)
    case (Cons y ys)
    show ?case
    proof (cases "f y = r")
      case False
      then have "\<forall>z\<in>set (y # ys). r < f z" using Cons.prems by fastforce
      then have "filter (\<lambda>x. f x = r) ys = []" "filter (\<lambda>x. r < f x) ys = ys" "r < f y"
        by (auto simp: filter_empty_conv filter_id_conv)
      then show ?thesis using False by simp
    qed (use Cons in auto)
  qed simp
  moreover have "\<forall>y\<in>set (dropWhile (\<lambda>x. f x < r) xs). r \<le> f y" "sorted (map f (dropWhile (\<lambda>x. f x < r) xs))"
    "filter (\<lambda>x. f x = r) (dropWhile (\<lambda>x. f x < r) xs) = filter (\<lambda>x. f x = r) xs"
    "filter (\<lambda>x. r < f x) (dropWhile (\<lambda>x. f x < r) xs) = filter (\<lambda>x. r < f x) xs"
    using assms by (induction xs) (auto intro: order_trans)
  ultimately show "takeWhile (\<lambda>x. f x = r) (dropWhile (\<lambda>x. f x < r) xs) = filter (\<lambda>x. f x = r) xs"
    and "dropWhile (\<lambda>x. f x = r) (dropWhile (\<lambda>x. f x < r) xs) = filter (\<lambda>x. r < f x) xs" by simp_all
qed

lemma ScanEntries_step_eq:
  assumes "\<forall>x\<in>set ps. passage_good dec x" "sorted (map passage_rid ps)" "vector_rid x = rid" "vector_of dec x = v"
  shows "case each fn a (entries_of dec (\<lambda>rid. filter (\<lambda>y. passage_rid y = rid) ps) x) of
      (a', None) \<Rightarrow> ScanEntries_step dec op fn (ps, a) rid v = ((filter (\<lambda>y. rid < passage_rid y) ps, a'), None)
    | (a', Some e) \<Rightarrow> \<exists>ps'. ScanEntries_step dec op fn (ps, a) rid v = ((ps', a'), Some e)"
proof -
  let ?ps = "dropWhile (\<lambda>y. passage_rid y < rid) ps" and ?mine = "filter (\<lambda>y. passage_rid y = rid) ps"
  have "\<forall>y\<in>set ?ps. passage_good dec y" using assms(1) set_dropWhileD by metis
  note y = yield_passages_eq [OF this, where op = op and fn = fn and a = a and rid = rid and y = False, unfolded sorted_split_eq [OF assms(2)]]
  show ?thesis
  proof (cases "?mine = []")
    case True
    then have "yield_passages dec op fn rid ?ps a False = (filter (\<lambda>y. rid < passage_rid y) ps, a, False, None)" using y by simp
    then show ?thesis using True assms(3,4)
      by (auto simp: ScanEntries_step_def skip_passages_eq [OF assms(1)] entries_of_def split: prod.splits option.splits)
  next
    case False
    then show ?thesis using y assms(3)
      by (auto simp: ScanEntries_step_def skip_passages_eq [OF assms(1)] entries_of_def split: prod.splits option.splits)
  qed
qed

lemma vector_good_rid: "vector_good dec x \<Longrightarrow> ridFromKey (fst x) op = Inr (vector_rid x) \<and> vec_Decode dec (snd x) = Inr (vector_of dec x)"
  by (auto simp: vector_good_def ridFromKey_def vector_rid_def vector_of_def split: sum.splits if_splits)

lemma ScanEntries_loop_eq:
  assumes "\<forall>x\<in>set es. vector_good dec x" "sorted_wrt (<) (map vector_rid es)"
    and "\<forall>x\<in>set ps. passage_good dec x" "sorted (map passage_rid ps)"
    and "\<forall>x\<in>set es. entries_of dec passages x = entries_of dec (\<lambda>rid. filter (\<lambda>y. passage_rid y = rid) ps) x"
  shows "\<exists>ps'. vec_scan_loop dec op (ScanEntries_step dec op' fn) es (ps, a) =
      (case each fn a (concat (map (entries_of dec passages) es)) of (a', e) \<Rightarrow> ((ps', a'), e))"
  using assms
proof (induction es arbitrary: ps a)
  case (Cons x es)
  obtain k v where x: "x = (k, v)" by force
  let ?mine = "\<lambda>ps rid. filter (\<lambda>y. passage_rid y = rid) ps" and ?rest = "filter (\<lambda>y. vector_rid x < passage_rid y) ps"
  have good: "ridFromKey k op = Inr (vector_rid x)" "vec_Decode dec v = Inr (vector_of dec x)"
    using vector_good_rid [of dec x op] Cons.prems(1) by (simp_all add: x)
  obtain a' e where a': "each fn a (entries_of dec passages x) = (a', e)" by force
  note step = ScanEntries_step_eq [OF Cons.prems(3,4), of x, OF refl refl, where fn = fn and a = a and op = op']
  show ?case
  proof (cases e)
    case (Some e')
    then obtain ps' where "ScanEntries_step dec op' fn (ps, a) (vector_rid x) (vector_of dec x) = ((ps', a'), e)"
      using step a' Cons.prems(5) by auto
    then show ?thesis using good a' Some by (simp add: x each_append)
  next
    case None
    then have st: "ScanEntries_step dec op' fn (ps, a) (vector_rid x) (vector_of dec x) = ((?rest, a'), None)"
      using step a' Cons.prems(5) by simp
    have "entries_of dec (?mine ?rest) z = entries_of dec (?mine ps) z" if "z \<in> set es" for z
    proof -
      have "vector_rid x < vector_rid z" using Cons.prems(2) that by simp
      then have "?mine ?rest (vector_rid z) = ?mine ps (vector_rid z)" by (auto intro: filter_cong)
      then show ?thesis by (simp add: entries_of_def)
    qed
    then have "\<exists>ps'. vec_scan_loop dec op (ScanEntries_step dec op' fn) es (?rest, a') =
        (case each fn a' (concat (map (entries_of dec passages) es)) of (a'', e) \<Rightarrow> ((ps', a''), e))"
      using Cons.prems by (intro Cons.IH) (auto simp: sorted_wrt_map sorted_wrt_filter)
    then show ?thesis using good a' None st by (simp add: x each_append)
  qed
qed simp

lemma itr_entries_store: "\<not> s_closed s \<Longrightarrow> itr_entries (store_NewIterator s (Some lo) hi) = Inr (store_scan s (lo, hi))"
  by (simp add: store_NewIterator_def store_scan_def)

text \<open>Every key of a record's vector and passage space is one the writers build, and its value decodes.\<close>

definition vectors_ok :: "(bytes \<Rightarrow> pb_Vector option) \<Rightarrow> Store \<Rightarrow> tenant \<Rightarrow> nspace \<Rightarrow> bool" where
  "vectors_ok dec s t ns \<longleftrightarrow>
     (\<forall>(k, v)\<in>set (store_scan s (SpaceRange t ns SpaceVector)). \<exists>rid vec. k = Vector t ns rid \<and> vec_Decode dec v = Inr vec) \<and>
     (\<forall>(k, v)\<in>set (store_scan s (SpaceRange t ns SpacePassage)). \<exists>rid p row. k = Passage t ns rid p \<and> DecodePassage dec v = Inr row)"

lemma vectors_okD:
  assumes "vectors_ok dec s t ns"
  shows "x \<in> set (store_scan s (SpaceRange t ns SpaceVector)) \<Longrightarrow>
      \<exists>rid vec. fst x = Vector t ns rid \<and> vec_Decode dec (snd x) = Inr vec"
    and "x \<in> set (store_scan s (SpaceRange t ns SpacePassage)) \<Longrightarrow>
      \<exists>rid p row. fst x = Passage t ns rid p \<and> DecodePassage dec (snd x) = Inr row"
  using assms by (cases x; auto simp: vectors_ok_def)+

lemma Vector_rid: "vector_rid (Vector t ns rid, v) = rid"
  by (simp add: vector_rid_def Vector_def)

lemma ridFromKey_Vector: "ridFromKey (Vector t ns rid) op = Inr rid"
  by (simp add: ridFromKey_def Vector_def)

lemma Passage_rid: "scope_fits t ns \<Longrightarrow> passage_rid (Passage t ns rid p, v) = rid"
  using ParsePassage_iff [of "Passage t ns rid p" t ns rid p] by (simp add: passage_rid_def)

lemma passages_of_record:
  assumes "store_live s" "scope_fits t ns" "vectors_ok dec s t ns"
  shows "store_scan s (PassagesOfRange t ns rid) =
     filter (\<lambda>y. passage_rid y = rid) (store_scan s (SpaceRange t ns SpacePassage))"
proof -
  let ?E = "entry (store_view s)" and ?P = "in_range (SpaceRange t ns SpacePassage)"
  have ok: "store_ok s" using assms(1) by (simp add: store_live_def)
  have iff: "in_range (PassagesOfRange t ns rid) k \<longleftrightarrow> ?P k \<and> passage_rid (?E k) = rid" if k: "k \<in> set (s_keys s)" for k
  proof
    assume R: "in_range (PassagesOfRange t ns rid) k"
    then have P: "?P k"
      by (auto simp: PassagesOfRange_def SpaceRange_def in_PrefixRange_iff begin_key_def prefix_def)
    then have "?E k \<in> set (store_scan s (SpaceRange t ns SpacePassage))" using k by (simp add: store_scan_filter [OF ok])
    then obtain r p where "k = Passage t ns r p" using vectors_okD(2) [OF assms(3)] by (metis entry_def fst_conv)
    moreover from this R have "r = rid"
      by (auto simp: PassagesOfRange_def in_PrefixRange_iff Passage_def prefix_def)
    ultimately show "?P k \<and> passage_rid (?E k) = rid" using P Passage_rid [OF assms(2)] by (simp add: entry_def)
  next
    assume R: "?P k \<and> passage_rid (?E k) = rid"
    then have "?E k \<in> set (store_scan s (SpaceRange t ns SpacePassage))" using k by (simp add: store_scan_filter [OF ok])
    then obtain r p where "k = Passage t ns r p" using vectors_okD(2) [OF assms(3)] by (metis entry_def fst_conv)
    then show "in_range (PassagesOfRange t ns rid) k"
      using R Passage_rid [OF assms(2)] by (simp add: entry_def PassagesOfRange_def in_PrefixRange_iff Passage_def)
  qed
  have "filter (in_range (PassagesOfRange t ns rid)) (s_keys s) = filter (\<lambda>k. ?P k \<and> passage_rid (?E k) = rid) (s_keys s)"
    using iff by (intro filter_cong) simp_all
  then show ?thesis unfolding store_scan_filter [OF ok] filter_map comp_def by (simp add: conj_commute)
qed

text \<open>
  C26: the one-pass merge over a tenant's vectors and passages delivers, to any callback, what a
  nested scan per record would: records in id order, each record's own passages in order when it
  has some and its canonical vector as passage zero when it has none. Passages of a record that
  has no vector are skipped, and the first error of the callback ends the scan.
\<close>

theorem ScanEntries_merges:
  assumes "store_live s" "scope_fits t DefaultNamespace" "vectors_ok dec s t DefaultNamespace" "t \<noteq> []"
  shows "ScanEntries dec s t fn a =
    each fn a (concat (map (entries_of dec (\<lambda>rid. store_scan s (PassagesOfRange t DefaultNamespace rid)))
      (store_scan s (SpaceRange t DefaultNamespace SpaceVector))))"
proof -
  let ?ns = DefaultNamespace
  let ?es = "store_scan s (SpaceRange t ?ns SpaceVector)" and ?ps = "store_scan s (SpaceRange t ?ns SpacePassage)"
  have es: "vector_good dec x \<and> fst x = Vector t ?ns (vector_rid x)" if x: "x \<in> set ?es" for x
  proof -
    from vectors_okD(1) [OF assms(3) x] obtain rid v vec where "x = (Vector t ?ns rid, v)" "vec_Decode dec v = Inr vec"
      by (metis prod.collapse)
    then show ?thesis by (auto simp: vector_good_def ridFromKey_Vector Vector_rid)
  qed
  have ps: "passage_good dec x \<and> (\<exists>p. fst x = Passage t ?ns (passage_rid x) p)" if x: "x \<in> set ?ps" for x
  proof -
    from vectors_okD(2) [OF assms(3) x] obtain rid p v row where "x = (Passage t ?ns rid p, v)" "DecodePassage dec v = Inr row"
      by (metis prod.collapse)
    then show ?thesis
      using Passage_rid [OF assms(2)] ParsePassage_iff [of "Passage t ?ns rid p" t ?ns rid p] assms(2)
      by (auto simp: passage_good_def)
  qed
  have "sorted_wrt (\<lambda>x y. fst x < fst y) ?es" using memkv.scan_sorted [OF assms(1)] by (simp add: sorted_wrt_map)
  then have "sorted_wrt (<) (map vector_rid ?es)"
    unfolding sorted_wrt_map by (rule sorted_wrt_mono_rel [rotated]) (use es in \<open>auto simp: Vector_def\<close>)
  moreover have "sorted_wrt (\<lambda>x y. fst x < fst y) ?ps" using memkv.scan_sorted [OF assms(1)] by (simp add: sorted_wrt_map)
  then have "sorted (map passage_rid ?ps)"
    unfolding sorted_map
  proof (rule sorted_wrt_mono_rel [rotated])
    fix x y
    assume "x \<in> set ?ps" "y \<in> set ?ps" "fst x < fst y"
    moreover from this obtain p q where "fst x = Passage t ?ns (passage_rid x) p" "fst y = Passage t ?ns (passage_rid y) q"
      using ps by meson
    ultimately show "passage_rid x \<le> passage_rid y" by (auto simp: Passage_def lex_simps)
  qed
  ultimately obtain ps' where "vec_scan_loop dec ''vector.Store.Scan'' (ScanEntries_step dec ''vector.Store.ScanEntries'' fn) ?es (?ps, a) =
      (case each fn a (concat (map (entries_of dec (\<lambda>rid. store_scan s (PassagesOfRange t ?ns rid))) ?es)) of (a', e) \<Rightarrow> ((ps', a'), e))"
    using ScanEntries_loop_eq [of ?es dec ?ps "\<lambda>rid. store_scan s (PassagesOfRange t ?ns rid)"] es ps
    by (fastforce simp: passages_of_record [OF assms(1-3)])
  moreover have "\<not> s_closed s" using assms(1) by (simp add: store_live_def)
  ultimately show ?thesis
    using assms(4) by (auto simp: ScanEntries_def vec_scan_def Let_def itr_entries_store store_NewIterator_def store_scan_def
        split: prod.splits option.splits)
qed

theorem ScanEntries_merges_witness:
  "ScanEntries (\<lambda>b. Some \<lparr>pv_ModelId = [77], pv_Dim = 1, pv_Values = [0]\<rparr>)
     (store_set New (Vector [97] DefaultNamespace 5) (headerFor [] CodecVectorProtobuf)) [97] (\<lambda>a k v. (a @ [k], None)) [] =
   ([(5, 0)], None)"
proof -
  let ?dec = "\<lambda>b :: bytes. Some \<lparr>pv_ModelId = [77], pv_Dim = 1, pv_Values = [0]\<rparr> :: pb_Vector option"
  let ?k = "Vector [97] DefaultNamespace 5" and ?v = "headerFor [] CodecVectorProtobuf" and ?ns = DefaultNamespace
  let ?s = "store_set New ?k ?v"
  have live: "store_live ?s" by (simp add: store_live_def store_ok_store_set)
  have keys: "s_keys ?s = [?k]" using s_keys_store_set [OF store_ok_New] by simp
  have scan: "store_scan ?s r = (if in_range r ?k then [(?k, ?v)] else [])" for r
    using live keys by (simp add: store_live_def store_scan_filter entry_def store_view_def)
  have ranges: "in_range (SpaceRange [97] ?ns SpaceVector) ?k" "\<not> in_range (SpaceRange [97] ?ns SpacePassage) ?k"
      "\<not> in_range (PassagesOfRange [97] ?ns rid) ?k" for rid
    by (auto simp: SpaceRange_def PassagesOfRange_def in_PrefixRange_iff Vector_def begin_key_def prefix_def
        SpaceVector_def SpacePassage_def)
  have "\<exists>vec. vec_Decode ?dec ?v = Inr vec"
    using checkHeaderCodec_headerFor [of CodecVectorProtobuf "[]"] by (simp add: vec_Decode_def UnmarshalVector_def Let_def)
  then have ok: "vectors_ok ?dec ?s [97] ?ns" by (auto simp: vectors_ok_def scan ranges)
  have fits: "scope_fits [97] ?ns" by (simp add: fits_def DefaultNamespace_def)
  show ?thesis
    using ScanEntries_merges [OF live fits ok, of "\<lambda>a k v. (a @ [k], None)" "[]"]
    by (simp add: scan ranges entries_of_def Vector_rid)
qed

end
