(* ===== verification/Records.thy ===== *)
theory Records
  imports Tenants Vectors
begin

text \<open>
  Canonical records, \<^verbatim>\<open>src/internal/record\<close>: the record and its defaults (\<^verbatim>\<open>record.go\<close>),
  the body encoding (\<^verbatim>\<open>repo_codec.go\<close>), the repository (\<^verbatim>\<open>repo.go\<close>), the passage
  indexer (\<^verbatim>\<open>passages.go\<close>) and the content source (\<^verbatim>\<open>source.go\<close>). The protobuf codecs are
  the fields of \<open>proto\<close>. The repository's upgrader, scheduler and indexers are Go interfaces and
  are functions here. A pointer that may be nil is an option; a map with string keys is an
  association list.
\<close>

section \<open>Records\<close>

text \<open>Floats as bit patterns: 0.5 and 100.\<close>

definition DefaultImportance :: "32 word" where "DefaultImportance = 0x3F000000"

definition DefaultHealth :: "32 word" where "DefaultHealth = 0x42C80000"

definition DefaultPolicy :: bytes where "DefaultPolicy = str ''short_term''"

definition VectorContent :: bytes where "VectorContent = str ''content''"

record Fields =
  f_Tags :: "bytes list"
  f_Source :: bytes
  f_Archived :: bool
  f_ArchivedAt :: time
  f_Policy :: bytes
  f_Importance :: "32 word"
  f_Health :: "32 word"
  f_Valence :: "32 word"
  f_Arousal :: "32 word"
  f_AccessedAt :: time
  f_AccessCount :: "32 word"
  f_LastRecalledAt :: time
  f_NextAttentionAt :: time
  f_TTL :: duration
  f_ProtectedUntil :: time
  f_LastDecayAt :: time
  f_LastHealthCheckAt :: time

definition WithDefaults :: "Fields \<Rightarrow> Fields" where
  "WithDefaults f =
     (if f_Policy f \<noteq> [] then f
      else f\<lparr>f_Policy := DefaultPolicy, f_Importance := DefaultImportance, f_Health := DefaultHealth\<rparr>)"

record Rec =
  rec_originalBody :: "bytes option"
  rec_projected :: bool
  rec_ID :: id
  rec_Tenant :: tenant
  rec_Namespace :: nspace
  rec_Type :: byte
  rec_Content :: bytes
  rec_Fields :: Fields
  rec_SchemaVersion :: "32 word"
  rec_Vectors :: "(bytes \<times> Vec option) list"
  rec_Passages :: "PassageRow list option"
  rec_CreatedAt :: time
  rec_UpdatedAt :: time

definition rec_namespace :: "Rec \<Rightarrow> nspace" where
  "rec_namespace r = (if rec_Namespace r = [] then DefaultNamespace else rec_Namespace r)"

definition BodyKey :: "tenant \<Rightarrow> nspace \<Rightarrow> id \<Rightarrow> bytes" where
  "BodyKey t ns rid = Record t ns RecordMemory rid"

definition VectorKey :: "tenant \<Rightarrow> nspace \<Rightarrow> id \<Rightarrow> bytes" where
  "VectorKey t ns rid = CanonicalKey t ns rid"

section \<open>The body\<close>

text \<open>
  The \<^verbatim>\<open>pb.Record\<close> message, its optional fields as options. The last field is what the runtime
  keeps of fields it does not know.
\<close>

record pb_Record =
  pbr_Id :: bytes
  pbr_SchemaVersion :: "32 word"
  pbr_Type :: "32 word"
  pbr_Content :: bytes
  pbr_CreatedAtUnixMs :: "64 word"
  pbr_UpdatedAtUnixMs :: "64 word"
  pbr_Tags :: "bytes list"
  pbr_Source :: "bytes option"
  pbr_Archived :: bool
  pbr_ArchivedAtUnixMs :: "64 word option"
  pbr_Policy :: bytes
  pbr_Importance :: "32 word"
  pbr_Health :: "32 word"
  pbr_EmotionalValence :: "32 word"
  pbr_Arousal :: "32 word"
  pbr_AccessedAtUnixMs :: "64 word"
  pbr_AccessCount :: "32 word"
  pbr_LastRecalledAtUnixMs :: "64 word option"
  pbr_NextAttentionAtUnixMs :: "64 word"
  pbr_TtlSecs :: "64 word option"
  pbr_ProtectedUntilUnixMs :: "64 word option"
  pbr_LastDecayAtUnixMs :: "64 word option"
  pbr_LastHealthCheckAtUnixMs :: "64 word option"
  pbr_unknownFields :: bytes

record proto =
  encR :: "pb_Record \<Rightarrow> bytes option"
  decR :: "bytes \<Rightarrow> pb_Record option"
  encV :: "pb_Vector \<Rightarrow> bytes option"
  decV :: "bytes \<Rightarrow> pb_Vector option"

text \<open>\<^verbatim>\<open>uint64(t.UnixMilli())\<close>.\<close>

definition ms64 :: "time \<Rightarrow> 64 word" where
  "ms64 t = word_of_int (UnixMilli t)"

definition rec_unixMs :: "time \<Rightarrow> 64 word" where
  "rec_unixMs t = (if t = 0 then 0 else ms64 t)"

definition rec_unixMilli :: "64 word \<Rightarrow> time" where
  "rec_unixMilli ms = (if ms = 0 then 0 else of_UnixMilli (sint ms))"

definition opt_ms :: "time \<Rightarrow> 64 word option" where
  "opt_ms t = (if t \<noteq> 0 then Some (ms64 t) else None)"

definition ttl_secs :: "duration \<Rightarrow> 64 word option" where
  "ttl_secs ttl =
     (if 0 < ttl then let secs = word_of_int (ttl div 1000000000) in
        Some (if ttl mod 1000000000 \<noteq> 0 then secs + 1 else secs)
      else None)"

definition body_of :: "Rec \<Rightarrow> pb_Record" where
  "body_of rec =
     (let f = WithDefaults (rec_Fields rec) in
      \<lparr>pbr_Id = id_bytes (rec_ID rec),
       pbr_SchemaVersion = (if rec_SchemaVersion rec = 0 then DefaultSchemaVersion else rec_SchemaVersion rec),
       pbr_Type = ucast (rec_Type rec), pbr_Content = rec_Content rec,
       pbr_CreatedAtUnixMs = ms64 (rec_CreatedAt rec), pbr_UpdatedAtUnixMs = ms64 (rec_UpdatedAt rec),
       pbr_Tags = f_Tags f, pbr_Source = (if f_Source f \<noteq> [] then Some (f_Source f) else None),
       pbr_Archived = f_Archived f, pbr_ArchivedAtUnixMs = opt_ms (f_ArchivedAt f),
       pbr_Policy = f_Policy f, pbr_Importance = f_Importance f, pbr_Health = f_Health f,
       pbr_EmotionalValence = f_Valence f, pbr_Arousal = f_Arousal f,
       pbr_AccessedAtUnixMs = rec_unixMs (f_AccessedAt f), pbr_AccessCount = f_AccessCount f,
       pbr_LastRecalledAtUnixMs = opt_ms (f_LastRecalledAt f),
       pbr_NextAttentionAtUnixMs = rec_unixMs (f_NextAttentionAt f),
       pbr_TtlSecs = ttl_secs (f_TTL f), pbr_ProtectedUntilUnixMs = opt_ms (f_ProtectedUntil f),
       pbr_LastDecayAtUnixMs = opt_ms (f_LastDecayAt f), pbr_LastHealthCheckAtUnixMs = opt_ms (f_LastHealthCheckAt f),
       pbr_unknownFields = []\<rparr>)"

definition encodeBody :: "proto \<Rightarrow> Rec \<Rightarrow> bytes res" where
  "encodeBody P rec = MarshalRecord (encR P) (Some (body_of rec))"

text \<open>The generated getters: an absent field reads as its zero value.\<close>

definition get_ms :: "64 word option \<Rightarrow> time" where
  "get_ms x = rec_unixMilli (case x of None \<Rightarrow> 0 | Some ms \<Rightarrow> ms)"

definition fields_of :: "pb_Record \<Rightarrow> Fields" where
  "fields_of b =
     \<lparr>f_Tags = pbr_Tags b, f_Source = (case pbr_Source b of None \<Rightarrow> [] | Some x \<Rightarrow> x), f_Archived = pbr_Archived b,
      f_ArchivedAt = get_ms (pbr_ArchivedAtUnixMs b), f_Policy = pbr_Policy b, f_Importance = pbr_Importance b,
      f_Health = pbr_Health b, f_Valence = pbr_EmotionalValence b, f_Arousal = pbr_Arousal b,
      f_AccessedAt = rec_unixMilli (pbr_AccessedAtUnixMs b), f_AccessCount = pbr_AccessCount b,
      f_LastRecalledAt = get_ms (pbr_LastRecalledAtUnixMs b),
      f_NextAttentionAt = rec_unixMilli (pbr_NextAttentionAtUnixMs b),
      f_TTL = sint ((case pbr_TtlSecs b of None \<Rightarrow> 0 | Some n \<Rightarrow> n) * 1000000000),
      f_ProtectedUntil = get_ms (pbr_ProtectedUntilUnixMs b), f_LastDecayAt = get_ms (pbr_LastDecayAtUnixMs b),
      f_LastHealthCheckAt = get_ms (pbr_LastHealthCheckAtUnixMs b)\<rparr>"

definition decodeBody :: "proto \<Rightarrow> tenant \<Rightarrow> nspace \<Rightarrow> id \<Rightarrow> bytes \<Rightarrow> string \<Rightarrow> Rec res" where
  "decodeBody P t ns rid val op =
     bindR (UnmarshalRecord (decR P) val) (\<lambda>b.
       if pbr_Id b \<noteq> id_bytes rid then fail Corruption op ''the record stored under this key says its id is another''
       else Inr \<lparr>rec_originalBody = Some val, rec_projected = False, rec_ID = rid, rec_Tenant = t, rec_Namespace = ns,
                 rec_Type = ucast (pbr_Type b), rec_Content = pbr_Content b, rec_Fields = WithDefaults (fields_of b),
                 rec_SchemaVersion = pbr_SchemaVersion b, rec_Vectors = [], rec_Passages = None,
                 rec_CreatedAt = rec_unixMilli (pbr_CreatedAtUnixMs b), rec_UpdatedAt = rec_unixMilli (pbr_UpdatedAtUnixMs b)\<rparr>)"

definition decodeVector :: "proto \<Rightarrow> bytes \<Rightarrow> string \<Rightarrow> Vec res" where
  "decodeVector P val op =
     (case vec_Decode (decV P) val of
        Inl e \<Rightarrow> Inl (Error (KindOf (Some e)) op (Wrapped ''the vector of record'' e))
      | Inr v \<Rightarrow> Inr v)"

section \<open>The repository\<close>

text \<open>The callback \<^verbatim>\<open>Put\<close> registers sets the record's original body once the write is committed.\<close>

datatype cb = OriginalBody bytes

type_synonym 'c indexer = "Store \<Rightarrow> tenant \<Rightarrow> nspace \<Rightarrow> id \<Rightarrow> Rec option \<Rightarrow> 'c tx \<Rightarrow> 'c tx \<times> error option"

record repo =
  rp_upgrader :: "(Rec \<Rightarrow> 32 word \<Rightarrow> (Rec \<times> 32 word \<times> bool) res) option"
  rp_indexers :: "cb indexer list"
  rp_scheduler :: "(tenant \<Rightarrow> Rec \<Rightarrow> time) option"

fun repo_index :: "'c indexer list \<Rightarrow> 'c indexer" where
  "repo_index [] s t ns rid rec tx = (tx, None)"
| "repo_index (ix # ixs) s t ns rid rec tx =
     (case ix s t ns rid rec tx of
        (tx', Some e) \<Rightarrow> (tx', Some e)
      | (tx', None) \<Rightarrow> repo_index ixs s t ns rid rec tx')"

fun vectors_fault :: "(bytes \<times> Vec option) list \<Rightarrow> string option" where
  "vectors_fault [] = None"
| "vectors_fault ((name, v) # vs) =
     (case v of
        None \<Rightarrow> Some ''vector is nil''
      | Some v \<Rightarrow>
          if vec_ModelID v = [] then Some ''vector carries no model id''
          else if vec_Dim v \<noteq> int (length (vec_Values v)) then Some ''vector declares another number of dimensions than it carries''
          else vectors_fault vs)"

definition rec_validate :: "tenant \<Rightarrow> Rec option \<Rightarrow> string \<Rightarrow> error option" where
  "rec_validate t rec op =
     (case rec of
        None \<Rightarrow> Some (err Invalid op ''record is nil'')
      | Some r \<Rightarrow>
          if rec_projected r then Some (err Invalid op ''this record was read with GetBodyFrom, which decodes only the fields a response shows'')
          else if id_IsZero (rec_ID r) then Some (err Invalid op ''a record must have an id'')
          else if rec_Tenant r \<noteq> [] \<and> rec_Tenant r \<noteq> t then Some (err Invalid op ''record belongs to another tenant'')
          else if rec_Type r = 0 then Some (err Invalid op ''a record must have a type'')
          else if rec_Content r = [] then Some (err Invalid op ''a record must have content'')
          else if rec_CreatedAt r = 0 then Some (err Invalid op ''a record must carry its creation time'')
          else case vectors_fault (rec_Vectors r) of
                 Some m \<Rightarrow> Some (err Invalid op m)
               | None \<Rightarrow> None)"

definition put_vector :: "proto \<Rightarrow> tenant \<Rightarrow> nspace \<Rightarrow> Rec \<Rightarrow> 'c tx \<Rightarrow> 'c tx \<times> error option" where
  "put_vector P t ns rec tx =
     (case map_of (rec_Vectors rec) VectorContent of
        Some (Some v) \<Rightarrow> vec_Stage (encV P) t ns (rec_ID rec) (Some v) tx
      | _ \<Rightarrow> (tx, None))"

definition scheduled :: "repo \<Rightarrow> tenant \<Rightarrow> Rec \<Rightarrow> Rec" where
  "scheduled rp t r =
     (case rp_scheduler rp of
        None \<Rightarrow> r
      | Some next \<Rightarrow> r\<lparr>rec_Fields := (rec_Fields r)\<lparr>f_NextAttentionAt := next t r\<rparr>\<rparr>)"

text \<open>The write is conditional on the body the record was read from, or on the one read now.\<close>

definition expect_body :: "Store \<Rightarrow> bytes \<Rightarrow> bytes option \<Rightarrow> 'c tx \<Rightarrow> 'c tx res" where
  "expect_body s key original tx =
     (case original of
        Some ob \<Rightarrow> Inr (tx_Expect key ob True tx)
      | None \<Rightarrow>
          (case tx_Get s tx key of
             Inl e \<Rightarrow> if Is (Some e) NotFound then Inr (tx_Expect key [] False tx) else Inl e
           | Inr old \<Rightarrow> Inr (tx_Expect key old True tx)))"

text \<open>The record is returned because the scheduler's answer is written into it.\<close>

definition repo_Put :: "proto \<Rightarrow> repo \<Rightarrow> ctx \<Rightarrow> Store \<Rightarrow> Rec option \<Rightarrow> cb tx \<Rightarrow> cb tx \<times> Rec option \<times> error option" where
  "repo_Put P rp x s rec tx = (let op = ''record.Put'' in
     case Require x of
       Inl e \<Rightarrow> (tx, rec, Some e)
     | Inr t \<Rightarrow>
         (case rec_validate t rec op of
            Some e \<Rightarrow> (tx, rec, Some e)
          | None \<Rightarrow>
              let ns = rec_namespace (the rec); r = scheduled rp t (the rec); key = BodyKey t ns (rec_ID r) in
              case encodeBody P r of
                Inl e \<Rightarrow> (tx, Some r, Some (Error Invalid op e))
              | Inr body \<Rightarrow>
                  (case expect_body s key (rec_originalBody r) tx of
                     Inl e \<Rightarrow> (tx, Some r, Some e)
                   | Inr tx1 \<Rightarrow>
                       (case put_vector P t ns r (snd (tx_OnCommit (OriginalBody body) (tx_Set key body tx1))) of
                          (tx2, Some e) \<Rightarrow> (tx2, Some r, Some e)
                        | (tx2, None) \<Rightarrow>
                            (case repo_index (rp_indexers rp) s t ns (rec_ID r) (Some r) tx2 of
                               (tx3, e) \<Rightarrow> (tx3, Some r, e))))))"

definition repo_Delete :: "repo \<Rightarrow> ctx \<Rightarrow> Store \<Rightarrow> id \<Rightarrow> cb tx \<Rightarrow> cb tx \<times> error option" where
  "repo_Delete rp x s rid tx =
     (case Require x of
        Inl e \<Rightarrow> (tx, Some e)
      | Inr t \<Rightarrow>
          let ns = DefaultNamespace; key = BodyKey t ns rid in
          case expect_body s key None tx of
            Inl e \<Rightarrow> (tx, Some e)
          | Inr tx1 \<Rightarrow>
              repo_index (rp_indexers rp) s t ns rid None (vec_StageDelete t ns rid (tx_Delete key tx1)))"

section \<open>Reads\<close>

fun run_cb :: "cb \<Rightarrow> Rec \<Rightarrow> Rec" where
  "run_cb (OriginalBody b) r = r\<lparr>rec_originalBody := Some b\<rparr>"

text \<open>
  The lazy upgrade: the store, the record as the caller gets it, and an error. Other writers may
  run before the commit; \<open>env\<close> is the store they leave. A failed write is only logged.
\<close>

definition repo_upgrade :: "proto \<Rightarrow> repo \<Rightarrow> ctx \<Rightarrow> (Store \<Rightarrow> Store) \<Rightarrow> Store \<Rightarrow> Rec \<Rightarrow> Store \<times> Rec \<times> error option" where
  "repo_upgrade P rp x env s rec =
     (case rp_upgrader rp of
        None \<Rightarrow> (s, rec, None)
      | Some u \<Rightarrow>
          (case u rec (rec_SchemaVersion rec) of
             Inl e \<Rightarrow> (s, rec, Some e)
           | Inr (rec', to, changed) \<Rightarrow>
               if \<not> changed then (s, rec', None)
               else case repo_Put P rp x s (Some (rec'\<lparr>rec_SchemaVersion := to\<rparr>)) (tx_New False) of
                      (tx, r, Some e) \<Rightarrow> (s, the r, None)
                    | (tx, r, None) \<Rightarrow>
                        (case tx_Commit (env s) tx of (s', tx', e, cbs) \<Rightarrow> (s', fold run_cb cbs (the r), None))))"

definition with_vector :: "Vec \<Rightarrow> Rec \<Rightarrow> Rec" where
  "with_vector v rec = rec\<lparr>rec_Vectors := (VectorContent, Some v) # rec_Vectors rec\<rparr>"

definition repo_Get :: "proto \<Rightarrow> repo \<Rightarrow> ctx \<Rightarrow> (Store \<Rightarrow> Store) \<Rightarrow> Store \<Rightarrow> id \<Rightarrow> Store \<times> Rec res" where
  "repo_Get P rp x env s rid = (let op = ''record.Get''; ns = DefaultNamespace in
     case Require x of
       Inl e \<Rightarrow> (s, Inl e)
     | Inr t \<Rightarrow>
         (case store_Get s (BodyKey t ns rid) of
            Inl e \<Rightarrow> (s, if Is (Some e) NotFound then fail NotFound op ''no record'' else Inl e)
          | Inr body \<Rightarrow>
              (case decodeBody P t ns rid body op of
                 Inl e \<Rightarrow> (s, Inl e)
               | Inr rec \<Rightarrow>
                   (case (case store_Get s (VectorKey t ns rid) of
                            Inr vec \<Rightarrow> bindR (decodeVector P vec op) (\<lambda>v. Inr (with_vector v rec))
                          | Inl e \<Rightarrow> if Is (Some e) NotFound then Inr rec else Inl e) of
                      Inl e \<Rightarrow> (s, Inl e)
                    | Inr rec \<Rightarrow>
                        (case repo_upgrade P rp x env s rec of
                           (s', rec', Some e) \<Rightarrow> (s', Inl e)
                         | (s', rec', None) \<Rightarrow> (s', Inr rec'))))))"

definition readBodyBytes :: "(bytes \<Rightarrow> bytes res) \<Rightarrow> tenant \<Rightarrow> nspace \<Rightarrow> id \<Rightarrow> string \<Rightarrow> bytes res" where
  "readBodyBytes from t ns rid op =
     (case from (BodyKey t ns rid) of
        Inl e \<Rightarrow> if Is (Some e) NotFound then fail NotFound op ''no record'' else Inl e
      | Inr body \<Rightarrow> Inr body)"

definition readBody :: "proto \<Rightarrow> (bytes \<Rightarrow> bytes res) \<Rightarrow> tenant \<Rightarrow> nspace \<Rightarrow> id \<Rightarrow> string \<Rightarrow> Rec res" where
  "readBody P from t ns rid op =
     bindR (readBodyBytes from t ns rid op) (\<lambda>body. decodeBody P t ns rid body op)"

definition repo_GetFrom :: "proto \<Rightarrow> ctx \<Rightarrow> snapshot \<Rightarrow> id \<Rightarrow> Rec res" where
  "repo_GetFrom P x snap rid = (let op = ''record.GetFrom''; ns = DefaultNamespace in
     bindR (Require x) (\<lambda>t.
     bindR (readBody P (snapshot_Get snap) t ns rid op) (\<lambda>rec.
       case snapshot_Get snap (VectorKey t ns rid) of
         Inr vec \<Rightarrow> bindR (decodeVector P vec op) (\<lambda>v. Inr (with_vector v rec))
       | Inl e \<Rightarrow> if Is (Some e) NotFound then Inr rec else Inl e)))"

definition bodyPrefix :: "tenant \<Rightarrow> nspace \<Rightarrow> bytes" where
  "bodyPrefix t ns = (let k = BodyKey t ns 0 in take (length k - 16) k)"

definition rec_successor :: "bytes \<Rightarrow> bytes" where
  "rec_successor k = k @ [0]"

fun scan_bodies :: "proto \<Rightarrow> tenant \<Rightarrow> nspace \<Rightarrow> string \<Rightarrow> int \<Rightarrow> (bytes \<times> bytes) list \<Rightarrow> Rec list \<Rightarrow> Rec list res" where
  "scan_bodies P t ns op limit [] out = Inr out"
| "scan_bodies P t ns op limit ((k, val) # es) out =
     (if \<not> int (length out) < limit then Inr out
      else case ParseRecord k of
             Inl e \<Rightarrow> Inl e
           | Inr (t', ns', typ, rid) \<Rightarrow>
               (case decodeBody P t ns rid val op of
                  Inl e \<Rightarrow> Inl e
                | Inr rec \<Rightarrow> scan_bodies P t ns op limit es (out @ [rec])))"

fun scan_vectors :: "proto \<Rightarrow> snapshot \<Rightarrow> tenant \<Rightarrow> nspace \<Rightarrow> string \<Rightarrow> Rec list \<Rightarrow> Rec list res" where
  "scan_vectors P snap t ns op [] = Inr []"
| "scan_vectors P snap t ns op (rec # recs) =
     (case (case snapshot_Get snap (VectorKey t ns (rec_ID rec)) of
              Inl e \<Rightarrow> if Is (Some e) NotFound then Inr rec else Inl e
            | Inr vec \<Rightarrow> bindR (decodeVector P vec op) (\<lambda>v. Inr (with_vector v rec))) of
        Inl e \<Rightarrow> Inl e
      | Inr rec' \<Rightarrow> bindR (scan_vectors P snap t ns op recs) (\<lambda>recs'. Inr (rec' # recs')))"

definition repo_Scan :: "proto \<Rightarrow> ctx \<Rightarrow> snapshot \<Rightarrow> id option \<Rightarrow> int \<Rightarrow> Rec list res" where
  "repo_Scan P x snap from limit = (let op = ''record.Scan''; ns = DefaultNamespace in
     bindR (Require x) (\<lambda>t.
       if limit \<le> 0 then fail Invalid op ''a scan limit must be greater than zero''
       else let (lower, upper) = PrefixRange (bodyPrefix t ns);
                lower = (case from of None \<Rightarrow> lower | Some rid \<Rightarrow> rec_successor (BodyKey t ns rid))
            in bindR (itr_entries (snapshot_NewIterator snap (Some lower) upper)) (\<lambda>es.
               bindR (scan_bodies P t ns op limit es []) (\<lambda>out. scan_vectors P snap t ns op out))))"

section \<open>The content source\<close>

definition scanPage :: int where "scanPage = 500"

fun each_record :: "('a \<Rightarrow> id \<Rightarrow> bytes \<Rightarrow> bytes list \<Rightarrow> 'a \<times> error option) \<Rightarrow> Rec list \<Rightarrow> 'a \<Rightarrow> 'a \<times> error option" where
  "each_record fn [] a = (a, None)"
| "each_record fn (rec # recs) a =
     (case fn a (rec_ID rec) (rec_Content rec) (f_Tags (rec_Fields rec)) of
        (a', Some e) \<Rightarrow> (a', Some e)
      | (a', None) \<Rightarrow> each_record fn recs a')"

partial_function (option) content_pages ::
    "proto \<Rightarrow> ctx \<Rightarrow> snapshot \<Rightarrow> ('a \<Rightarrow> id \<Rightarrow> bytes \<Rightarrow> bytes list \<Rightarrow> 'a \<times> error option) \<Rightarrow> id option \<Rightarrow> 'a \<Rightarrow>
     ('a \<times> error option) option" where
  "content_pages P x snap fn from a =
     (case repo_Scan P x snap from scanPage of
        Inl e \<Rightarrow> Some (a, Some e)
      | Inr page \<Rightarrow>
          if page = [] then Some (a, None)
          else case each_record fn page a of
                 (a', Some e) \<Rightarrow> Some (a', Some e)
               | (a', None) \<Rightarrow>
                   if int (length page) < scanPage then Some (a', None)
                   else content_pages P x snap fn (Some (rec_ID (last page))) a')"

definition ContentSource_Scan ::
    "proto \<Rightarrow> ctx \<Rightarrow> Store \<Rightarrow> tenant \<Rightarrow> nspace \<Rightarrow> ('a \<Rightarrow> id \<Rightarrow> bytes \<Rightarrow> bytes list \<Rightarrow> 'a \<times> error option) \<Rightarrow> 'a \<Rightarrow>
     ('a \<times> error option) option" where
  "ContentSource_Scan P x s t ns fn a = content_pages P (tenant_NewContext x t) (NewSnapshot s) fn None a"

section \<open>The passage indexer\<close>

text \<open>The passage loop is a partial function; a call that does not return is \<open>None\<close>.\<close>

definition passage_Stage ::
    "proto \<Rightarrow> Store \<Rightarrow> tenant \<Rightarrow> nspace \<Rightarrow> id \<Rightarrow> Rec option \<Rightarrow> 'c tx \<Rightarrow> ('c tx \<times> error option) option" where
  "passage_Stage P s t ns rid rec tx =
     (case rec of
        None \<Rightarrow> StageDeletePassages s t ns rid tx
      | Some r \<Rightarrow>
          (case rec_Passages r of
             None \<Rightarrow> Some (tx, None)
           | Some rows \<Rightarrow> StagePassages (encV P) s t ns rid rows tx))"

section \<open>A body decodes to what was stored\<close>

text \<open>What storage keeps of an instant and of a lifetime: milliseconds, and whole seconds rounded up.\<close>

definition stored_time :: "time \<Rightarrow> time" where
  "stored_time t = (if UnixMilli t = 0 then 0 else of_UnixMilli (UnixMilli t))"

definition stored_ttl :: "duration \<Rightarrow> duration" where
  "stored_ttl d = (if 0 < d then (d + 999999999) div 1000000000 * 1000000000 else 0)"

definition stored_fields :: "Fields \<Rightarrow> Fields" where
  "stored_fields f0 =
     (let f = WithDefaults f0 in
      f\<lparr>f_ArchivedAt := stored_time (f_ArchivedAt f), f_AccessedAt := stored_time (f_AccessedAt f),
        f_LastRecalledAt := stored_time (f_LastRecalledAt f), f_NextAttentionAt := stored_time (f_NextAttentionAt f),
        f_TTL := stored_ttl (f_TTL f), f_ProtectedUntil := stored_time (f_ProtectedUntil f),
        f_LastDecayAt := stored_time (f_LastDecayAt f), f_LastHealthCheckAt := stored_time (f_LastHealthCheckAt f)\<rparr>)"

definition time_ok :: "time \<Rightarrow> bool" where
  "time_ok t \<longleftrightarrow> - (2 ^ 63) \<le> UnixMilli t \<and> UnixMilli t < 2 ^ 63"

definition fields_ok :: "Fields \<Rightarrow> bool" where
  "fields_ok f \<longleftrightarrow>
     time_ok (f_ArchivedAt f) \<and> time_ok (f_AccessedAt f) \<and> time_ok (f_LastRecalledAt f) \<and> time_ok (f_NextAttentionAt f) \<and>
     time_ok (f_ProtectedUntil f) \<and> time_ok (f_LastDecayAt f) \<and> time_ok (f_LastHealthCheckAt f) \<and>
     f_TTL f \<le> 9223372036 * 1000000000"

lemma sint_word_of_int_64: "- (2 ^ 63) \<le> i \<Longrightarrow> i < 2 ^ 63 \<Longrightarrow> sint (word_of_int i :: 64 word) = i"
  by (simp add: sint_sbintrunc' signed_take_bit_int_eq_self)

lemma word_of_int_64_eq_0: "- (2 ^ 63) \<le> i \<Longrightarrow> i < 2 ^ 63 \<Longrightarrow> (word_of_int i :: 64 word) = 0 \<longleftrightarrow> i = 0"
  using sint_word_of_int_64 [of i] by (metis signed_0 word_of_int_0)

lemma unixMilli_ms64: "time_ok t \<Longrightarrow> rec_unixMilli (ms64 t) = stored_time t"
  by (simp add: time_ok_def rec_unixMilli_def ms64_def stored_time_def sint_word_of_int_64 word_of_int_64_eq_0)

lemma stored_time_0 [simp]: "stored_time 0 = 0"
  by (simp add: stored_time_def UnixMilli_def of_UnixMilli_def)

lemma stored_times [simp]:
  "time_ok t \<Longrightarrow> rec_unixMilli (rec_unixMs t) = stored_time t" "time_ok t \<Longrightarrow> get_ms (opt_ms t) = stored_time t"
  by (simp_all add: rec_unixMs_def get_ms_def opt_ms_def unixMilli_ms64) (simp_all add: rec_unixMilli_def)

lemma div_round_up:
  "(d + 999999999) div 1000000000 = (if d mod 1000000000 = 0 then d div 1000000000 else d div 1000000000 + 1)" for d :: int
proof -
  let ?q = "d div 1000000000" and ?r = "d mod 1000000000"
  have d: "d = ?q * 1000000000 + ?r" by simp
  have r: "0 \<le> ?r" "?r < 1000000000" by simp_all
  have "(d + 999999999) div 1000000000 = ?q + (?r + 999999999) div 1000000000"
    by (subst d) (simp only: add.assoc div_mult_self3 [of 1000000000] zero_neq_numeral not_False_eq_True)
  moreover have "(?r + 999999999) div 1000000000 = (if ?r = 0 then 0 else 1)"
    using r int_div_pos_eq [of "?r + 999999999" 1000000000 1 "?r - 1"] by auto
  ultimately show ?thesis by simp
qed

lemma stored_ttl_secs:
  assumes "d \<le> 9223372036 * 1000000000"
  shows "sint ((case ttl_secs d of None \<Rightarrow> 0 | Some n \<Rightarrow> n) * 1000000000) = stored_ttl d"
proof (cases "0 < d")
  case True
  let ?n = "(d + 999999999) div 1000000000"
  have n: "0 \<le> ?n * 1000000000" "?n * 1000000000 \<le> 9223372036 * 1000000000"
    using assms True by (auto intro!: mult_right_mono)
  have "ttl_secs d = Some (word_of_int ?n)"
    using True div_round_up [of d] by (simp add: ttl_secs_def Let_def)
  moreover have "(word_of_int ?n * 1000000000 :: 64 word) = word_of_int (?n * 1000000000)"
    by (simp only: wi_hom_mult [symmetric]) simp
  ultimately show ?thesis using sint_word_of_int_64 [of "?n * 1000000000"] n True by (simp add: stored_ttl_def)
qed (simp add: ttl_secs_def stored_ttl_def)

lemma stored_ttl_ge: "0 < d \<Longrightarrow> d \<le> stored_ttl d"
proof -
  assume "0 < d"
  define q r where "q = d div 1000000000" and "r = d mod 1000000000"
  have "stored_ttl d = (if r = 0 then q else q + 1) * 1000000000"
    using \<open>0 < d\<close> by (simp add: stored_ttl_def div_round_up q_def r_def)
  moreover have "d = q * 1000000000 + r" "r < 1000000000" by (simp_all add: q_def r_def)
  ultimately show ?thesis by (auto split: if_splits)
qed

lemma stored_fields_TTL: "0 < f_TTL f \<Longrightarrow> f_TTL f \<le> f_TTL (stored_fields f)"
  by (simp add: stored_fields_def WithDefaults_def Let_def stored_ttl_ge)

lemma WithDefaults_policy [simp]: "f_Policy (WithDefaults f) \<noteq> []"
  by (simp add: WithDefaults_def DefaultPolicy_def str_def)

lemma fields_ok_WithDefaults: "fields_ok (WithDefaults f) = fields_ok f"
  by (simp add: fields_ok_def WithDefaults_def)

lemma fields_of_body:
  assumes "fields_ok (rec_Fields rec)"
  shows "WithDefaults (fields_of (body_of rec)) = stored_fields (rec_Fields rec)"
proof -
  have ok: "fields_ok (WithDefaults (rec_Fields rec))" using assms by (simp add: fields_ok_WithDefaults)
  have "f_Policy (fields_of (body_of rec)) \<noteq> []" by (simp add: fields_of_def body_of_def Let_def)
  then have "WithDefaults (fields_of (body_of rec)) = fields_of (body_of rec)" by (simp add: WithDefaults_def)
  also have "\<dots> = stored_fields (rec_Fields rec)"
    using ok stored_ttl_secs
    by (cases "WithDefaults (rec_Fields rec)") (simp add: fields_ok_def fields_of_def body_of_def stored_fields_def Let_def)
  finally show ?thesis .
qed

lemma ucast_ucast_byte: "ucast (ucast (x :: byte) :: 32 word) = x"
  by (rule bit_word_eqI) (simp add: bit_simps)

definition proto_ok :: "proto \<Rightarrow> bool" where
  "proto_ok P \<longleftrightarrow> (\<forall>m b. encR P m = Some b \<longrightarrow> decR P b = Some m) \<and> (\<forall>m b. encV P m = Some b \<longrightarrow> decV P b = Some m)"

lemma UnmarshalRecord_Marshal:
  "proto_ok P \<Longrightarrow> MarshalRecord (encR P) (Some m) = Inr b \<Longrightarrow> UnmarshalRecord (decR P) b = Inr m"
  by (auto simp: MarshalRecord_Inr UnmarshalRecord_header proto_ok_def)

lemma decodeBody_encodeBody:
  assumes "proto_ok P" "fields_ok (rec_Fields rec)" "time_ok (rec_CreatedAt rec)" "time_ok (rec_UpdatedAt rec)"
    and "encodeBody P rec = Inr b"
  shows "decodeBody P t ns rid b op =
     (if rid \<noteq> rec_ID rec then fail Corruption op ''the record stored under this key says its id is another''
      else Inr (rec\<lparr>rec_originalBody := Some b, rec_projected := False, rec_Tenant := t, rec_Namespace := ns,
           rec_Fields := stored_fields (rec_Fields rec),
           rec_SchemaVersion := (if rec_SchemaVersion rec = 0 then DefaultSchemaVersion else rec_SchemaVersion rec),
           rec_Vectors := [], rec_Passages := None,
           rec_CreatedAt := stored_time (rec_CreatedAt rec), rec_UpdatedAt := stored_time (rec_UpdatedAt rec)\<rparr>))"
proof -
  have un: "UnmarshalRecord (decR P) b = Inr (body_of rec)"
    using assms(1,5) by (simp add: encodeBody_def UnmarshalRecord_Marshal)
  have "pbr_Id (body_of rec) = id_bytes (rec_ID rec)" "(ucast (pbr_Type (body_of rec)) :: byte) = rec_Type rec"
    "pbr_Content (body_of rec) = rec_Content rec"
    "pbr_SchemaVersion (body_of rec) = (if rec_SchemaVersion rec = 0 then DefaultSchemaVersion else rec_SchemaVersion rec)"
    "rec_unixMilli (pbr_CreatedAtUnixMs (body_of rec)) = stored_time (rec_CreatedAt rec)"
    "rec_unixMilli (pbr_UpdatedAtUnixMs (body_of rec)) = stored_time (rec_UpdatedAt rec)"
    using assms(3,4) by (simp_all add: body_of_def Let_def unixMilli_ms64 ucast_ucast_byte)
  then show ?thesis
    using un fields_of_body [OF assms(2)] by (cases rec) (simp add: decodeBody_def)
qed

text \<open>
  C27: a stored body reads back as the record that was written, at the precision of storage: times
  in whole milliseconds, the lifetime rounded up to whole seconds so that no finite one becomes
  none, a missing policy as the default one, and the schema version in force when the record named
  none. Under another id the same bytes are refused as corrupt.
\<close>

theorem body_roundtrip:
  assumes "proto_ok P" "fields_ok (rec_Fields rec)" "time_ok (rec_CreatedAt rec)" "time_ok (rec_UpdatedAt rec)"
    and "encodeBody P rec = Inr b"
  shows "decodeBody P t ns (rec_ID rec) b op =
      Inr (rec\<lparr>rec_originalBody := Some b, rec_projected := False, rec_Tenant := t, rec_Namespace := ns,
           rec_Fields := stored_fields (rec_Fields rec),
           rec_SchemaVersion := (if rec_SchemaVersion rec = 0 then DefaultSchemaVersion else rec_SchemaVersion rec),
           rec_Vectors := [], rec_Passages := None,
           rec_CreatedAt := stored_time (rec_CreatedAt rec), rec_UpdatedAt := stored_time (rec_UpdatedAt rec)\<rparr>) \<and>
    (rid \<noteq> rec_ID rec \<longrightarrow> (\<exists>e. decodeBody P t ns rid b op = Inl e \<and> is_kind e Corruption)) \<and>
    (0 < f_TTL (rec_Fields rec) \<longrightarrow> f_TTL (rec_Fields rec) \<le> f_TTL (stored_fields (rec_Fields rec)))"
  using decodeBody_encodeBody [OF assms] stored_fields_TTL by simp

text \<open>A record and a codec of its body, at which the claims below are applied.\<close>

definition sample_rec :: Rec where
  "sample_rec =
     \<lparr>rec_originalBody = None, rec_projected = False, rec_ID = 7, rec_Tenant = [97], rec_Namespace = DefaultNamespace,
      rec_Type = RecordMemory, rec_Content = [104, 105],
      rec_Fields = \<lparr>f_Tags = [], f_Source = [], f_Archived = False, f_ArchivedAt = 0, f_Policy = [], f_Importance = 0,
        f_Health = 0, f_Valence = 0, f_Arousal = 0, f_AccessedAt = 0, f_AccessCount = 0, f_LastRecalledAt = 0,
        f_NextAttentionAt = 0, f_TTL = 300000000, f_ProtectedUntil = 0, f_LastDecayAt = 0, f_LastHealthCheckAt = 0\<rparr>,
      rec_SchemaVersion = 0, rec_Vectors = [], rec_Passages = None, rec_CreatedAt = 63000000000000000000, rec_UpdatedAt = 0\<rparr>"

definition sample_proto :: proto where
  "sample_proto =
     \<lparr>encR = (\<lambda>m. if m = body_of sample_rec then Some [1]
              else if m = (body_of sample_rec)\<lparr>pbr_unknownFields := [9]\<rparr> then Some [2] else None),
      decR = (\<lambda>b. if b = [1] then Some (body_of sample_rec)
              else if b = [2] then Some ((body_of sample_rec)\<lparr>pbr_unknownFields := [9]\<rparr>) else None),
      encV = (\<lambda>m. None), decV = (\<lambda>b. None)\<rparr>"

lemma sample_unknown: "body_of sample_rec \<noteq> (body_of sample_rec)\<lparr>pbr_unknownFields := [9]\<rparr>"
proof
  assume "body_of sample_rec = (body_of sample_rec)\<lparr>pbr_unknownFields := [9]\<rparr>"
  then have "pbr_unknownFields (body_of sample_rec) = [9]" by (metis pb_Record.select_convs(24) pb_Record.surjective pb_Record.update_convs(24))
  then show False by (simp add: body_of_def Let_def)
qed

lemma sample_proto_ok: "proto_ok sample_proto"
  using sample_unknown by (auto simp: proto_ok_def sample_proto_def split: if_splits)

lemma sample_encodeBody: "encodeBody sample_proto sample_rec = Inr (header [] @ [1])"
  by (simp add: encodeBody_def MarshalRecord_def sample_proto_def Let_def)

lemma sample_rec_ok: "fields_ok (rec_Fields sample_rec)" "time_ok (rec_CreatedAt sample_rec)" "time_ok (rec_UpdatedAt sample_rec)"
  by (simp_all add: sample_rec_def fields_ok_def time_ok_def UnixMilli_def unix_epoch_ms_def)

theorem body_roundtrip_witness:
  "\<exists>r. decodeBody sample_proto [97] DefaultNamespace 7 (header [] @ [1]) ''op'' = Inr r \<and> rec_Content r = [104, 105] \<and>
     300000000 \<le> f_TTL (rec_Fields r) \<and> f_Policy (rec_Fields r) = DefaultPolicy"
proof -
  have r: "rec_ID sample_rec = 7" "rec_Content sample_rec = [104, 105]" "f_TTL (rec_Fields sample_rec) = 300000000"
    "f_Policy (stored_fields (rec_Fields sample_rec)) = DefaultPolicy"
    by (simp_all add: sample_rec_def stored_fields_def WithDefaults_def Let_def)
  from body_roundtrip [OF sample_proto_ok sample_rec_ok sample_encodeBody, of "[97]" DefaultNamespace "''op''" 7]
  show ?thesis by (simp add: r)
qed

text \<open>
  C28: reading a record and writing it back loses every field this binary does not know: the body
  that is written carries none, whatever the body that was read carried.
\<close>

theorem rewrite_drops_unknown_fields:
  assumes "proto_ok P" "decodeBody P t ns rid val op = Inr r" "encodeBody P r = Inr val'"
  shows "\<exists>m. UnmarshalRecord (decR P) val' = Inr m \<and> pbr_unknownFields m = []"
proof -
  have "UnmarshalRecord (decR P) val' = Inr (body_of r)" "pbr_unknownFields (body_of r) = []"
    using assms(1,3) by (simp_all add: encodeBody_def UnmarshalRecord_Marshal body_of_def Let_def)
  then show ?thesis by blast
qed

theorem rewrite_drops_unknown_fields_witness:
  "\<exists>r val' m0 m. UnmarshalRecord (decR sample_proto) (header [] @ [2]) = Inr m0 \<and> pbr_unknownFields m0 = [9] \<and>
     decodeBody sample_proto [97] DefaultNamespace 7 (header [] @ [2]) ''op'' = Inr r \<and> encodeBody sample_proto r = Inr val' \<and>
     UnmarshalRecord (decR sample_proto) val' = Inr m \<and> pbr_unknownFields m = []"
proof -
  let ?m = "(body_of sample_rec)\<lparr>pbr_unknownFields := [9]\<rparr>"
  have un: "UnmarshalRecord (decR sample_proto) (header [] @ [2]) = Inr ?m"
    by (simp add: UnmarshalRecord_header sample_proto_def)
  have id: "pbr_Id ?m = id_bytes 7" by (simp add: body_of_def sample_rec_def Let_def)
  obtain r where r: "decodeBody sample_proto [97] DefaultNamespace 7 (header [] @ [2]) ''op'' = Inr r"
    and r_def: "r = \<lparr>rec_originalBody = Some (header [] @ [2]), rec_projected = False, rec_ID = 7, rec_Tenant = [97],
        rec_Namespace = DefaultNamespace, rec_Type = ucast (pbr_Type ?m), rec_Content = pbr_Content ?m,
        rec_Fields = WithDefaults (fields_of ?m), rec_SchemaVersion = pbr_SchemaVersion ?m, rec_Vectors = [],
        rec_Passages = None, rec_CreatedAt = rec_unixMilli (pbr_CreatedAtUnixMs ?m),
        rec_UpdatedAt = rec_unixMilli (pbr_UpdatedAtUnixMs ?m)\<rparr>"
    using un id by (simp add: decodeBody_def)
  have "fields_of ?m = fields_of (body_of sample_rec)" by (simp add: fields_of_def)
  then have "WithDefaults (fields_of ?m) = stored_fields (rec_Fields sample_rec)"
    using fields_of_body [OF sample_rec_ok(1)] by simp
  then have "body_of r = body_of sample_rec"
    by (simp add: r_def body_of_def sample_rec_def stored_fields_def WithDefaults_def Let_def stored_ttl_def ttl_secs_def
        DefaultPolicy_def str_def DefaultSchemaVersion_def unixMilli_ms64 time_ok_def UnixMilli_def unix_epoch_ms_def
        rec_unixMilli_def ms64_def of_UnixMilli_def rec_unixMs_def opt_ms_def ucast_ucast_byte)
  then have "encodeBody sample_proto r = Inr (header [] @ [1])" using sample_encodeBody by (simp add: encodeBody_def)
  with rewrite_drops_unknown_fields [OF sample_proto_ok r] un r show ?thesis by fastforce
qed

section \<open>Writes stay within the record\<close>

text \<open>
  The contract of \<^verbatim>\<open>record.Indexer\<close>: whatever it stages for a record lies within the keys it owns
  for that record.
\<close>

locale record_indexer =
  fixes stage :: "'c indexer"
    and owned :: "tenant \<Rightarrow> nspace \<Rightarrow> id \<Rightarrow> bytes set"
  assumes stage_within: "stages_in s (owned t ns rid) tx (fst (stage s t ns rid rec tx))"
begin

lemma stage_live: "tx_live s tx \<Longrightarrow> tx_live s (fst (stage s t ns rid rec tx))"
  using stage_within stages_in_liveD by blast

lemma stage_frame: "tx_live s tx \<Longrightarrow> k \<notin> owned t ns rid \<Longrightarrow> tx_view s (fst (stage s t ns rid rec tx)) k = tx_view s tx k"
  using stage_within stages_in_viewD by blast

lemma stage_within_mono: "owned t ns rid \<subseteq> K \<Longrightarrow> stages_in s K tx (fst (stage s t ns rid rec tx))"
  using stage_within stages_in_mono by blast

end

definition passage_indexer :: "proto \<Rightarrow> 'c indexer" where
  "passage_indexer P s t ns rid rec tx = the (passage_Stage P s t ns rid rec tx)"

lemma passage_Stage_returns:
  "\<exists>tx' e. passage_Stage P s t ns rid rec tx = Some (tx', e) \<and> stages_in s (passage_keys t ns rid) tx tx'"
  using deletePassagesFrom_total [of s t ns rid 0 tx] StagePassages_within [of "encV P" s t ns rid _ tx]
  by (auto simp: passage_Stage_def StageDeletePassages_def split: option.splits)

interpretation passage_ix: record_indexer "passage_indexer P" passage_keys for P
proof
  fix s t ns rid rec tx
  show "stages_in s (passage_keys t ns rid) tx (fst (passage_indexer P s t ns rid rec tx))"
    using passage_Stage_returns [of P s t ns rid rec tx] by (auto simp: passage_indexer_def)
qed

definition within :: "'c indexer list \<Rightarrow> (tenant \<Rightarrow> nspace \<Rightarrow> id \<Rightarrow> bytes set) \<Rightarrow> bool" where
  "within ixs K \<longleftrightarrow> (\<forall>ix\<in>set ixs. \<forall>s t ns rid rec tx. stages_in s (K t ns rid) tx (fst (ix s t ns rid rec tx)))"

lemma repo_index_within:
  assumes "within ixs K"
  shows "stages_in s (K t ns rid) tx (fst (repo_index ixs s t ns rid rec tx))"
  using assms
proof (induction ixs arbitrary: tx)
  case (Cons ix ixs)
  obtain tx1 e1 where tx1: "ix s t ns rid rec tx = (tx1, e1)" by force
  then have "stages_in s (K t ns rid) tx tx1"
    using Cons.prems unfolding within_def by (metis fst_conv list.set_intros(1))
  moreover have "stages_in s (K t ns rid) tx1 (fst (repo_index ixs s t ns rid rec tx1))"
    using Cons by (simp add: within_def)
  ultimately show ?case using tx1 by (cases e1) (auto intro: stages_in_trans)
qed simp

definition record_keys :: "(tenant \<Rightarrow> nspace \<Rightarrow> id \<Rightarrow> bytes set) \<Rightarrow> tenant \<Rightarrow> nspace \<Rightarrow> id \<Rightarrow> bytes set" where
  "record_keys K t ns rid = insert (BodyKey t ns rid) (insert (VectorKey t ns rid) (K t ns rid))"

lemma put_vector_within:
  "rec_ID rec = rid \<Longrightarrow> stages_in s (record_keys K t ns rid) tx (fst (put_vector P t ns rec tx))"
  by (auto simp: put_vector_def vec_Stage_def record_keys_def VectorKey_def
      split: option.splits sum.splits intro!: stages_in_Set)

lemma scheduled_simps [simp]:
  "rec_ID (scheduled rp t r) = rec_ID r" "rec_originalBody (scheduled rp t r) = rec_originalBody r"
  "rec_Vectors (scheduled rp t r) = rec_Vectors r" "rec_namespace (scheduled rp t r) = rec_namespace r"
  by (simp_all add: scheduled_def rec_namespace_def split: option.splits)

text \<open>What a successful \<^verbatim>\<open>Put\<close> went through.\<close>

lemma repo_Put_ok:
  assumes "repo_Put P rp x s (Some r) tx = (tx', rec', None)"
  obtains t body tx1 tx2 where "Require x = Inr t" "rec_validate t (Some r) ''record.Put'' = None"
    "rec' = Some (scheduled rp t r)" "encodeBody P (scheduled rp t r) = Inr body"
    "expect_body s (BodyKey t (rec_namespace r) (rec_ID r)) (rec_originalBody r) tx = Inr tx1"
    "put_vector P t (rec_namespace r) (scheduled rp t r)
       (snd (tx_OnCommit (OriginalBody body) (tx_Set (BodyKey t (rec_namespace r) (rec_ID r)) body tx1))) = (tx2, None)"
    "repo_index (rp_indexers rp) s t (rec_namespace r) (rec_ID r) (Some (scheduled rp t r)) tx2 = (tx', None)"
proof (cases "Require x")
  case (Inr t)
  note t = this
  from assms t obtain body tx1 where "rec_validate t (Some r) ''record.Put'' = None" "encodeBody P (scheduled rp t r) = Inr body"
      "expect_body s (BodyKey t (rec_namespace r) (rec_ID r)) (rec_originalBody r) tx = Inr tx1"
    by (simp add: repo_Put_def Let_def split: option.splits sum.splits)
  with assms t that show thesis by (auto simp: repo_Put_def Let_def split: prod.splits option.splits)
qed (use assms in \<open>simp add: repo_Put_def\<close>)

lemma expect_body_Inr:
  assumes "expect_body s key ob tx = Inr tx1"
  obtains v ex where "tx1 = tx_Expect key v ex tx"
    "tx_live s tx \<Longrightarrow> (if ex then Some v else None) = (case ob of Some b \<Rightarrow> Some b | None \<Rightarrow> tx_view s tx key)"
proof (cases ob)
  case None
  show thesis
  proof (cases "tx_Get s tx key")
    case (Inl e)
    then show thesis using that [of "[]" False] assms None tx_Get_Inl [of s tx key e]
      by (auto simp: expect_body_def split: if_splits)
  next
    case (Inr old)
    then show thesis using that [of old True] assms None tx_Get_view [of s tx key old] by (simp add: expect_body_def)
  qed
qed (use that [of _ True] assms in \<open>auto simp: expect_body_def\<close>)

lemma repo_Put_within:
  assumes "within (rp_indexers rp) K" "repo_Put P rp x s (Some r) tx = (tx', rec', None)" "Require x = Inr t"
  shows "stages_in s (record_keys K t (rec_namespace r) (rec_ID r)) tx tx'"
proof -
  let ?ns = "rec_namespace r" and ?id = "rec_ID r"
  let ?K = "record_keys K t ?ns ?id" and ?key = "BodyKey t ?ns ?id"
  from assms(2) obtain t' body tx1 tx2 where st: "Require x = Inr t'"
    "expect_body s (BodyKey t' ?ns ?id) (rec_originalBody r) tx = Inr tx1"
    "put_vector P t' ?ns (scheduled rp t' r) (snd (tx_OnCommit (OriginalBody body) (tx_Set (BodyKey t' ?ns ?id) body tx1))) = (tx2, None)"
    "repo_index (rp_indexers rp) s t' ?ns ?id (Some (scheduled rp t' r)) tx2 = (tx', None)"
    by (elim repo_Put_ok)
  have [simp]: "t' = t" using st(1) assms(3) by simp
  obtain v ex where "tx1 = tx_Expect ?key v ex tx" using st(2) by (auto elim: expect_body_Inr)
  then have "stages_in s ?K tx tx1" by (simp add: stages_in_Expect)
  have 2: "stages_in s ?K tx1 (tx_Set ?key body tx1)" by (rule stages_in_Set) (simp add: record_keys_def)
  have 3: "stages_in s ?K (tx_Set ?key body tx1) tx2"
    using put_vector_within [of "scheduled rp t r" ?id s K t ?ns _ P] st(3) stages_in_trans [OF stages_in_callbacks(1)]
    by (metis \<open>t' = t\<close> fst_conv scheduled_simps(1))
  have 4: "stages_in s ?K tx2 tx'"
    using repo_index_within [OF assms(1), of s t ?ns ?id tx2 "Some (scheduled rp t r)"] st(4)
    by (auto simp: record_keys_def intro: stages_in_mono)
  show ?thesis using \<open>stages_in s ?K tx tx1\<close> 2 3 4 by (blast intro: stages_in_trans)
qed

lemma tx_live_other: "tx_live s tx \<Longrightarrow> \<not> s_closed s' \<Longrightarrow> tx_live s' tx"
  by (simp add: tx_live_def)

lemma repo_Put_condition:
  assumes "within (rp_indexers rp) K" "repo_Put P rp x s (Some r) (tx_New sync) = (tx', rec', None)"
    "Require x = Inr t" "\<not> s_closed s"
  shows "\<exists>c\<in>set (tx_conds tx'). c_key c = BodyKey t (rec_namespace r) (rec_ID r) \<and>
    (if c_exists c then Some (c_value c) else None) =
      (case rec_originalBody r of Some b \<Rightarrow> Some b | None \<Rightarrow> s_data s (BodyKey t (rec_namespace r) (rec_ID r)))"
proof -
  let ?ns = "rec_namespace r" and ?id = "rec_ID r" and ?new = "tx_New sync :: cb tx"
  let ?K = "record_keys K t ?ns ?id" and ?key = "BodyKey t ?ns ?id"
  from assms(2) obtain t' body tx1 tx2 where st: "Require x = Inr t'"
    "expect_body s (BodyKey t' ?ns ?id) (rec_originalBody r) ?new = Inr tx1"
    "put_vector P t' ?ns (scheduled rp t' r) (snd (tx_OnCommit (OriginalBody body) (tx_Set (BodyKey t' ?ns ?id) body tx1))) = (tx2, None)"
    "repo_index (rp_indexers rp) s t' ?ns ?id (Some (scheduled rp t' r)) tx2 = (tx', None)"
    by (elim repo_Put_ok)
  have t: "t' = t" using st(1) assms(3) by simp
  obtain v ex where tx1: "tx1 = tx_Expect ?key v ex ?new"
      "(if ex then Some v else None) = (case rec_originalBody r of Some b \<Rightarrow> Some b | None \<Rightarrow> s_data s ?key)"
    using expect_body_Inr [OF st(2) [unfolded t]] assms(4) by (metis tx_live_New tx_view_New)
  let ?c = "\<lparr>c_key = ?key, c_value = v, c_exists = ex\<rparr>"
  have "?c \<in> set (tx_conds tx1)"
    unfolding tx1(1) by (rule tx_Expect_new) (simp_all add: tx_New_def NewBatch_def tx_spent_def)
  moreover have live1: "tx_live s tx1" using assms(4) unfolding tx1(1) by (simp add: staging)
  let ?tx = "snd (tx_OnCommit (OriginalBody body) (tx_Set ?key body tx1))"
  have "stages_in s ?K ?tx tx2"
    using put_vector_within [of "scheduled rp t r" ?id s K t ?ns ?tx P] st(3) unfolding t by simp
  moreover have "stages_in s (K t ?ns ?id) tx2 tx'"
    using repo_index_within [OF assms(1), of s t ?ns ?id tx2 "Some (scheduled rp t r)"] st(4) unfolding t by simp
  moreover have "tx_conds ?tx = tx_conds tx1" "tx_live s ?tx" using live1 by (simp_all add: staging)
  ultimately have "?c \<in> set (tx_conds tx')"
    using stages_in_condsD [of s ?K ?tx tx2] stages_in_condsD [of s "K t ?ns ?id" tx2 tx'] stages_in_liveD [of s ?K ?tx tx2]
    by auto
  then show ?thesis using tx1(2) by (intro bexI [of _ ?c]) (simp_all only: condition.select_convs simp_thms)
qed

text \<open>
  C29: a record write never overwrites a change it has not seen. A record that was read carries the
  body it was read from; one that was not is compared with the body found when it is staged. If the
  stored body is another one when the transaction commits, the commit is refused as a conflict and
  nothing of the write, its vector or its index entries is stored.
\<close>

theorem stale_write_refused:
  assumes "within (rp_indexers rp) K" "repo_Put P rp x s (Some r) (tx_New sync) = (tx, rec', None)"
    and "Require x = Inr t" "\<not> s_closed s" "\<not> s_closed s'"
    and "s_data s' (BodyKey t (rec_namespace r) (rec_ID r)) \<noteq>
      (case rec_originalBody r of Some b \<Rightarrow> Some b | None \<Rightarrow> s_data s (BodyKey t (rec_namespace r) (rec_ID r)))"
  shows "\<exists>e. tx_Commit s' tx = (s', tx, Some e, []) \<and> is_kind e Conflict"
proof -
  obtain c where c: "c \<in> set (tx_conds tx)" "c_key c = BodyKey t (rec_namespace r) (rec_ID r)"
    "(if c_exists c then Some (c_value c) else None) =
      (case rec_originalBody r of Some b \<Rightarrow> Some b | None \<Rightarrow> s_data s (BodyKey t (rec_namespace r) (rec_ID r)))"
    using repo_Put_condition [OF assms(1-4)] by blast
  then have "condition_fails s' c" using assms(6) by (simp add: condition_fails_iff)
  moreover have "tx_live s' tx"
    using repo_Put_within [OF assms(1-3)] stages_in_liveD tx_live_other assms(4,5) by (metis tx_live_New)
  ultimately show ?thesis using c(1) by (meson tx_Commit_conflict)
qed

lemma sample_Put:
  "\<exists>tx r. repo_Put sample_proto \<lparr>rp_upgrader = None, rp_indexers = [], rp_scheduler = None\<rparr>
     \<lparr>ctx_claim = c, ctx_tenant = Some [97]\<rparr> New (Some sample_rec) (tx_New True) = (tx, r, None)"
proof -
  have "Require \<lparr>ctx_claim = c, ctx_tenant = Some [97]\<rparr> = Inr [97]"
    by (simp add: Require_def tenant_FromContext_def tenant_Valid_def validate_def MaxIDLen_def valid_char_def)
  moreover have "rec_validate [97] (Some sample_rec) ''record.Put'' = None"
    by (simp add: rec_validate_def sample_rec_def id_IsZero_def RecordMemory_def)
  moreover obtain tx where "expect_body New (BodyKey [97] (rec_namespace sample_rec) (rec_ID sample_rec))
      (rec_originalBody sample_rec) (tx_New True :: cb tx) = Inr tx"
    by (simp add: expect_body_def sample_rec_def tx_Get_def tx_usable_def tx_New_def batch_Get_def NewBatch_def store_Get_def
        lookup_def fail_def)
  moreover have "put_vector sample_proto [97] ns sample_rec tx = (tx, None)" for ns and tx :: "cb tx"
    by (simp add: put_vector_def sample_rec_def)
  ultimately show ?thesis
    using sample_encodeBody by (simp add: repo_Put_def Let_def scheduled_def)
qed

theorem stale_write_refused_witness:
  "\<exists>tx r e. repo_Put sample_proto \<lparr>rp_upgrader = None, rp_indexers = [], rp_scheduler = None\<rparr>
       \<lparr>ctx_claim = None, ctx_tenant = Some [97]\<rparr> New (Some sample_rec) (tx_New True) = (tx, r, None) \<and>
     tx_Commit (store_set New (BodyKey [97] DefaultNamespace 7) [5]) tx =
       (store_set New (BodyKey [97] DefaultNamespace 7) [5], tx, Some e, []) \<and> is_kind e Conflict"
proof -
  let ?rp = "\<lparr>rp_upgrader = None, rp_indexers = [], rp_scheduler = None\<rparr>" and ?x = "\<lparr>ctx_claim = None, ctx_tenant = Some [97]\<rparr>"
  obtain tx r where put: "repo_Put sample_proto ?rp ?x New (Some sample_rec) (tx_New True) = (tx, r, None)"
    using sample_Put by blast
  have x: "Require ?x = Inr [97]"
    by (simp add: Require_def tenant_FromContext_def tenant_Valid_def validate_def MaxIDLen_def valid_char_def)
  have w: "within (rp_indexers ?rp) (\<lambda>t ns rid. {})" by (simp add: within_def)
  have r: "rec_namespace sample_rec = DefaultNamespace" "rec_ID sample_rec = 7" "rec_originalBody sample_rec = None"
    by (simp_all add: sample_rec_def rec_namespace_def DefaultNamespace_def str_def)
  from stale_write_refused [OF w put x, of "store_set New (BodyKey [97] DefaultNamespace 7) [5]"] put
  show ?thesis by (auto simp: r)
qed

section \<open>The content source visits every record once\<close>

lemma less_snoc_0: "k < x @ [0] \<longleftrightarrow> k \<le> x" for x :: bytes
proof (induction x arbitrary: k)
  case Nil
  then show ?case by (cases k) auto
next
  case (Cons b x)
  then show ?case by (cases k) auto
qed

lemma bodyPrefix_BodyKey: "BodyKey t ns rid = bodyPrefix t ns @ id_bytes rid"
  by (simp add: bodyPrefix_def BodyKey_def Record_def Let_def)

definition record_in :: "proto \<Rightarrow> view \<Rightarrow> tenant \<Rightarrow> nspace \<Rightarrow> id \<Rightarrow> Rec \<Rightarrow> bool" where
  "record_in P v t ns rid r \<longleftrightarrow>
     (\<exists>b. v_data v (BodyKey t ns rid) = Some b \<and> decodeBody P t ns rid b ''record.Scan'' = Inr r) \<and>
     (\<forall>vec. v_data v (VectorKey t ns rid) = Some vec \<longrightarrow> (\<exists>w. decodeVector P vec ''record.Scan'' = Inr w))"

text \<open>Every body key is one the repository builds, and its rows decode.\<close>

definition records_ok :: "proto \<Rightarrow> view \<Rightarrow> tenant \<Rightarrow> nspace \<Rightarrow> bool" where
  "records_ok P v t ns \<longleftrightarrow>
     (\<forall>k\<in>set (v_keys v). prefix (bodyPrefix t ns) k \<longrightarrow> (\<exists>rid r. k = BodyKey t ns rid \<and> record_in P v t ns rid r))"

definition record_ids :: "view \<Rightarrow> tenant \<Rightarrow> nspace \<Rightarrow> id list" where
  "record_ids v t ns = map (\<lambda>k. unbe (drop (length (bodyPrefix t ns)) k)) (filter (prefix (bodyPrefix t ns)) (v_keys v))"

definition record_at :: "proto \<Rightarrow> view \<Rightarrow> tenant \<Rightarrow> nspace \<Rightarrow> id \<Rightarrow> Rec" where
  "record_at P v t ns rid =
     (case decodeBody P t ns rid (the (v_data v (BodyKey t ns rid))) ''record.Scan'' of Inr r \<Rightarrow> r | Inl e \<Rightarrow> undefined)"

lemma unbe_id_bytes [simp]: "unbe (id_bytes rid) = rid"
  by (simp add: id_bytes_def)

lemma body_keys_ids:
  assumes "records_ok P v t ns"
  shows "filter (prefix (bodyPrefix t ns)) (v_keys v) = map (BodyKey t ns) (record_ids v t ns)"
proof -
  have "BodyKey t ns (unbe (drop (length (bodyPrefix t ns)) k)) = k" if "k \<in> set (filter (prefix (bodyPrefix t ns)) (v_keys v))" for k
    using assms that by (auto simp: records_ok_def bodyPrefix_BodyKey)
  then show ?thesis unfolding record_ids_def map_map by (intro map_idI [symmetric]) simp
qed

lemma record_ids_sorted: "view_ok v \<Longrightarrow> records_ok P v t ns \<Longrightarrow> sorted_wrt (<) (record_ids v t ns)"
  using sorted_wrt_filter_less [of "v_keys v" "prefix (bodyPrefix t ns)"] body_keys_ids [of P v t ns]
  by (simp add: view_ok_def sorted_wrt_map bodyPrefix_BodyKey)

lemma record_ids_record:
  assumes "records_ok P v t ns" "rid \<in> set (record_ids v t ns)"
  shows "record_in P v t ns rid (record_at P v t ns rid)"
proof -
  have "BodyKey t ns rid \<in> set (filter (prefix (bodyPrefix t ns)) (v_keys v))"
    using assms(2) by (simp only: body_keys_ids [OF assms(1)] set_map) blast
  then obtain rid' r where "BodyKey t ns rid = BodyKey t ns rid'" "record_in P v t ns rid' r"
    using assms(1) by (auto simp: records_ok_def)
  then show ?thesis by (auto simp: record_in_def record_at_def bodyPrefix_BodyKey)
qed

lemma record_ids_set:
  assumes "view_ok v" "records_ok P v t ns"
  shows "set (record_ids v t ns) = {rid. v_data v (BodyKey t ns rid) \<noteq> None}"
proof -
  have "BodyKey t ns ` set (record_ids v t ns) = set (filter (prefix (bodyPrefix t ns)) (v_keys v))"
    by (simp only: body_keys_ids [OF assms(2)] set_map)
  also have "\<dots> = {k. v_data v k \<noteq> None \<and> prefix (bodyPrefix t ns) k}" using assms(1) by (auto simp: view_ok_def dom_def)
  finally have eq: "BodyKey t ns ` set (record_ids v t ns) = {k. v_data v k \<noteq> None \<and> prefix (bodyPrefix t ns) k}" .
  have "rid \<in> set (record_ids v t ns) \<longleftrightarrow> BodyKey t ns rid \<in> BodyKey t ns ` set (record_ids v t ns)" for rid
    by (auto simp: bodyPrefix_BodyKey)
  then show ?thesis unfolding eq by (auto simp: bodyPrefix_BodyKey)
qed

lemma decodeBody_ID: "decodeBody P t ns rid b op = Inr r \<Longrightarrow> rec_ID r = rid"
  by (auto simp: decodeBody_def bindR_eq_Inr split: if_splits)

lemma scan_bodies_eq:
  assumes "scope_fits t ns" "\<forall>rid\<in>set ids. record_in P v t ns rid (record_at P v t ns rid)"
  shows "scan_bodies P t ns ''record.Scan'' limit (map (\<lambda>rid. entry v (BodyKey t ns rid)) ids) out =
    Inr (out @ take (nat (limit - int (length out))) (map (record_at P v t ns) ids))"
  using assms(2)
proof (induction ids arbitrary: out)
  case (Cons rid ids)
  obtain b where b: "v_data v (BodyKey t ns rid) = Some b" "decodeBody P t ns rid b ''record.Scan'' = Inr (record_at P v t ns rid)"
    using Cons.prems by (auto simp: record_in_def)
  have parse: "ParseRecord (BodyKey t ns rid) = Inr (t, ns, RecordMemory, rid)"
    using assms(1) by (simp add: BodyKey_def ParseRecord_iff)
  show ?case
  proof (cases "int (length out) < limit")
    case True
    then have "nat (limit - int (length out)) = Suc (nat (limit - int (length (out @ [record_at P v t ns rid]))))" by simp
    then show ?thesis using True Cons b parse by (simp add: entry_def)
  next
    case False
    then show ?thesis by (simp add: entry_def)
  qed
qed simp

lemma scan_vectors_eq:
  assumes "\<forall>rid\<in>set ids. record_in P v t ns rid (record_at P v t ns rid)"
  shows "\<exists>recs. scan_vectors P (Some v) t ns ''record.Scan'' (map (record_at P v t ns) ids) = Inr recs \<and>
    list_all2 (\<lambda>rid r. r = record_at P v t ns rid \<or> (\<exists>w. r = with_vector w (record_at P v t ns rid))) ids recs"
  using assms
proof (induction ids)
  case (Cons rid ids)
  then obtain recs where IH: "scan_vectors P (Some v) t ns ''record.Scan'' (map (record_at P v t ns) ids) = Inr recs"
    "list_all2 (\<lambda>rid r. r = record_at P v t ns rid \<or> (\<exists>w. r = with_vector w (record_at P v t ns rid))) ids recs"
    by auto
  have rin: "record_in P v t ns rid (record_at P v t ns rid)" using Cons.prems by simp
  then have id: "rec_ID (record_at P v t ns rid) = rid" by (auto simp: record_in_def dest: decodeBody_ID)
  show ?case
  proof (cases "v_data v (VectorKey t ns rid)")
    case None
    then show ?thesis using IH id by (simp add: snapshot_Get_def lookup_def fail_def)
  next
    case (Some vec)
    then obtain w where "decodeVector P vec ''record.Scan'' = Inr w" using rin by (auto simp: record_in_def)
    then show ?thesis using IH id Some by (auto simp: snapshot_Get_def lookup_def)
  qed
qed simp

abbreviation after :: "id option \<Rightarrow> id \<Rightarrow> bool" where
  "after from rid \<equiv> (case from of None \<Rightarrow> True | Some f \<Rightarrow> f < rid)"

definition same_record :: "proto \<Rightarrow> view \<Rightarrow> tenant \<Rightarrow> nspace \<Rightarrow> id \<Rightarrow> Rec \<Rightarrow> bool" where
  "same_record P v t ns rid r \<longleftrightarrow> r = record_at P v t ns rid \<or> (\<exists>w. r = with_vector w (record_at P v t ns rid))"

lemma record_in_ID: "record_in P v t ns rid r \<Longrightarrow> rec_ID r = rid"
  by (auto simp: record_in_def dest: decodeBody_ID)

lemma same_record_ID: "same_record P v t ns rid r \<Longrightarrow> rec_ID r = rec_ID (record_at P v t ns rid)"
  by (auto simp: same_record_def with_vector_def)

lemma scan_range_keys:
  "in_range (bound_range (Some (case from of None \<Rightarrow> fst (PrefixRange (bodyPrefix t ns)) | Some f \<Rightarrow> rec_successor (BodyKey t ns f)))
      (snd (PrefixRange (bodyPrefix t ns)))) k \<longleftrightarrow>
     prefix (bodyPrefix t ns) k \<and> (case from of None \<Rightarrow> True | Some f \<Rightarrow> BodyKey t ns f < k)"
proof (cases "from")
  case None
  then show ?thesis using in_PrefixRange_iff [of "bodyPrefix t ns" k] by (simp add: bound_range_def in_range_alt)
next
  case (Some f)
  have le: "bodyPrefix t ns \<le> BodyKey t ns f"
    using in_PrefixRange_iff [of "bodyPrefix t ns" "BodyKey t ns f"] by (simp add: in_range_alt bodyPrefix_BodyKey)
  have "rec_successor (BodyKey t ns f) \<le> k \<longleftrightarrow> BodyKey t ns f < k"
    using less_snoc_0 [of k "BodyKey t ns f"] by (auto simp: rec_successor_def not_less [symmetric])
  then show ?thesis
    using Some le in_PrefixRange_iff [of "bodyPrefix t ns" k] by (auto simp: bound_range_def in_range_alt)
qed

lemma repo_Scan_eq:
  assumes "view_ok v" "records_ok P v t DefaultNamespace" "Require x = Inr t" "fits t" "0 < limit"
  shows "\<exists>recs. repo_Scan P x (Some v) from limit = Inr recs \<and>
    list_all2 (same_record P v t DefaultNamespace) (take (nat limit) (filter (after from) (record_ids v t DefaultNamespace))) recs"
proof -
  let ?ns = DefaultNamespace and ?p = "bodyPrefix t DefaultNamespace"
  let ?ids = "filter (after from) (record_ids v t ?ns)"
  let ?lo = "case from of None \<Rightarrow> fst (PrefixRange ?p) | Some f \<Rightarrow> rec_successor (BodyKey t ?ns f)"
  have fits: "scope_fits t ?ns" using assms(4) by (simp add: fits_def DefaultNamespace_def)
  have "filter (in_range (bound_range (Some ?lo) (snd (PrefixRange ?p)))) (v_keys v) =
      filter (\<lambda>k. case from of None \<Rightarrow> True | Some f \<Rightarrow> BodyKey t ?ns f < k) (filter (prefix ?p) (v_keys v))"
    unfolding filter_filter by (intro filter_cong) (simp_all only: scan_range_keys)
  also have "\<dots> = map (BodyKey t ?ns) ?ids"
    unfolding body_keys_ids [OF assms(2)] filter_map comp_def
    by (intro arg_cong [where f = "map _"] filter_cong) (auto simp: bodyPrefix_BodyKey split: option.splits)
  finally have "iter_entries (newIter v (Some ?lo) (snd (PrefixRange ?p))) = map (\<lambda>rid. entry v (BodyKey t ?ns rid)) ?ids"
    unfolding iter_entries_newIter [OF assms(1)] by (simp add: comp_def)
  moreover have rin: "\<forall>rid\<in>set ?ids. record_in P v t ?ns rid (record_at P v t ?ns rid)"
    using record_ids_record [OF assms(2)] by simp
  moreover have "\<forall>rid\<in>set (take (nat limit) ?ids). record_in P v t ?ns rid (record_at P v t ?ns rid)"
    using rin by (meson in_set_takeD)
  ultimately show ?thesis
    using assms(3,5) scan_bodies_eq [OF fits rin, of limit "[]"] scan_vectors_eq [of "take (nat limit) ?ids" P v t ?ns]
    unfolding same_record_def
    by (simp add: repo_Scan_def Let_def snapshot_NewIterator_def take_map case_prod_unfold)
qed

lemma each_record_append:
  "each_record fn (xs @ ys) a = (case each_record fn xs a of (a', Some e) \<Rightarrow> (a', Some e) | (a', None) \<Rightarrow> each_record fn ys a')"
  by (induction xs arbitrary: a) (auto split: prod.splits option.splits)

lemma each_record_same:
  "list_all2 (same_record P v t ns) ids recs \<Longrightarrow> each_record fn recs a = each_record fn (map (record_at P v t ns) ids) a"
  by (induction ids recs arbitrary: a rule: list_all2_induct)
     (auto simp: same_record_def with_vector_def split: prod.splits option.splits)

lemma filter_after_last:
  assumes "sorted_wrt (<) ids" "n \<le> length (filter (after from) ids)" "0 < n"
  shows "filter (after (Some (filter (after from) ids ! (n - 1)))) ids = drop n (filter (after from) ids)"
proof -
  let ?xs = "filter (after from) ids" and ?l = "filter (after from) ids ! (n - 1)"
  have s: "sorted_wrt (<) ?xs" using assms(1) by (simp add: sorted_wrt_filter)
  have l: "?l \<in> set ?xs" using assms(2,3) by (intro nth_mem) linarith
  have "filter (\<lambda>r. ?l < r) ids = filter (\<lambda>r. ?l < r) ?xs"
    unfolding filter_filter using l by (intro filter_cong) (auto split: option.splits)
  also have "\<dots> = filter (\<lambda>r. ?l < r) (take n ?xs) @ filter (\<lambda>r. ?l < r) (drop n ?xs)"
    by (metis append_take_drop_id filter_append)
  also have "filter (\<lambda>r. ?l < r) (take n ?xs) = []"
  proof -
    have "\<not> ?l < ?xs ! i" if "i < n" for i
    proof (cases "i = n - 1")
      case False
      then have "?xs ! i < ?l" using that assms(2,3) by (intro sorted_wrt_nth_less [OF s]) linarith+
      then show ?thesis by (rule less_not_sym)
    qed simp
    then show ?thesis by (auto simp: filter_empty_conv in_set_conv_nth)
  qed
  also have "filter (\<lambda>r. ?l < r) (drop n ?xs) = drop n ?xs"
  proof -
    have "?l < drop n ?xs ! i" if "i < length ?xs - n" for i
      using that assms(2,3) sorted_wrt_nth_less [OF s, of "n - 1" "n + i"] by simp
    then show ?thesis by (auto simp: filter_id_conv in_set_conv_nth)
  qed
  finally show ?thesis by simp
qed

lemma content_pages_eq:
  assumes "view_ok v" "records_ok P v t DefaultNamespace" "Require x = Inr t" "fits t"
  shows "content_pages P x (Some v) fn from a =
    Some (each_record fn (map (record_at P v t DefaultNamespace) (filter (after from) (record_ids v t DefaultNamespace))) a)"
proof (induction "length (filter (after from) (record_ids v t DefaultNamespace))" arbitrary: "from" a rule: less_induct)
  case less
  let ?ids = "record_ids v t DefaultNamespace" and ?at = "record_at P v t DefaultNamespace"
  let ?rem = "filter (after from) ?ids"
  obtain page where page: "repo_Scan P x (Some v) from scanPage = Inr page"
      "list_all2 (same_record P v t DefaultNamespace) (take 500 ?rem) page"
    using repo_Scan_eq [OF assms, of scanPage "from"] by (auto simp: scanPage_def)
  have len: "length page = min 500 (length ?rem)" using list_all2_lengthD [OF page(2)] by simp
  have each: "each_record fn page b = each_record fn (map ?at (take 500 ?rem)) b" for b
    by (rule each_record_same [OF page(2)])
  show ?case
  proof (cases "length ?rem < 500")
    case True
    then have "each_record fn page a = each_record fn (map ?at ?rem) a" using each by simp
    then show ?thesis using True page(1) len
      by (auto simp: content_pages.simps [of P x _ fn "from"] scanPage_def split: prod.splits option.splits)
  next
    case False
    have "rec_ID (page ! 499) = take 500 ?rem ! 499"
    proof -
      have sr: "same_record P v t DefaultNamespace (take 500 ?rem ! 499) (page ! 499)"
        using list_all2_nthD [OF page(2), of 499] False by simp
      have mem: "take 500 ?rem ! 499 \<in> set ?ids"
        using False nth_mem [of 499 ?rem] by simp
      show ?thesis using same_record_ID [OF sr] record_in_ID [OF record_ids_record [OF assms(2) mem]] by simp
    qed
    then have last: "rec_ID (last page) = ?rem ! 499" using False len by (simp add: last_conv_nth flip: length_0_conv)
    have drop: "filter (after (Some (?rem ! 499))) ?ids = drop 500 ?rem"
      using filter_after_last [OF record_ids_sorted [OF assms(1,2)], of 500 "from"] False by simp
    then have IH: "content_pages P x (Some v) fn (Some (?rem ! 499)) b = Some (each_record fn (map ?at (drop 500 ?rem)) b)" for b
      using less [of "Some (?rem ! 499)" b] False by simp
    have "each_record fn (map ?at ?rem) a =
        (case each_record fn page a of (a', Some e) \<Rightarrow> (a', Some e) | (a', None) \<Rightarrow> each_record fn (map ?at (drop 500 ?rem)) a')"
      unfolding each by (metis append_take_drop_id each_record_append map_append)
    moreover have "page \<noteq> []" "\<not> int (length page) < scanPage" using False len by (auto simp: scanPage_def)
    ultimately show ?thesis using page(1) last IH
      by (simp add: content_pages.simps [of P x _ fn "from"] split: prod.splits option.splits)
  qed
qed

text \<open>
  C30: the walk that feeds the keyword index's rebuild ends, and hands its callback every record of
  the tenant exactly once, in id order, however many pages of five hundred it takes; the first
  error of the callback ends it.
\<close>

theorem content_source_visits_every_record:
  assumes "store_live s" "records_ok P (store_view s) t DefaultNamespace" "tenant_Valid t" "fits t"
  shows "ContentSource_Scan P x s t ns fn a =
      Some (each_record fn (map (record_at P (store_view s) t DefaultNamespace) (record_ids (store_view s) t DefaultNamespace)) a) \<and>
    sorted_wrt (<) (record_ids (store_view s) t DefaultNamespace) \<and>
    set (record_ids (store_view s) t DefaultNamespace) = {rid. s_data s (BodyKey t DefaultNamespace rid) \<noteq> None}"
proof -
  have v: "view_ok (store_view s)" using assms(1) by (simp add: store_live_def view_ok_store_view)
  have "t \<noteq> []" using assms(3) by (auto simp: tenant_Valid_def validate_def)
  then have x: "Require (tenant_NewContext x t) = Inr t"
    using assms(3) by (simp add: Require_def tenant_FromContext_def tenant_NewContext_def)
  have "filter (after None) ids = ids" for ids by (simp add: filter_True)
  then show ?thesis
    using content_pages_eq [OF v assms(2) x assms(4), of fn None a] record_ids_sorted [OF v assms(2)] record_ids_set [OF v assms(2)]
    by (simp add: ContentSource_Scan_def NewSnapshot_def store_view_def)
qed

theorem content_source_visits_every_record_witness:
  "ContentSource_Scan sample_proto \<lparr>ctx_claim = None, ctx_tenant = None\<rparr>
     (store_set New (BodyKey [97] DefaultNamespace 7) (header [] @ [1])) [97] DefaultNamespace (\<lambda>a rid c tags. (a @ [(rid, c)], None)) [] =
   Some ([(7, [104, 105])], None)"
proof -
  let ?ns = DefaultNamespace and ?k = "BodyKey [97] DefaultNamespace 7" and ?b = "header [] @ [1] :: bytes"
  let ?s = "store_set New ?k ?b"
  have live: "store_live ?s" by (simp add: store_live_def store_ok_store_set)
  have v: "v_keys (store_view ?s) = [?k]" "v_data (store_view ?s) = [?k \<mapsto> ?b]"
    using s_keys_store_set [OF store_ok_New] by (simp_all add: store_view_def)
  have id: "rec_ID sample_rec = 7" "rec_Content sample_rec = [104, 105]" by (simp_all add: sample_rec_def)
  have nk: "VectorKey [97] ?ns 7 \<noteq> ?k"
    by (simp add: VectorKey_def CanonicalKey_def Vector_def BodyKey_def Record_def begin_key_def SpaceVector_def SpaceRecord_def)
  obtain r where r: "decodeBody sample_proto [97] ?ns 7 ?b ''record.Scan'' = Inr r" "rec_Content r = [104, 105]"
    using decodeBody_encodeBody [OF sample_proto_ok sample_rec_ok sample_encodeBody, of "[97]" ?ns 7 "''record.Scan''"] id by auto
  then have "record_in sample_proto (store_view ?s) [97] ?ns 7 r" using nk by (simp add: record_in_def v)
  then have ok: "records_ok sample_proto (store_view ?s) [97] ?ns" by (auto simp: records_ok_def v)
  have "record_ids (store_view ?s) [97] ?ns = [7]"
    unfolding record_ids_def v(1) by (simp add: bodyPrefix_BodyKey)
  moreover have "record_at sample_proto (store_view ?s) [97] ?ns 7 = r" "rec_ID r = 7"
    using r decodeBody_ID by (simp_all add: record_at_def v)
  moreover have "tenant_Valid [97]" "fits [97]" by (simp_all add: tenant_Valid_def validate_def MaxIDLen_def valid_char_def fits_def)
  ultimately show ?thesis
    using content_source_visits_every_record [OF live ok, of "\<lparr>ctx_claim = None, ctx_tenant = None\<rparr>" ?ns "\<lambda>a rid c tags. (a @ [(rid, c)], None)" "[]"] r(2)
    by simp
qed

end
