(* ===== verification/Attr_Index.thy ===== *)
theory Attr_Index
  imports Attr_Row Records
begin

text \<open>
  The memory slot table and projection (\<^verbatim>\<open>src/internal/attr/slots.go\<close>) and the indexer that
  keeps attribute rows and slot index entries in line with a record
  (\<^verbatim>\<open>src/internal/attr/index.go\<close>). The indexer here is the one without a row cache.
\<close>

section \<open>The slot table of memories\<close>

definition SlotArchived :: "16 word" where "SlotArchived = 0"
definition SlotPolicy :: "16 word" where "SlotPolicy = 1"
definition SlotImportance :: "16 word" where "SlotImportance = 2"
definition SlotCreatedAt :: "16 word" where "SlotCreatedAt = 3"
definition SlotAccessedAt :: "16 word" where "SlotAccessedAt = 4"
definition SlotAccessCount :: "16 word" where "SlotAccessCount = 5"
definition SlotHealth :: "16 word" where "SlotHealth = 6"
definition SlotValence :: "16 word" where "SlotValence = 7"
definition SlotArousal :: "16 word" where "SlotArousal = 8"
definition SlotNextAttentionAt :: "16 word" where "SlotNextAttentionAt = 9"
definition SlotUpdatedAt :: "16 word" where "SlotUpdatedAt = 10"
definition SlotLastRecalledAt :: "16 word" where "SlotLastRecalledAt = 11"

lemmas slot_numbers = SlotArchived_def SlotPolicy_def SlotImportance_def SlotCreatedAt_def SlotAccessedAt_def
  SlotAccessCount_def SlotHealth_def SlotValence_def SlotArousal_def SlotNextAttentionAt_def SlotUpdatedAt_def
  SlotLastRecalledAt_def

definition SchemaVersion :: "32 word" where "SchemaVersion = 1"

definition slotdef :: "16 word \<Rightarrow> string \<Rightarrow> SlotType \<Rightarrow> bool \<Rightarrow> SlotDef" where
  "slotdef slot name typ indexed =
     \<lparr>sd_Slot = slot, sd_Name = str name, sd_Type = typ, sd_Indexed = indexed, sd_Retired = False\<rparr>"

definition slotDefs :: "SlotDef list" where
  "slotDefs =
     [slotdef SlotArchived ''archived'' SlotBool False,
      slotdef SlotPolicy ''policy'' SlotString False,
      slotdef SlotImportance ''importance'' SlotF32 True,
      slotdef SlotCreatedAt ''created_at'' SlotU64 True,
      slotdef SlotAccessedAt ''accessed_at'' SlotU64 False,
      slotdef SlotAccessCount ''access_count'' SlotU32 False,
      slotdef SlotHealth ''health'' SlotF32 True,
      slotdef SlotValence ''emotional_valence'' SlotF32 False,
      slotdef SlotArousal ''arousal'' SlotF32 False,
      slotdef SlotNextAttentionAt ''next_attention_at'' SlotU64 True,
      slotdef SlotUpdatedAt ''updated_at'' SlotU64 True,
      slotdef SlotLastRecalledAt ''last_recalled_at'' SlotU64 True]"

fun Table_loop :: "SlotDef list \<Rightarrow> Slots \<Rightarrow> Slots res" where
  "Table_loop [] s = Inr s"
| "Table_loop (d # ds) s = bindR (Register d s) (Table_loop ds)"

definition Table :: "Slots res" where
  "Table = Table_loop slotDefs (NewSlots SchemaVersion)"

definition attr_unixMs :: "time \<Rightarrow> 64 word" where
  "attr_unixMs t =
     (if t = 0 then 0
      else let ms = UnixMilli t in if ms < 0 then 0 else word_of_int ms)"

definition Project :: "Rec \<Rightarrow> Row" where
  "Project rec =
     (let f = WithDefaults (rec_Fields rec) in
      fold (\<lambda>(slot, v). row_Set slot v)
        [(SlotArchived, vBool (f_Archived f)),
         (SlotPolicy, vStr (f_Policy f)),
         (SlotImportance, vF32 (f_Importance f)),
         (SlotCreatedAt, vU64 (attr_unixMs (rec_CreatedAt rec))),
         (SlotAccessedAt, vU64 (attr_unixMs (f_AccessedAt f))),
         (SlotAccessCount, vU32 (f_AccessCount f)),
         (SlotHealth, vF32 (f_Health f)),
         (SlotValence, vF32 (f_Valence f)),
         (SlotArousal, vF32 (f_Arousal f)),
         (SlotNextAttentionAt, vU64 (attr_unixMs (f_NextAttentionAt f))),
         (SlotUpdatedAt, vU64 (attr_unixMs (rec_UpdatedAt rec))),
         (SlotLastRecalledAt, vU64 (attr_unixMs (f_LastRecalledAt f)))]
        (NewRow SchemaVersion))"

section \<open>The indexer\<close>

definition currentRow :: "Slots \<Rightarrow> Store \<Rightarrow> bytes \<Rightarrow> 'c tx \<Rightarrow> 'c tx \<times> Row option res" where
  "currentRow slots s rowKey tx =
     (case tx_Get s tx rowKey of
        Inl e \<Rightarrow> if Is (Some e) NotFound then (tx_Expect rowKey [] False tx, Inr None) else (tx, Inl e)
      | Inr val \<Rightarrow>
          (tx_Expect rowKey val True tx,
           case DecodeRow val slots of Inl e \<Rightarrow> Inr None | Inr row \<Rightarrow> Inr (Some row)))"

definition slot_value :: "Row option \<Rightarrow> 16 word \<Rightarrow> Value option" where
  "slot_value row slot = (case row of None \<Rightarrow> None | Some r \<Rightarrow> row_Get r slot)"

definition stageEntry :: "tenant \<Rightarrow> nspace \<Rightarrow> id \<Rightarrow> Row option \<Rightarrow> Row option \<Rightarrow> SlotDef \<Rightarrow> 'c tx \<Rightarrow> 'c tx" where
  "stageEntry t ns rid old row def tx =
     (let slot = sd_Slot def; oldV = slot_value old slot; newV = slot_value row slot;
          tx1 = (case oldV of
                   Some v \<Rightarrow> if newV \<noteq> Some v then tx_Delete (IndexKey t ns slot v rid) tx else tx
                 | None \<Rightarrow> tx)
      in case newV of Some v \<Rightarrow> tx_Set (IndexKey t ns slot v rid) [] tx1 | None \<Rightarrow> tx1)"

definition stageEntries :: "Slots \<Rightarrow> tenant \<Rightarrow> nspace \<Rightarrow> id \<Rightarrow> Row option \<Rightarrow> Row option \<Rightarrow> 'c tx \<Rightarrow> 'c tx" where
  "stageEntries slots t ns rid old row tx = fold (stageEntry t ns rid old row) (IndexedSlots slots) tx"

definition attr_Stage :: "Slots \<Rightarrow> 'c indexer" where
  "attr_Stage slots s t ns rid rec tx = (let op = ''attr.Indexer.Stage''; rowKey = RowKey t ns rid in
     case currentRow slots s rowKey tx of
       (tx1, Inl e) \<Rightarrow> (tx1, Some (Error (KindOf (Some e)) op e))
     | (tx1, Inr old) \<Rightarrow>
         (case rec of
            None \<Rightarrow> (stageEntries slots t ns rid old None (tx_Delete rowKey tx1), None)
          | Some r \<Rightarrow>
              (case row_Encode (Project r) slots of
                 Inl e \<Rightarrow> (tx1, Some (Error (KindOf (Some e)) op e))
               | Inr encoded \<Rightarrow>
                   (stageEntries slots t ns rid old (Some (Project r)) (tx_Set rowKey encoded tx1), None))))"

definition StageDrop :: "Slots \<Rightarrow> Store \<Rightarrow> tenant \<Rightarrow> nspace \<Rightarrow> id \<Rightarrow> 'c tx \<Rightarrow> 'c tx \<times> error option" where
  "StageDrop slots s t ns rid tx = attr_Stage slots s t ns rid None tx"

section \<open>Index keys name their entry\<close>

lemma be16_inject: "be16 v = be16 w \<longleftrightarrow> v = w"
  using unbe_be [of 2 v] unbe_be [of 2 w] by auto

lemma AttrIndex_inject: "AttrIndex t ns slot b rid = AttrIndex t ns slot' b' rid' \<longleftrightarrow> slot = slot' \<and> b = b' \<and> rid = rid'"
  by (auto simp: AttrIndex_def be16_inject append_eq_append_conv)

lemma AttrIndex_neq_AttrRow [simp]: "AttrIndex t ns slot b rid \<noteq> AttrRow t ns rid'" "AttrRow t ns rid' \<noteq> AttrIndex t ns slot b rid"
  by (auto simp: AttrIndex_def AttrRow_def begin_key_def SpaceAttrIndex_def SpaceAttrRow_def)

definition attr_keys :: "tenant \<Rightarrow> nspace \<Rightarrow> id \<Rightarrow> bytes set" where
  "attr_keys t ns rid = insert (RowKey t ns rid) {AttrIndex t ns slot b rid | slot b. True}"

lemma attr_keys_intros [simp, intro]:
  "RowKey t ns rid \<in> attr_keys t ns rid" "IndexKey t ns slot v rid \<in> attr_keys t ns rid"
  by (auto simp: attr_keys_def IndexKey_def)

lemma stageEntry_within: "stages_in s (attr_keys t ns rid) tx (stageEntry t ns rid old row def tx)"
  by (auto simp: stageEntry_def Let_def split: option.splits
      intro: stages_in_Set stages_in_Delete stages_in_trans [OF stages_in_Delete stages_in_Set])

lemma stageEntries_within: "stages_in s (attr_keys t ns rid) tx (stageEntries slots t ns rid old row tx)"
  unfolding stageEntries_def by (rule stages_in_fold) (rule stageEntry_within)

lemma currentRow_within: "stages_in s K tx (fst (currentRow slots s k tx))"
  by (auto simp: currentRow_def split: sum.splits intro: stages_in_Expect)

interpretation attr_ix: record_indexer "attr_Stage slots" attr_keys for slots
proof
  fix s t ns rid rec tx
  obtain tx1 r where cur: "currentRow slots s (RowKey t ns rid) tx = (tx1, r)" by force
  then have w: "stages_in s (attr_keys t ns rid) tx tx1" using currentRow_within [of s _ tx slots] by (metis fst_conv)
  have "stages_in s (attr_keys t ns rid) tx1 (stageEntries slots t ns rid old row (tx_Set (RowKey t ns rid) v tx1))"
    "stages_in s (attr_keys t ns rid) tx1 (stageEntries slots t ns rid old row (tx_Delete (RowKey t ns rid) tx1))" for old row v
    by (rule stages_in_trans [OF _ stageEntries_within]; rule stages_in_Set stages_in_Delete; simp)+
  with w show "stages_in s (attr_keys t ns rid) tx (fst (attr_Stage slots s t ns rid rec tx))"
    by (auto simp: attr_Stage_def cur Let_def split: sum.splits option.splits intro: stages_in_trans)
qed

section \<open>The projected row fits the table\<close>

lemma Table_eq: "Table = Inr \<lparr>sl_version = SchemaVersion, sl_defs = rev (map (\<lambda>d. (sd_Slot d, d)) slotDefs),
    sl_names = rev (map (\<lambda>d. (sd_Name d, sd_Slot d)) slotDefs)\<rparr>"
  by (simp add: Table_def slotDefs_def slotdef_def Register_def Let_def MaxEncodableSlot_def NewSlots_def slot_numbers str_def)

lemma Table_loop_ok: "slots_ok s \<Longrightarrow> Table_loop ds s = Inr s' \<Longrightarrow> slots_ok s'"
  by (induction ds arbitrary: s) (auto simp: bindR_eq_Inr intro: slots_ok_Register)

lemma Table_ok: "Table = Inr slots \<Longrightarrow> slots_ok slots"
  using Table_loop_ok [OF slots_ok_New] by (simp add: Table_def)

lemma row_Get_fold_sets:
  "distinct (map fst svs) \<Longrightarrow> \<forall>(slot, v)\<in>set svs. v_typ v \<noteq> SlotUnspecified \<Longrightarrow>
   row_Get (fold (\<lambda>(slot, v). row_Set slot v) svs r) slot = (case map_of svs slot of Some v \<Rightarrow> Some v | None \<Rightarrow> row_Get r slot)"
proof (induction svs arbitrary: r)
  case (Cons sv svs)
  obtain slot' v where sv: "sv = (slot', v)" by force
  have "map_of svs slot' = None" using Cons.prems(1) by (simp add: sv map_of_eq_None_iff)
  then show ?case using Cons by (simp add: sv row_Get_Set split: option.splits)
qed simp

lemma row_ok_fold_sets: "row_ok r \<Longrightarrow> row_ok (fold (\<lambda>(slot, v). row_Set slot v) svs r)"
  by (induction svs arbitrary: r) (auto simp: row_ok_Set split: prod.splits)

definition projection :: "Rec \<Rightarrow> (16 word \<times> Value) list" where
  "projection rec =
     (let f = WithDefaults (rec_Fields rec) in
      [(SlotArchived, vBool (f_Archived f)), (SlotPolicy, vStr (f_Policy f)), (SlotImportance, vF32 (f_Importance f)),
       (SlotCreatedAt, vU64 (attr_unixMs (rec_CreatedAt rec))), (SlotAccessedAt, vU64 (attr_unixMs (f_AccessedAt f))),
       (SlotAccessCount, vU32 (f_AccessCount f)), (SlotHealth, vF32 (f_Health f)), (SlotValence, vF32 (f_Valence f)),
       (SlotArousal, vF32 (f_Arousal f)), (SlotNextAttentionAt, vU64 (attr_unixMs (f_NextAttentionAt f))),
       (SlotUpdatedAt, vU64 (attr_unixMs (rec_UpdatedAt rec))), (SlotLastRecalledAt, vU64 (attr_unixMs (f_LastRecalledAt f)))])"

lemma projection_props:
  "Project rec = fold (\<lambda>(slot, v). row_Set slot v) (projection rec) (NewRow SchemaVersion)"
  "distinct (map fst (projection rec))" "\<forall>(slot, v)\<in>set (projection rec). v_typ v \<noteq> SlotUnspecified"
  by (simp_all add: projection_def Project_def Let_def slot_numbers)

lemma row_Get_Project: "row_Get (Project rec) slot = map_of (projection rec) slot"
  using row_Get_fold_sets [OF projection_props(2,3), of rec "NewRow SchemaVersion" slot]
  by (simp add: projection_props(1) row_Get_def NewRow_def split: option.splits)

lemma r_SchemaVersion_Project: "r_SchemaVersion (Project rec) = SchemaVersion"
proof -
  have "r_SchemaVersion (fold (\<lambda>(slot, v). row_Set slot v) svs r) = r_SchemaVersion r" for svs r
    by (induction svs arbitrary: r) (auto simp: row_Set_def Let_def split: prod.splits)
  then show ?thesis by (simp add: projection_props(1) NewRow_def)
qed

text \<open>Every slot of the table is populated, with a value of the slot's type.\<close>

lemma Project_populates:
  assumes "Table = Inr slots"
  shows "slots_Get slots slot = Some d \<Longrightarrow> \<exists>v. row_Get (Project rec) slot = Some v \<and> v_typ v = sd_Type d"
    and "row_Get (Project rec) slot = Some v \<Longrightarrow> \<exists>d. slots_Get slots slot = Some d \<and> sd_Type d = v_typ v \<and> \<not> sd_Retired d"
proof -
  have get: "slots_Get slots slot = map_of (rev (map (\<lambda>d. (sd_Slot d, d)) slotDefs)) slot"
    using assms by (auto simp: Table_eq slots_Get_def)
  show "slots_Get slots slot = Some d \<Longrightarrow> \<exists>v. row_Get (Project rec) slot = Some v \<and> v_typ v = sd_Type d"
    unfolding get row_Get_Project by (auto simp: slotDefs_def slotdef_def projection_def Let_def slot_numbers split: if_splits)
  show "row_Get (Project rec) slot = Some v \<Longrightarrow> \<exists>d. slots_Get slots slot = Some d \<and> sd_Type d = v_typ v \<and> \<not> sd_Retired d"
    unfolding get row_Get_Project by (auto simp: slotDefs_def slotdef_def projection_def Let_def slot_numbers split: if_splits)
qed

lemma Project_value_ok: "fits (f_Policy (WithDefaults (rec_Fields rec))) \<Longrightarrow> row_Get (Project rec) slot = Some v \<Longrightarrow> value_ok v"
  unfolding row_Get_Project by (auto simp: projection_def Let_def value_ok_def split: if_splits)

lemma Project_fits:
  assumes "Table = Inr slots" "fits (f_Policy (WithDefaults (rec_Fields rec)))"
  shows "row_fits slots (Project rec)"
  using Project_populates(2) [OF assms(1)] Project_value_ok [OF assms(2)] row_ok_fold_sets [OF row_ok_New]
  by (fastforce simp: row_fits_def projection_props(1))

section \<open>The index follows the row\<close>

text \<open>
  The entries of one record: for each indexed slot, one entry at the row's value and no other.
\<close>

definition entries_match :: "Slots \<Rightarrow> (bytes \<rightharpoonup> bytes) \<Rightarrow> tenant \<Rightarrow> nspace \<Rightarrow> id \<Rightarrow> Row option \<Rightarrow> bool" where
  "entries_match slots m t ns rid row \<longleftrightarrow>
     (\<forall>slot d b. slots_Get slots slot = Some d \<and> sd_Indexed d \<and> \<not> sd_Retired d \<longrightarrow>
        m (AttrIndex t ns slot b rid) = (if \<exists>v. slot_value row slot = Some v \<and> b = OrderBytes v then Some [] else None))"

definition attr_ok :: "Slots \<Rightarrow> (bytes \<rightharpoonup> bytes) \<Rightarrow> tenant \<Rightarrow> nspace \<Rightarrow> id \<Rightarrow> bool" where
  "attr_ok slots m t ns rid \<longleftrightarrow>
     (case m (RowKey t ns rid) of
        None \<Rightarrow> entries_match slots m t ns rid None
      | Some b \<Rightarrow> \<exists>r. DecodeRow b slots = Inr r \<and> entries_match slots m t ns rid (Some r))"

lemma stageEntry_view:
  assumes "tx_live s tx"
  shows "tx_view s (stageEntry t ns rid old row d tx) (AttrIndex t ns slot b rid) =
    (if slot \<noteq> sd_Slot d then tx_view s tx (AttrIndex t ns slot b rid)
     else if \<exists>v. slot_value row slot = Some v \<and> b = OrderBytes v then Some []
     else if \<exists>v. slot_value old slot = Some v \<and> b = OrderBytes v then None
     else tx_view s tx (AttrIndex t ns slot b rid))"
  using assms
  by (cases "slot_value old (sd_Slot d)"; cases "slot_value row (sd_Slot d)")
     (auto simp: stageEntry_def Let_def IndexKey_def staging AttrIndex_inject)

lemma stageEntries_view:
  assumes "tx_live s tx" "distinct (map sd_Slot ds)"
  shows "tx_view s (fold (stageEntry t ns rid old row) ds tx) (AttrIndex t ns slot b rid) =
    (if slot \<notin> sd_Slot ` set ds then tx_view s tx (AttrIndex t ns slot b rid)
     else if \<exists>v. slot_value row slot = Some v \<and> b = OrderBytes v then Some []
     else if \<exists>v. slot_value old slot = Some v \<and> b = OrderBytes v then None
     else tx_view s tx (AttrIndex t ns slot b rid))"
  using assms
proof (induction ds arbitrary: tx)
  case (Cons d ds)
  have "tx_live s (stageEntry t ns rid old row d tx)" using stages_in_liveD [OF stageEntry_within Cons.prems(1)] .
  then show ?case using Cons by (auto simp: stageEntry_view)
qed simp

lemma stageEntries_match:
  assumes "tx_live s tx" "slots_ok slots" "entries_match slots (tx_view s tx) t ns rid old"
  shows "entries_match slots (tx_view s (stageEntries slots t ns rid old row tx)) t ns rid row"
proof -
  have dist: "distinct (map sd_Slot (IndexedSlots slots))"
    using distinct_slots_Defs [OF assms(2)] unfolding IndexedSlots_def by (rule distinct_map_filter)
  have "slot \<in> sd_Slot ` set (IndexedSlots slots)"
    if "slots_Get slots slot = Some d" "sd_Indexed d" "\<not> sd_Retired d" for slot d
    using that slots_Get_ok [OF assms(2) that(1)] set_slots_Defs [OF assms(2), of d] by (force simp: IndexedSlots_def)
  then show ?thesis
    using assms(3) by (auto simp: entries_match_def stageEntries_def stageEntries_view [OF assms(1) dist])
qed

lemma stageEntry_row: "tx_live s tx \<Longrightarrow> tx_view s (stageEntry t ns rid old row d tx) (RowKey t ns rid) = tx_view s tx (RowKey t ns rid)"
  by (cases "slot_value old (sd_Slot d)"; cases "slot_value row (sd_Slot d)")
     (simp_all add: stageEntry_def Let_def IndexKey_def RowKey_def staging)

lemma stageEntries_row:
  "tx_live s tx \<Longrightarrow> tx_view s (stageEntries slots t ns rid old row tx) (RowKey t ns rid) = tx_view s tx (RowKey t ns rid)"
proof -
  have "tx_live s tx \<Longrightarrow> tx_view s (fold (stageEntry t ns rid old row) ds tx) (RowKey t ns rid) = tx_view s tx (RowKey t ns rid)" for ds
  proof (induction ds arbitrary: tx)
    case (Cons d ds)
    then show ?case using stages_in_liveD [OF stageEntry_within Cons.prems] by (simp add: stageEntry_row)
  qed simp
  then show "tx_live s tx \<Longrightarrow> ?thesis" by (simp add: stageEntries_def)
qed

lemma extends_refl: "extends slots slots"
  by (auto simp: extends_def)

lemma entries_match_cong:
  assumes "\<And>slot d. slots_Get slots slot = Some d \<Longrightarrow> \<not> sd_Retired d \<Longrightarrow> slot_value row slot = slot_value row' slot"
  shows "entries_match slots m t ns rid row = entries_match slots m t ns rid row'"
  using assms unfolding entries_match_def by (intro all_cong1 imp_cong refl) simp

lemma attr_ok_frame:
  assumes "tx_live s tx" "stages_in s (attr_keys t ns rid) tx tx'" "rid' \<noteq> rid"
  shows "attr_ok slots (tx_view s tx') t ns rid' = attr_ok slots (tx_view s tx) t ns rid'"
proof -
  have "AttrIndex t ns slot b rid' \<notin> attr_keys t ns rid" "RowKey t ns rid' \<notin> attr_keys t ns rid" for slot b
    using assms(3) by (auto simp: attr_keys_def AttrIndex_inject RowKey_def) (auto simp: AttrRow_def)
  then have "tx_view s tx' (AttrIndex t ns slot b rid') = tx_view s tx (AttrIndex t ns slot b rid')"
    "tx_view s tx' (RowKey t ns rid') = tx_view s tx (RowKey t ns rid')" for slot b
    using stages_in_viewD [OF assms(2,1)] by blast+
  then show ?thesis unfolding attr_ok_def entries_match_def by (simp only:)
qed

lemma currentRow_ok:
  assumes "tx_live s tx" "attr_ok slots (tx_view s tx) t ns rid"
  obtains tx1 old where "currentRow slots s (RowKey t ns rid) tx = (tx1, Inr old)" "tx_live s tx1" "tx_view s tx1 = tx_view s tx"
    "entries_match slots (tx_view s tx) t ns rid old"
proof (cases "tx_view s tx (RowKey t ns rid)")
  case None
  with assms(1) obtain e where "tx_Get s tx (RowKey t ns rid) = Inl e" "is_kind e NotFound" by (rule tx_Get_None)
  then show thesis using that [of _ None] assms None by (simp add: currentRow_def attr_ok_def staging)
next
  case (Some b)
  then obtain r where "DecodeRow b slots = Inr r" "entries_match slots (tx_view s tx) t ns rid (Some r)"
    using assms(2) by (auto simp: attr_ok_def)
  then show thesis using that [of _ "Some r"] assms(1) tx_Get_Some [OF assms(1) Some] by (simp add: currentRow_def staging)
qed

text \<open>
  C31: staging a record's attributes brings its row and its index entries into line with it,
  whatever they were before: afterwards each indexed slot has exactly one entry, at the value the
  row decodes to, a removed record has none and no row, and no other record's row or entries are
  touched. So an update never leaves an entry at the old value.
\<close>

theorem attr_Stage_exact:
  assumes "Table = Inr slots" "tx_live s tx" "attr_ok slots (tx_view s tx) t ns rid"
    and "case rec of Some r \<Rightarrow> fits (f_Policy (WithDefaults (rec_Fields r))) | None \<Rightarrow> True"
  shows "\<exists>tx'. attr_Stage slots s t ns rid rec tx = (tx', None) \<and> attr_ok slots (tx_view s tx') t ns rid \<and>
     entries_match slots (tx_view s tx') t ns rid (map_option Project rec) \<and>
     (tx_view s tx' (RowKey t ns rid) = None \<longleftrightarrow> rec = None) \<and>
     (\<forall>rid'. rid' \<noteq> rid \<longrightarrow> attr_ok slots (tx_view s tx') t ns rid' = attr_ok slots (tx_view s tx) t ns rid')"
proof -
  have ok: "slots_ok slots" by (rule Table_ok [OF assms(1)])
  obtain tx1 old where cur: "currentRow slots s (RowKey t ns rid) tx = (tx1, Inr old)" "tx_live s tx1"
    "tx_view s tx1 = tx_view s tx" "entries_match slots (tx_view s tx) t ns rid old"
    by (rule currentRow_ok [OF assms(2,3)])
  have keep: "entries_match slots ((tx_view s tx)(RowKey t ns rid := x)) t ns rid old" for x
    using cur(4) by (simp add: entries_match_def RowKey_def)
  have frame: "attr_ok slots (tx_view s (fst (attr_Stage slots s t ns rid rec tx))) t ns rid' = attr_ok slots (tx_view s tx) t ns rid'"
    if "rid' \<noteq> rid" for rid'
    by (rule attr_ok_frame [OF assms(2) attr_ix.stage_within that])
  show ?thesis
  proof (cases rec)
    case None
    let ?tx = "stageEntries slots t ns rid old None (tx_Delete (RowKey t ns rid) tx1)"
    have st: "attr_Stage slots s t ns rid rec tx = (?tx, None)" by (simp add: attr_Stage_def cur(1) None Let_def)
    have "entries_match slots (tx_view s ?tx) t ns rid None" "tx_view s ?tx (RowKey t ns rid) = None"
      using stageEntries_match [OF _ ok, of s "tx_Delete (RowKey t ns rid) tx1"] cur(2,3) keep
      by (simp_all add: staging stageEntries_row)
    then show ?thesis using st frame None by (simp add: attr_ok_def)
  next
    case (Some r)
    have fit: "row_fits slots (Project r)" using Project_fits [OF assms(1)] assms(4) Some by simp
    obtain b r' where b: "row_Encode (Project r) slots = Inr b" "DecodeRow b slots = Inr r'"
      "\<forall>slot. row_Get r' slot = (case slots_Get slots slot of Some d \<Rightarrow> if sd_Retired d then None else row_Get (Project r) slot | None \<Rightarrow> None)"
      using DecodeRow_row_Encode [OF ok ok extends_refl fit] by blast
    let ?tx = "stageEntries slots t ns rid old (Some (Project r)) (tx_Set (RowKey t ns rid) b tx1)"
    have st: "attr_Stage slots s t ns rid rec tx = (?tx, None)" by (simp add: attr_Stage_def cur(1) Some Let_def b(1))
    have m: "entries_match slots (tx_view s ?tx) t ns rid (Some (Project r))" "tx_view s ?tx (RowKey t ns rid) = Some b"
      using stageEntries_match [OF _ ok, of s "tx_Set (RowKey t ns rid) b tx1"] cur(2,3) keep
      by (simp_all add: staging stageEntries_row)
    moreover have "entries_match slots (tx_view s ?tx) t ns rid (Some r') = entries_match slots (tx_view s ?tx) t ns rid (Some (Project r))"
      by (rule entries_match_cong) (simp add: slot_value_def b(3))
    ultimately show ?thesis using st frame Some b(2) by (simp add: attr_ok_def)
  qed
qed

theorem attr_Stage_exact_witness:
  "\<exists>slots tx tx'. Table = Inr slots \<and> attr_Stage slots New [97] DefaultNamespace 7 (Some sample_rec) (tx_New True :: unit tx) = (tx, None) \<and>
     tx_view New tx (AttrIndex [97] DefaultNamespace SlotHealth (OrderBytes (vF32 DefaultHealth)) 7) = Some [] \<and>
     attr_Stage slots New [97] DefaultNamespace 7 None tx = (tx', None) \<and>
     tx_view New tx' (AttrIndex [97] DefaultNamespace SlotHealth (OrderBytes (vF32 DefaultHealth)) 7) = None"
proof -
  obtain slots where T: "Table = Inr slots" by (simp add: Table_eq)
  have live: "tx_live New (tx_New True :: unit tx)" by simp
  have ok: "attr_ok slots (tx_view New (tx_New True :: unit tx)) [97] DefaultNamespace 7"
    by (simp add: attr_ok_def entries_match_def slot_value_def)
  have d: "\<exists>d. slots_Get slots SlotHealth = Some d \<and> sd_Indexed d \<and> \<not> sd_Retired d"
    using T by (auto simp: Table_eq slots_Get_def slotDefs_def slotdef_def slot_numbers)
  have "fits (f_Policy (WithDefaults (rec_Fields sample_rec)))"
    by (simp add: sample_rec_def WithDefaults_def DefaultPolicy_def fits_def)
  with attr_Stage_exact [OF T live ok, of "Some sample_rec"] obtain tx where
    tx: "attr_Stage slots New [97] DefaultNamespace 7 (Some sample_rec) (tx_New True :: unit tx) = (tx, None)"
      "attr_ok slots (tx_view New tx) [97] DefaultNamespace 7"
      "entries_match slots (tx_view New tx) [97] DefaultNamespace 7 (Some (Project sample_rec))" by auto
  have live': "tx_live New tx" using attr_ix.stage_live [OF live, of slots "[97]" DefaultNamespace 7 "Some sample_rec"] tx(1) by simp
  from attr_Stage_exact [OF T live' tx(2), of None] obtain tx' where
    tx': "attr_Stage slots New [97] DefaultNamespace 7 None tx = (tx', None)"
      "entries_match slots (tx_view New tx') [97] DefaultNamespace 7 None" by auto
  have "row_Get (Project sample_rec) SlotHealth = Some (vF32 DefaultHealth)"
    by (simp add: row_Get_Project projection_def sample_rec_def WithDefaults_def Let_def slot_numbers)
  then show ?thesis using T tx tx' d by (auto simp: entries_match_def slot_value_def)
qed

end
