(* ===== verification/Backward.thy ===== *)
theory Backward
  imports Memkv
begin

text \<open>
  Scans of the engine from the last entry to the first, as the loops
  \<^verbatim>\<open>for ok := it.Last(); ok; ok = it.Prev()\<close> make them, and the slices of the key list an
  iterator's bounds cut out.
\<close>

function iter_back :: "iter \<Rightarrow> (bytes \<times> bytes) list" where
  "iter_back it = (if it_valid it then (iter_Key it, iter_Value it) # iter_back (snd (iter_Prev it)) else [])"
  by pat_completeness auto
termination
  by (relation "measure (\<lambda>it. if it_valid it then nat (it_pos it - it_lo it) + 1 else 0)")
     (auto simp: iter_Prev_def iter_settle_def iter_stage_def Let_def)

declare iter_back.simps [simp del]

lemma iter_back_settle:
  assumes "iter_open v it" "i < it_hi it"
  shows "iter_back (snd (iter_settle i it)) = map (entry v) (rev (drop (nat (it_lo it)) (take (nat (i + 1)) (v_keys v))))"
  using assms
proof (induction "nat (i + 1 - it_lo it)" arbitrary: i it)
  case 0
  then have "i < it_lo it" by simp
  moreover have "0 \<le> it_lo it" using 0 by (simp add: iter_open_def)
  ultimately show ?case using iter_settle_end [of i it] by (simp add: iter_back.simps)
next
  case (Suc n)
  then have i: "it_lo it \<le> i" by simp
  let ?it = "snd (iter_settle i it)" and ?ks = "v_keys v"
  have b: "0 \<le> it_lo it" "0 \<le> i" "i < int (length ?ks)" using Suc.prems i by (auto simp: iter_open_def)
  note valid = iter_settle_valid [OF Suc.prems(1) i Suc.prems(2)]
  have "iter_back ?it = entry v (?ks ! nat i) # iter_back (snd (iter_Prev ?it))"
    using valid by (subst iter_back.simps) simp
  also have "iter_back (snd (iter_Prev ?it)) = map (entry v) (rev (drop (nat (it_lo it)) (take (nat i) ?ks)))"
    using Suc.hyps(1) [of "i - 1" ?it] Suc.hyps(2) Suc.prems valid by (simp add: iter_Prev_def)
  also have "entry v (?ks ! nat i) # map (entry v) (rev (drop (nat (it_lo it)) (take (nat i) ?ks))) =
      map (entry v) (rev (drop (nat (it_lo it)) (take (nat (i + 1)) ?ks)))"
  proof -
    have "take (nat (i + 1)) ?ks = take (nat i) ?ks @ [?ks ! nat i]"
      using b by (simp add: nat_add_distrib take_Suc_conv_app_nth)
    moreover have "nat (it_lo it) \<le> length (take (nat i) ?ks)" using b i by simp
    ultimately show ?thesis by simp
  qed
  finally show ?case .
qed

lemma map_prod_Live: "map_prod id Live p = (fst p, Live (snd p))"
  by (cases p) simp

lemma map_entry_inject: "map (entry v) xs = map (entry v) ys \<longleftrightarrow> xs = ys"
  by (rule inj_map_eq_map) (auto simp: inj_on_def entry_def)

lemma map_fst_entry [simp]: "map fst (map (entry v) ks) = ks"
  by (induction ks) (simp_all add: entry_def)

lemma newIter_slice:
  assumes "view_ok v"
  shows "drop (nat (it_lo (newIter v lower upper))) (take (nat (it_hi (newIter v lower upper))) (v_keys v)) =
    filter (in_range (bound_range lower upper)) (v_keys v)"
  using iter_entries_newIter [OF assms, of lower upper]
    iter_rest_settle [OF newIter_open [OF assms, of lower upper], of "it_lo (newIter v lower upper)"]
  by (simp add: iter_entries_def iter_First_def map_entry_inject)

lemma set_drop_nth: "k \<in> set (drop a ks) \<longleftrightarrow> (\<exists>i. a \<le> i \<and> i < length ks \<and> ks ! i = k)"
proof
  assume "k \<in> set (drop a ks)"
  then obtain j where "j < length ks - a" "ks ! (a + j) = k" by (auto simp: in_set_conv_nth)
  then show "\<exists>i. a \<le> i \<and> i < length ks \<and> ks ! i = k" by (intro exI [of _ "a + j"]) simp
next
  assume "\<exists>i. a \<le> i \<and> i < length ks \<and> ks ! i = k"
  then obtain i where "a \<le> i" "i < length ks" "ks ! i = k" by blast
  then show "k \<in> set (drop a ks)" by (auto simp: in_set_conv_nth intro!: exI [of _ "i - a"])
qed

lemma nth_less_search:
  assumes "sorted_wrt (<) ks" "i < length ks"
  shows "ks ! i < at \<longleftrightarrow> i < SearchStrings ks at"
proof
  assume "i < SearchStrings ks at"
  then have "ks ! i \<in> set (take (SearchStrings ks at) ks)" using assms(2) by (metis in_set_conv_nth length_take min_less_iff_conj nth_take)
  then show "ks ! i < at" using assms(1) by (simp add: sorted_split)
next
  assume a: "ks ! i < at"
  show "i < SearchStrings ks at"
  proof (rule ccontr)
    assume "\<not> i < SearchStrings ks at"
    then have "ks ! i \<in> set (drop (SearchStrings ks at) ks)"
      unfolding set_drop_nth using assms(2) by (intro exI [of _ i]) simp
    then have "at \<le> ks ! i" using assms(1) by (simp add: sorted_split)
    with a show False by simp
  qed
qed

lemma slice_below:
  assumes "sorted_wrt (<) ks" "hi \<le> length ks"
  shows "drop lo (take (min (max lo (SearchStrings ks at)) hi) ks) = filter (\<lambda>k. k < at) (drop lo (take hi ks))"
proof (rule strict_sorted_equal)
  show "sorted_wrt (<) (drop lo (take (min (max lo (SearchStrings ks at)) hi) ks))"
    "sorted_wrt (<) (filter (\<lambda>k. k < at) (drop lo (take hi ks)))"
    using assms(1) by (simp_all add: sorted_wrt_drop sorted_wrt_take sorted_wrt_filter_less)
  have mem: "k \<in> set (drop lo (take m ks)) \<longleftrightarrow> (\<exists>i. lo \<le> i \<and> i < m \<and> i < length ks \<and> ks ! i = k)" for m k
    by (auto simp: set_drop_nth)
  show "set (drop lo (take (min (max lo (SearchStrings ks at)) hi) ks)) = set (filter (\<lambda>k. k < at) (drop lo (take hi ks)))"
  proof (rule set_eqI)
    fix k
    show "k \<in> set (drop lo (take (min (max lo (SearchStrings ks at)) hi) ks)) \<longleftrightarrow>
        k \<in> set (filter (\<lambda>k. k < at) (drop lo (take hi ks)))"
      unfolding set_filter mem_Collect_eq mem
      using assms(2) nth_less_search [OF assms(1), of _ at] by (auto simp: less_max_iff_disj)
  qed
qed

text \<open>Every entry of a scan run to its beginning, or the error the iterator holds.\<close>

fun itr_entries_back :: "iterator \<Rightarrow> (bytes \<times> bytes) list res" where
  "itr_entries_back (Live it) = Inr (iter_back (snd (iter_Last it)))"
| "itr_entries_back (Failed e) = Inl e"

lemma itr_entries_back_store:
  assumes "store_ok s" "\<not> s_closed s"
  shows "itr_entries_back (store_NewIterator s lower upper) =
    Inr (map (entry (store_view s)) (rev (filter (in_range (bound_range lower upper)) (s_keys s))))"
proof -
  let ?v = "store_view s" let ?it = "newIter ?v lower upper"
  have v: "view_ok ?v" by (rule view_ok_store_view [OF assms(1)])
  have "iter_back (snd (iter_settle (it_hi ?it - 1) ?it)) = map (entry ?v) (rev (filter (in_range (bound_range lower upper)) (v_keys ?v)))"
    using iter_back_settle [OF newIter_open [OF v], of "it_hi ?it - 1" lower upper] newIter_slice [OF v, of lower upper] by simp
  then show ?thesis using assms(2) by (simp add: store_NewIterator_def iter_Last_def store_view_def)
qed

end
