(* ===== verification/Attr_Select.thy ===== *)
theory Attr_Select
  imports Attr_Index Backward
begin

text \<open>
  Predicates over attribute rows and the ordered, resumable walk of one slot's index:
  \<^verbatim>\<open>src/internal/attr/predicate.go\<close> and \<^verbatim>\<open>select.go\<close>. The reader is a snapshot, which
  carries no row cache. A nil byte slice is \<open>None\<close>; a call that would dereference a closed
  iterator's view is the outer \<open>None\<close> of the result.
\<close>

section \<open>Predicates\<close>

datatype Pred =
    eqPred "16 word" Value
  | rangePred "16 word" "Value option" "Value option" bool bool
  | andPred "Pred list"
  | notPred Pred

fun Eval :: "Pred \<Rightarrow> Row \<Rightarrow> bool" where
  "Eval (eqPred slot w) row = (case row_Get row slot of Some v \<Rightarrow> v = w | None \<Rightarrow> False)"
| "Eval (rangePred slot lo hi loIncl hiIncl) row =
     (case row_Get row slot of
        None \<Rightarrow> False
      | Some v \<Rightarrow>
          (case lo of None \<Rightarrow> True | Some l \<Rightarrow> let c = value_Compare v l in \<not> (c < 0 \<or> c = 0 \<and> \<not> loIncl)) \<and>
          (case hi of None \<Rightarrow> True | Some h \<Rightarrow> let c = value_Compare v h in \<not> (0 < c \<or> c = 0 \<and> \<not> hiIncl)))"
| "Eval (andPred ps) row = list_all (\<lambda>p. Eval p row) ps"
| "Eval (notPred p) row = (\<not> Eval p row)"

text \<open>The operands' slots, folded as the loop of \<^verbatim>\<open>andPred.Slot\<close> does: the slot found so far.\<close>

fun and_slot :: "16 word option list \<Rightarrow> 16 word option \<Rightarrow> 16 word option" where
  "and_slot [] found = found"
| "and_slot (None # ss) found = None"
| "and_slot (Some s # ss) found = (if found \<noteq> None \<and> found \<noteq> Some s then None else and_slot ss (Some s))"

fun pred_Slot :: "Pred \<Rightarrow> 16 word option" where
  "pred_Slot (eqPred slot w) = Some slot"
| "pred_Slot (rangePred slot lo hi loIncl hiIncl) = Some slot"
| "pred_Slot (andPred ps) = and_slot (map pred_Slot ps) None"
| "pred_Slot (notPred p) = None"

definition Match :: "Row \<Rightarrow> Pred list \<Rightarrow> bool" where
  "Match row preds = list_all (\<lambda>p. Eval p row) preds"

type_synonym bnds = "(bytes option \<times> bool) \<times> (bytes option \<times> bool)"

definition tightenLow :: "bytes option \<times> bool \<Rightarrow> bytes option \<times> bool \<Rightarrow> bytes option \<times> bool" where
  "tightenLow cur nxt =
     (case nxt of
        (None, _) \<Rightarrow> cur
      | (Some n, nextIncl) \<Rightarrow>
          (case cur of
             (None, _) \<Rightarrow> nxt
           | (Some c, curIncl) \<Rightarrow>
               if c < n then nxt else if n = c then (Some c, curIncl \<and> nextIncl) else cur))"

definition tightenHigh :: "bytes option \<times> bool \<Rightarrow> bytes option \<times> bool \<Rightarrow> bytes option \<times> bool" where
  "tightenHigh cur nxt =
     (case nxt of
        (None, _) \<Rightarrow> cur
      | (Some n, nextIncl) \<Rightarrow>
          (case cur of
             (None, _) \<Rightarrow> nxt
           | (Some c, curIncl) \<Rightarrow>
               if n < c then nxt else if n = c then (Some c, curIncl \<and> nextIncl) else cur))"

definition tighten :: "bnds \<Rightarrow> bnds \<Rightarrow> bnds" where
  "tighten cur nxt = (tightenLow (fst cur) (fst nxt), tightenHigh (snd cur) (snd nxt))"

definition unbounded :: bnds where
  "unbounded = ((None, True), (None, True))"

text \<open>The order bytes of a value as a bound; a value of no type has none.\<close>

definition value_bound :: "Value \<Rightarrow> bytes option" where
  "value_bound v = (let b = OrderBytes v in if b = [] then None else Some b)"

fun bounds :: "16 word \<Rightarrow> Pred \<Rightarrow> bnds" where
  "bounds slot (eqPred s w) =
     (if s \<noteq> slot then unbounded else ((value_bound w, True), (value_bound w, True)))"
| "bounds slot (rangePred s lo hi loIncl hiIncl) =
     (if s \<noteq> slot then unbounded
      else ((case lo of None \<Rightarrow> (None, True) | Some l \<Rightarrow> (value_bound l, loIncl)),
            (case hi of None \<Rightarrow> (None, True) | Some h \<Rightarrow> (value_bound h, hiIncl))))"
| "bounds slot (andPred ps) = fold (\<lambda>b cur. tighten cur b) (map (bounds slot) ps) unbounded"
| "bounds slot (notPred p) = unbounded"

section \<open>One page of a selection\<close>

record Position =
  pos_Value :: bytes
  pos_ID :: id

record Select =
  sel_Tenant :: tenant
  sel_Namespace :: nspace
  sel_Slots :: "Slots option"
  sel_Slot :: "16 word"
  sel_Desc :: bool
  sel_Preds :: "Pred list"
  sel_After :: "Position option"
  sel_Limit :: int
  sel_Effort :: int

record Page =
  pg_IDs :: "id list"
  pg_Positions :: "Position list"
  pg_Examined :: int
  pg_Next :: "Position option"
  pg_Exhausted :: bool
  pg_Truncated :: bool

definition entryKey :: "bytes \<Rightarrow> bytes \<Rightarrow> id \<Rightarrow> bytes" where
  "entryKey prfx val rid = prfx @ val @ id_bytes rid"

definition successor :: "bytes \<Rightarrow> bytes" where
  "successor k = k @ [0]"

definition spanEnd :: "bytes \<Rightarrow> bytes option" where
  "spanEnd k = snd (PrefixRange k)"

definition parseEntry :: "bytes \<Rightarrow> bytes \<Rightarrow> string \<Rightarrow> (bytes \<times> id) res" where
  "parseEntry key prfx op =
     (if length key < length prfx + idLen then fail Corruption op ''an attribute index key is too short to hold a record id''
      else case FromBytes (drop (length key - idLen) key) of
             Inl e \<Rightarrow> fail Corruption op ''an attribute index key holds a malformed record id''
           | Inr rid \<Rightarrow> Inr (take (length key - idLen - length prfx) (drop (length prfx) key), rid))"

text \<open>\<open>None\<close> when the bounds contradict each other; the lower bound is never nil otherwise.\<close>

definition narrow :: "bytes \<Rightarrow> bytes option \<Rightarrow> Pred list \<Rightarrow> 16 word \<Rightarrow> (bytes \<times> bytes option) option" where
  "narrow prfx rangeEnd preds slot =
     (case fold (\<lambda>p cur. tighten cur (bounds slot p)) preds unbounded of
        ((lo, loIncl), (hi, hiIncl)) \<Rightarrow>
          let lower = (case lo of None \<Rightarrow> Some prfx | Some l \<Rightarrow> if loIncl then Some (prfx @ l) else spanEnd (prfx @ l));
              upper = (case hi of None \<Rightarrow> rangeEnd | Some h \<Rightarrow> if hiIncl then spanEnd (prfx @ h) else Some (prfx @ h))
          in case lower of
               None \<Rightarrow> None
             | Some l \<Rightarrow> (case upper of
                            Some u \<Rightarrow> if u \<le> l then None else Some (l, upper)
                          | None \<Rightarrow> Some (l, upper)))"

definition seek :: "iterator \<Rightarrow> bytes \<Rightarrow> Select \<Rightarrow> (bool \<times> iterator) option" where
  "seek it prfx sel =
     (case sel_After sel of
        None \<Rightarrow> Some (if sel_Desc sel then itr_Last it else itr_First it)
      | Some pos \<Rightarrow>
          let at = entryKey prfx (pos_Value pos) (pos_ID pos) in
          if sel_Desc sel
          then (case itr_SeekGE at it of
                  None \<Rightarrow> None
                | Some (ok, it') \<Rightarrow> Some (if ok then itr_Prev it' else itr_Last it'))
          else itr_SeekGE (successor at) it)"

definition advance :: "iterator \<Rightarrow> bool \<Rightarrow> bool \<times> iterator" where
  "advance it desc = (if desc then itr_Prev it else itr_Next it)"

definition decodeRowFrom :: "snapshot \<Rightarrow> Slots \<Rightarrow> tenant \<Rightarrow> nspace \<Rightarrow> id \<Rightarrow> Row option res" where
  "decodeRowFrom r slots t ns rid =
     (case snapshot_Get r (RowKey t ns rid) of
        Inl e \<Rightarrow> if Is (Some e) NotFound then Inr None else Inl e
      | Inr val \<Rightarrow> (case DecodeRow val slots of Inl e \<Rightarrow> Inr None | Inr row \<Rightarrow> Inr (Some row)))"

definition ReadRow :: "snapshot \<Rightarrow> Slots \<Rightarrow> tenant \<Rightarrow> nspace \<Rightarrow> id \<Rightarrow> Row option res" where
  "ReadRow r slots t ns rid = decodeRowFrom r slots t (if ns = [] then DefaultNamespace else ns) rid"

definition settle :: "snapshot \<Rightarrow> Slots \<Rightarrow> Select \<Rightarrow> id \<Rightarrow> bytes \<Rightarrow> bool res" where
  "settle r slots sel rid entryValue =
     bindR (ReadRow r slots (sel_Tenant sel) (sel_Namespace sel) rid) (\<lambda>row.
       case row of
         None \<Rightarrow> Inr False
       | Some row \<Rightarrow>
           (case row_Get row (sel_Slot sel) of
              None \<Rightarrow> Inr False
            | Some v \<Rightarrow> if OrderBytes v \<noteq> entryValue then Inr False else Inr (Match row (sel_Preds sel))))"

text \<open>
  The loop \<^verbatim>\<open>for ok := seek(...); ok; ok = advance(...)\<close>. It ends because every turn examines
  one more candidate and the effort is finite; \<open>n\<close> is what is left of the effort.
\<close>

fun Run_loop :: "snapshot \<Rightarrow> Slots \<Rightarrow> Select \<Rightarrow> bytes \<Rightarrow> string \<Rightarrow> nat \<Rightarrow> bool \<times> iterator \<Rightarrow> Page \<Rightarrow> Page res" where
  "Run_loop r slots sel prfx op n (False, it) page = Inr page"
| "Run_loop r slots sel prfx op 0 (True, it) page = Inr (page\<lparr>pg_Truncated := True\<rparr>)"
| "Run_loop r slots sel prfx op (Suc n) (True, it) page =
     bindR (parseEntry (itr_Key it) prfx op) (\<lambda>(val, rid).
     bindR (settle r slots sel rid val) (\<lambda>ok.
       let pos = \<lparr>pos_Value = val, pos_ID = rid\<rparr>;
           page = page\<lparr>pg_Examined := pg_Examined page + 1, pg_Next := Some pos\<rparr>
       in if ok
          then let page = page\<lparr>pg_IDs := pg_IDs page @ [rid], pg_Positions := pg_Positions page @ [pos]\<rparr>
               in if int (length (pg_IDs page)) = sel_Limit sel then Inr page
                  else Run_loop r slots sel prfx op n (advance it (sel_Desc sel)) page
          else Run_loop r slots sel prfx op n (advance it (sel_Desc sel)) page))"

definition emptyPage :: Page where
  "emptyPage = \<lparr>pg_IDs = [], pg_Positions = [], pg_Examined = 0, pg_Next = None, pg_Exhausted = False, pg_Truncated = False\<rparr>"

definition Run :: "snapshot \<Rightarrow> Select \<Rightarrow> Page res option" where
  "Run r sel = (let op = ''attr.Run'' in
     if sel_Tenant sel = [] then Some (fail Invalid op ''a selection requires a tenant: there is no unscoped read path (Invariant 1)'')
     else if sel_Limit sel \<le> 0 then Some (fail Invalid op ''a selection limit must be greater than zero'')
     else case sel_Slots sel of
       None \<Rightarrow> Some (fail Invalid op ''a selection needs the registered slot table to read rows with'')
     | Some slots \<Rightarrow>
         let ns = (if sel_Namespace sel = [] then DefaultNamespace else sel_Namespace sel);
             effort = (if sel_Effort sel \<le> 0 then sel_Limit sel else sel_Effort sel);
             (prfx, rangeEnd) = AttrSlotRange (sel_Tenant sel) ns (sel_Slot sel)
         in case narrow prfx rangeEnd (sel_Preds sel) (sel_Slot sel) of
              None \<Rightarrow> Some (Inr (emptyPage\<lparr>pg_Exhausted := True\<rparr>))
            | Some (lower, upper) \<Rightarrow>
                (case seek (snapshot_NewIterator r (Some lower) upper) prfx sel of
                   None \<Rightarrow> None
                 | Some start \<Rightarrow>
                     Some (bindR (Run_loop r slots sel prfx op (nat effort) start emptyPage) (\<lambda>page.
                       case itr_Error (snd start) of
                         Some e \<Rightarrow> Inl e
                       | None \<Rightarrow> Inr (page\<lparr>pg_Exhausted := \<not> pg_Truncated page \<and> int (length (pg_IDs page)) < sel_Limit sel\<rparr>)))))"

section \<open>The walk, in both directions\<close>

text \<open>The keys a loop sees from a position on.\<close>

fun walk :: "bool \<Rightarrow> bool \<times> iterator \<Rightarrow> bytes list" where
  "walk desc (ok, Live it) = (if ok then map fst (if desc then iter_back it else iter_rest it) else [])"
| "walk desc (ok, Failed e) = []"

definition at_entry :: "bool \<times> iterator \<Rightarrow> bool" where
  "at_entry st \<longleftrightarrow> (case st of (ok, Live it) \<Rightarrow> ok = it_valid it | (ok, Failed e) \<Rightarrow> \<not> ok)"

lemma at_entry_settle [simp]: "at_entry (fst (iter_settle i it), Live (snd (iter_settle i it)))"
  by (simp add: at_entry_def fst_iter_settle)

lemma at_entry_advance: "at_entry (True, it) \<Longrightarrow> at_entry (advance it desc)"
  by (cases it) (auto simp: at_entry_def advance_def iter_Next_def iter_Prev_def map_prod_Live fst_iter_settle)

lemma walk_step:
  assumes "at_entry (True, it)"
  shows "walk desc (True, it) = itr_Key it # walk desc (advance it desc)"
proof (cases it)
  case (Live i)
  then have "it_valid i" using assms by (simp add: at_entry_def)
  moreover have "fst (iter_Next i) = it_valid (snd (iter_Next i))" "fst (iter_Prev i) = it_valid (snd (iter_Prev i))"
    using \<open>it_valid i\<close> by (simp_all add: iter_Next_def iter_Prev_def fst_iter_settle)
  ultimately show ?thesis
    using Live by (auto simp: advance_def iter_rest.simps [of i] iter_back.simps [of i] iter_rest_Nil_iff
        iter_back.simps [of "snd (iter_Prev i)"] map_prod_Live)
qed (use assms in \<open>simp add: at_entry_def\<close>)

lemma walk_False [simp]: "walk desc (False, it) = []"
  by (cases it) simp_all

text \<open>What examining the candidates \<open>ks\<close> makes of a page.\<close>

definition examined :: "(bytes \<Rightarrow> bytes \<times> id) \<Rightarrow> (bytes \<Rightarrow> bool) \<Rightarrow> bytes list \<Rightarrow> Page \<Rightarrow> Page" where
  "examined pos good ks page =
     page\<lparr>pg_Examined := pg_Examined page + int (length ks),
          pg_Next := (if ks = [] then pg_Next page else Some \<lparr>pos_Value = fst (pos (last ks)), pos_ID = snd (pos (last ks))\<rparr>),
          pg_IDs := pg_IDs page @ map (snd \<circ> pos) (filter good ks),
          pg_Positions := pg_Positions page @ map (\<lambda>k. \<lparr>pos_Value = fst (pos k), pos_ID = snd (pos k)\<rparr>) (filter good ks)\<rparr>"

lemma examined_Cons:
  "examined pos good (k # ks) page = examined pos good ks (examined pos good [k] page)"
  by (cases page) (simp add: examined_def)

lemma Run_loop_examines:
  assumes "at_entry start" "\<forall>k\<in>set (walk (sel_Desc sel) start). parseEntry k prfx op = Inr (pos k) \<and>
      settle r slots sel (snd (pos k)) (fst (pos k)) = Inr (good k)"
    and "int (length (pg_IDs page)) < sel_Limit sel"
  shows "\<exists>ks rest. walk (sel_Desc sel) start = ks @ rest \<and> length ks \<le> n \<and>
     (let page' = examined pos good ks page; full = (int (length (pg_IDs page')) = sel_Limit sel) in
      int (length (pg_IDs page')) \<le> sel_Limit sel \<and> (full \<or> rest = [] \<or> length ks = n) \<and>
      Run_loop r slots sel prfx op n start page = Inr (if full \<or> rest = [] then page' else page'\<lparr>pg_Truncated := True\<rparr>))"
  using assms
proof (induction n arbitrary: start page)
  case 0
  have e: "examined pos good [] page = page" by (simp add: examined_def)
  obtain ok it where st: "start = (ok, it)" by force
  then have "ok \<Longrightarrow> walk (sel_Desc sel) start \<noteq> []" using walk_step [of it "sel_Desc sel"] "0.prems"(1) by auto
  then show ?case
    using "0.prems"(3) e st by (rule_tac exI [of _ "[]"], rule_tac exI [of _ "walk (sel_Desc sel) start"]) (cases ok; simp add: Let_def)
next
  case (Suc n)
  obtain ok it where st: "start = (ok, it)" by force
  show ?case
  proof (cases ok)
    case False
    then show ?thesis using st Suc.prems(3) by (intro exI [of _ "[]"]) (simp add: examined_def Let_def)
  next
    case True
    let ?k = "itr_Key it" and ?next = "advance it (sel_Desc sel)" and ?page = "examined pos good [itr_Key it] page"
    have ae: "at_entry (True, it)" using Suc.prems(1) st True by simp
    have w: "walk (sel_Desc sel) start = ?k # walk (sel_Desc sel) ?next" using walk_step [OF ae] st True by simp
    have k: "parseEntry ?k prfx op = Inr (pos ?k)" "settle r slots sel (snd (pos ?k)) (fst (pos ?k)) = Inr (good ?k)"
      using Suc.prems(2) w by simp_all
    obtain val rid where pk: "pos ?k = (val, rid)" by force
    show ?thesis
    proof (cases "int (length (pg_IDs ?page)) = sel_Limit sel")
      case True
      then have "good ?k" using Suc.prems(3) by (auto simp: examined_def split: if_splits)
      then have "Run_loop r slots sel prfx op (Suc n) start page = Inr ?page"
        using k pk True st \<open>ok\<close> by (simp add: examined_def Let_def)
      then show ?thesis
        using w True by (rule_tac exI [of _ "[?k]"], rule_tac exI [of _ "walk (sel_Desc sel) ?next"]) (simp add: Let_def)
    next
      case False
      have run: "Run_loop r slots sel prfx op (Suc n) start page = Run_loop r slots sel prfx op n ?next ?page"
        using k pk False st \<open>ok\<close> by (cases "good ?k") (simp_all add: examined_def Let_def)
      have "int (length (pg_IDs ?page)) < sel_Limit sel"
        using False Suc.prems(3) by (auto simp: examined_def split: if_splits)
      with Suc.IH [of ?next ?page] at_entry_advance [OF ae] Suc.prems(2) w
      obtain ks rest where "walk (sel_Desc sel) ?next = ks @ rest" "length ks \<le> n"
         "let page' = examined pos good ks ?page; full = (int (length (pg_IDs page')) = sel_Limit sel) in
          int (length (pg_IDs page')) \<le> sel_Limit sel \<and> (full \<or> rest = [] \<or> length ks = n) \<and>
          Run_loop r slots sel prfx op n ?next ?page = Inr (if full \<or> rest = [] then page' else page'\<lparr>pg_Truncated := True\<rparr>)"
        by auto
      then show ?thesis
        using w run by (rule_tac exI [of _ "?k # ks"], rule_tac exI [of _ rest]) (simp add: examined_Cons [of pos good ?k ks])
    qed
  qed
qed

section \<open>Where a walk starts\<close>

definition beyond :: "bytes \<Rightarrow> Select \<Rightarrow> bytes \<Rightarrow> bool" where
  "beyond prfx sel k \<longleftrightarrow>
     (case sel_After sel of
        None \<Rightarrow> True
      | Some pos \<Rightarrow>
          let at = entryKey prfx (pos_Value pos) (pos_ID pos) in if sel_Desc sel then k < at else at < k)"

definition directed :: "Select \<Rightarrow> bytes list \<Rightarrow> bytes list" where
  "directed sel ks = (if sel_Desc sel then rev ks else ks)"

lemma walk_settle:
  assumes "iter_open v it"
  shows "i < it_hi it \<Longrightarrow> walk True (map_prod id Live (iter_settle i it)) = rev (drop (nat (it_lo it)) (take (nat (i + 1)) (v_keys v)))"
    and "it_lo it \<le> i \<Longrightarrow> walk False (map_prod id Live (iter_settle i it)) = drop (nat i) (take (nat (it_hi it)) (v_keys v))"
proof -
  assume "i < it_hi it"
  from iter_back_settle [OF assms this]
  show "walk True (map_prod id Live (iter_settle i it)) = rev (drop (nat (it_lo it)) (take (nat (i + 1)) (v_keys v)))"
    by (cases "it_valid (snd (iter_settle i it))")
      (simp_all only: map_prod_Live walk.simps fst_iter_settle map_fst_entry if_True if_False,
        simp_all add: iter_back.simps)
next
  assume "it_lo it \<le> i"
  from iter_rest_settle [OF assms this]
  show "walk False (map_prod id Live (iter_settle i it)) = drop (nat i) (take (nat (it_hi it)) (v_keys v))"
    by (cases "it_valid (snd (iter_settle i it))")
      (simp_all only: map_prod_Live walk.simps fst_iter_settle map_fst_entry if_True if_False,
        simp_all add: iter_rest.simps)
qed

lemma walk_before:
  fixes v :: view and lower upper :: "bytes option"
  assumes "view_ok v"
  defines "it \<equiv> newIter v lower upper"
  obtains p where "iter_SeekGE at it = Some p"
    "at_entry (map_prod id Live (if fst p then iter_Prev (snd p) else iter_Last (snd p)))"
    "walk True (map_prod id Live (if fst p then iter_Prev (snd p) else iter_Last (snd p))) =
       rev (filter (\<lambda>k. in_range (bound_range lower upper) k \<and> k < at) (v_keys v))"
proof -
  have o: "iter_open v it" unfolding it_def by (rule newIter_open [OF assms(1)])
  then have v: "it_view it = Some v" "0 \<le> it_lo it" "it_lo it \<le> it_hi it" "it_hi it \<le> int (length (v_keys v))"
    by (simp_all add: iter_open_def)
  let ?i = "max (it_lo it) (int (SearchStrings (v_keys v) at))"
  let ?p = "iter_settle ?i it"
  let ?q = "if fst ?p then iter_Prev (snd ?p) else iter_Last (snd ?p)"
  have q: "?q = iter_settle (min ?i (it_hi it) - 1) (snd ?p)"
    using iter_settle_valid [OF o, of ?i] iter_settle_end [of ?i it]
    by (cases "?i < it_hi it") (auto simp: iter_Prev_def iter_Last_def)
  have n: "nat (min ?i (it_hi it)) = min (max (nat (it_lo it)) (SearchStrings (v_keys v) at)) (nat (it_hi it))"
    using v by linarith
  have below: "drop (nat (it_lo it)) (take (nat (min ?i (it_hi it))) (v_keys v)) =
      filter (\<lambda>k. k < at) (filter (in_range (bound_range lower upper)) (v_keys v))"
    using slice_below [of "v_keys v" "nat (it_hi it)" "nat (it_lo it)" at] newIter_slice [OF assms(1), of lower upper] assms(1) v
    unfolding n by (simp add: view_ok_def it_def)
  show thesis
  proof (rule that [of ?p])
    show "iter_SeekGE at it = Some ?p" by (simp add: iter_SeekGE_def v Let_def max_def)
    show "at_entry (map_prod id Live ?q)" unfolding q by (simp add: map_prod_Live)
    show "walk True (map_prod id Live ?q) = rev (filter (\<lambda>k. in_range (bound_range lower upper) k \<and> k < at) (v_keys v))"
      unfolding q using walk_settle(1) [of v "snd ?p" "min ?i (it_hi it) - 1"] o below by (simp add: conj_commute)
  qed
qed

lemma seek_walk:
  assumes "view_ok v"
  obtains start where "seek (Live (newIter v lower upper)) prfx sel = Some start" "at_entry start"
    "walk (sel_Desc sel) start =
       directed sel (filter (\<lambda>k. in_range (bound_range lower upper) k \<and> beyond prfx sel k) (v_keys v))"
proof -
  let ?it = "newIter v lower upper" and ?ks = "v_keys v"
  have o: "iter_open v ?it" by (rule newIter_open [OF assms])
  have s: "sorted_wrt (<) ?ks" using assms by (simp add: view_ok_def)
  note slice = newIter_slice [OF assms, of lower upper]
  show thesis
  proof (cases "sel_After sel")
    case None
    let ?start = "map_prod id Live (if sel_Desc sel then iter_Last ?it else iter_First ?it)"
    have "seek (Live ?it) prfx sel = Some ?start" by (simp add: seek_def None)
    moreover have "at_entry ?start" by (simp add: iter_Last_def iter_First_def map_prod_Live)
    moreover have "walk (sel_Desc sel) ?start = directed sel (filter (in_range (bound_range lower upper)) ?ks)"
      using slice walk_settle(1) [OF o, of "it_hi ?it - 1"] walk_settle(2) [OF o, of "it_lo ?it"]
      by (simp add: directed_def iter_Last_def iter_First_def)
    ultimately show ?thesis using that [of ?start] by (simp add: beyond_def None)
  next
    case (Some pos)
    let ?at = "entryKey prfx (pos_Value pos) (pos_ID pos)"
    show ?thesis
    proof (cases "sel_Desc sel")
      case True
      obtain p where "iter_SeekGE ?at ?it = Some p"
        "at_entry (map_prod id Live (if fst p then iter_Prev (snd p) else iter_Last (snd p)))"
        "walk True (map_prod id Live (if fst p then iter_Prev (snd p) else iter_Last (snd p))) =
         rev (filter (\<lambda>k. in_range (bound_range lower upper) k \<and> k < ?at) ?ks)"
        by (rule walk_before [OF assms])
      then show ?thesis
        using that [of "map_prod id Live (if fst p then iter_Prev (snd p) else iter_Last (snd p))"] True
        by (cases p) (simp add: seek_def Some Let_def directed_def beyond_def)
    next
      case False
      obtain it' where "iter_SeekGE (successor ?at) ?it = Some (iter_rest it' \<noteq> [], it')"
        "iter_rest it' = map (entry v) (filter (\<lambda>k. successor ?at \<le> k \<and> in_range (bound_range lower upper) k) ?ks)"
        by (rule iter_SeekGE_rest [OF assms iter_for_newIter [OF assms]])
      moreover have "successor ?at \<le> k \<longleftrightarrow> ?at < k" for k
        using less_snoc_0 [of k ?at] by (simp add: successor_def not_less [symmetric])
      ultimately have it': "iter_SeekGE (successor ?at) ?it = Some (iter_rest it' \<noteq> [], it')"
          "iter_rest it' = map (entry v) (filter (\<lambda>k. in_range (bound_range lower upper) k \<and> beyond prfx sel k) ?ks)"
        by (simp_all add: beyond_def Some False conj_commute)
      show ?thesis
      proof (rule that)
        show "seek (Live ?it) prfx sel = Some (iter_rest it' \<noteq> [], Live it')"
          using it'(1) by (simp add: seek_def Some False Let_def)
        show "at_entry (iter_rest it' \<noteq> [], Live it')" by (simp add: at_entry_def iter_rest_Nil_iff)
        show "walk (sel_Desc sel) (iter_rest it' \<noteq> [], Live it') =
            directed sel (filter (\<lambda>k. in_range (bound_range lower upper) k \<and> beyond prfx sel k) ?ks)"
          unfolding walk.simps it'(2) by (simp add: False directed_def del: map_map)
      qed
    qed
  qed
qed

section \<open>Narrowing loses no match\<close>

text \<open>What a bound says of an index key under \<open>p\<close>.\<close>

definition lowOK :: "bytes \<Rightarrow> bytes option \<times> bool \<Rightarrow> bytes \<Rightarrow> bool" where
  "lowOK p b k \<longleftrightarrow> (case b of (None, _) \<Rightarrow> True | (Some l, incl) \<Rightarrow> p @ l \<le> k \<and> (incl \<or> \<not> prefix (p @ l) k))"

definition highOK :: "bytes \<Rightarrow> bytes option \<times> bool \<Rightarrow> bytes \<Rightarrow> bool" where
  "highOK p b k \<longleftrightarrow> (case b of (None, _) \<Rightarrow> True | (Some h, incl) \<Rightarrow> k < p @ h \<or> incl \<and> prefix (p @ h) k)"

definition bndsOK :: "bytes \<Rightarrow> bnds \<Rightarrow> bytes \<Rightarrow> bool" where
  "bndsOK p b k \<longleftrightarrow> lowOK p (fst b) k \<and> highOK p (snd b) k"

lemma bndsOK_unbounded [simp]: "bndsOK p unbounded k"
  by (simp add: bndsOK_def unbounded_def lowOK_def highOK_def)

lemma bndsOK_tighten: "bndsOK p cur k \<Longrightarrow> bndsOK p nxt k \<Longrightarrow> bndsOK p (tighten cur nxt) k"
  by (auto simp: bndsOK_def tighten_def lowOK_def highOK_def tightenLow_def tightenHigh_def
      split: prod.splits option.splits if_splits)

lemma bndsOK_fold: "bndsOK p cur k \<Longrightarrow> \<forall>b\<in>set bs. bndsOK p b k \<Longrightarrow> bndsOK p (fold (\<lambda>b cur. tighten cur b) bs cur) k"
  by (induction bs arbitrary: cur) (simp_all add: bndsOK_tighten)

fun pred_typed :: "16 word \<Rightarrow> SlotType \<Rightarrow> Pred \<Rightarrow> bool" where
  "pred_typed slot ty (eqPred s w) = True"
| "pred_typed slot ty (rangePred s lo hi loIncl hiIncl) =
     (s = slot \<longrightarrow> (\<forall>w. lo = Some w \<or> hi = Some w \<longrightarrow> value_ok w \<and> v_typ w = ty))"
| "pred_typed slot ty (andPred ps) = list_all (pred_typed slot ty) ps"
| "pred_typed slot ty (notPred p) = True"

lemma bound_key_simps:
  "lowOK p (Some l, incl) (p @ y) \<longleftrightarrow> \<not> y < l \<and> (incl \<or> \<not> prefix l y)"
  "highOK p (Some h, incl) (p @ y) \<longleftrightarrow> y < h \<or> incl \<and> prefix h y"
  "lowOK p (None, incl) k" "highOK p (None, incl) k"
  by (simp_all add: lowOK_def highOK_def not_less)

lemma value_bound_cases: "value_bound w = None \<or> value_bound w = Some (OrderBytes w)"
  by (simp add: value_bound_def Let_def)

lemma range_bound_sound:
  assumes "value_ok v" "value_ok w" "v_typ v = v_typ w"
  shows "\<not> value_Compare v w < 0 \<Longrightarrow> (value_Compare v w = 0 \<Longrightarrow> incl) \<Longrightarrow> lowOK p (value_bound w, incl) (p @ OrderBytes v @ x)"
    and "\<not> 0 < value_Compare v w \<Longrightarrow> (value_Compare v w = 0 \<Longrightarrow> incl) \<Longrightarrow> highOK p (value_bound w, incl) (p @ OrderBytes v @ x)"
proof -
  note less = OrderBytes_less_iff(1) [OF assms, of x "[]"] OrderBytes_less_iff(2) [OF assms]
  have pre: "prefix (OrderBytes w) (OrderBytes v @ x) \<longleftrightarrow> v = w"
    using OrderBytes_append_eq_iff [OF assms, of x] by (auto simp: prefix_def)
  {
    assume "\<not> value_Compare v w < 0" "value_Compare v w = 0 \<Longrightarrow> incl"
    then show "lowOK p (value_bound w, incl) (p @ OrderBytes v @ x)"
      using value_bound_cases [of w] less pre by (auto simp: bound_key_simps)
  next
    assume "\<not> 0 < value_Compare v w" "value_Compare v w = 0 \<Longrightarrow> incl"
    then show "highOK p (value_bound w, incl) (p @ OrderBytes v @ x)"
      using value_bound_cases [of w] less pre by (cases "value_Compare v w = 0") (auto simp: bound_key_simps)
  }
qed

lemma bounds_sound:
  assumes "Eval q row" "row_Get row slot = Some v" "value_ok v" "pred_typed slot (v_typ v) q"
  shows "bndsOK p (bounds slot q) (p @ OrderBytes v @ x)"
  using assms
proof (induction q)
  case (eqPred s w)
  show ?case
  proof (cases "s = slot")
    case True
    with eqPred have "w = v" by simp
    with True show ?thesis using value_bound_cases [of v] append_less_append_iff [of "OrderBytes v" x "[]"]
      by (auto simp: bndsOK_def bound_key_simps prefix_def)
  qed simp
next
  case (rangePred s lo hi loIncl hiIncl)
  show ?case
  proof (cases "s = slot")
    case True
    have typed: "value_ok w" "v_typ v = v_typ w" if "lo = Some w \<or> hi = Some w" for w
      using rangePred.prems(4) True that unfolding pred_typed.simps by metis+
    have "lowOK p (case lo of None \<Rightarrow> (None, True) | Some l \<Rightarrow> (value_bound l, loIncl)) (p @ OrderBytes v @ x)"
    proof (cases lo)
      case (Some l)
      then have "value_ok l" "v_typ v = v_typ l" using typed [of l] by blast+
      moreover have "\<not> value_Compare v l < 0" "value_Compare v l = 0 \<Longrightarrow> loIncl"
        using rangePred.prems(1,2) True Some by (simp_all add: Let_def)
      ultimately show ?thesis unfolding Some option.case using range_bound_sound(1) [OF \<open>value_ok v\<close>] by blast
    qed (simp add: bound_key_simps)
    moreover have "highOK p (case hi of None \<Rightarrow> (None, True) | Some h \<Rightarrow> (value_bound h, hiIncl)) (p @ OrderBytes v @ x)"
    proof (cases hi)
      case (Some h)
      then have "value_ok h" "v_typ v = v_typ h" using typed [of h] by blast+
      moreover have "\<not> 0 < value_Compare v h" "value_Compare v h = 0 \<Longrightarrow> hiIncl"
        using rangePred.prems(1,2) True Some by (simp_all add: Let_def)
      ultimately show ?thesis unfolding Some option.case using range_bound_sound(2) [OF \<open>value_ok v\<close>] by blast
    qed (simp add: bound_key_simps)
    ultimately show ?thesis using True by (simp add: bndsOK_def)
  qed simp
next
  case (andPred ps)
  then show ?case by (auto simp: list_all_iff intro!: bndsOK_fold)
qed simp


lemma spanEnd_bounds:
  "spanEnd p = None \<Longrightarrow> p \<le> k \<longleftrightarrow> prefix p k"
  "spanEnd p = Some u \<Longrightarrow> p \<le> k \<and> k < u \<longleftrightarrow> prefix p k"
  "spanEnd p = Some u \<Longrightarrow> p < u"
  using in_PrefixRange_iff [of p k] in_PrefixRange_iff [of p p]
  by (auto simp: spanEnd_def PrefixRange_def in_range_alt)

lemma narrow_sound:
  assumes "prefix p k" "\<forall>q\<in>set preds. bndsOK p (bounds slot q) k"
  shows "\<exists>l u. narrow p (spanEnd p) preds slot = Some (l, u) \<and> in_range (l, u) k"
proof -
  obtain lo loIncl hi hiIncl where b: "fold (\<lambda>q cur. tighten cur (bounds slot q)) preds unbounded = ((lo, loIncl), (hi, hiIncl))"
    by (metis surj_pair)
  have "bndsOK p (fold (\<lambda>b cur. tighten cur b) (map (bounds slot) preds) unbounded) k"
    using assms(2) by (intro bndsOK_fold) simp_all
  then have ok: "lowOK p (lo, loIncl) k" "highOK p (hi, hiIncl) k" using b by (simp_all add: fold_map comp_def bndsOK_def)
  define lower where "lower = (case lo of None \<Rightarrow> Some p | Some l \<Rightarrow> if loIncl then Some (p @ l) else spanEnd (p @ l))"
  define upper where "upper = (case hi of None \<Rightarrow> spanEnd p | Some h \<Rightarrow> if hiIncl then spanEnd (p @ h) else Some (p @ h))"
  have low: "\<exists>l. lower = Some l \<and> l \<le> k"
  proof (cases "lo = None \<or> loIncl")
    case True
    then show ?thesis using ok(1) assms(1) by (auto simp: lower_def lowOK_def prefix_def split: option.splits)
  next
    case False
    then obtain l where l: "lo = Some l" "p @ l \<le> k" "\<not> prefix (p @ l) k" using ok(1) by (auto simp: lowOK_def)
    then show ?thesis using spanEnd_bounds(1) [of "p @ l" k] spanEnd_bounds(2) [of "p @ l" _ k] False
      by (cases "spanEnd (p @ l)") (auto simp: lower_def not_less)
  qed
  have high: "case upper of None \<Rightarrow> True | Some u \<Rightarrow> k < u"
  proof (cases hi)
    case None
    then show ?thesis using spanEnd_bounds(2) [of p _ k] assms(1) by (auto simp: upper_def split: option.split)
  next
    case (Some h)
    then show ?thesis using ok(2) spanEnd_bounds(2) [of "p @ h" _ k] spanEnd_bounds(3) [of "p @ h"]
      by (auto simp: upper_def highOK_def split: option.split)
  qed
  have "narrow p (spanEnd p) preds slot = (case lower of None \<Rightarrow> None | Some l \<Rightarrow> (case upper of
      Some u \<Rightarrow> if u \<le> l then None else Some (l, upper) | None \<Rightarrow> Some (l, upper)))"
    unfolding narrow_def b lower_def upper_def Let_def by simp
  with low high show ?thesis by (auto simp: in_range_alt split: option.splits)
qed

lemma narrow_within:
  assumes "narrow p (spanEnd p) preds slot = Some (l, u)" "in_range (l, u) k"
  shows "prefix p k"
proof -
  obtain lo loIncl hi hiIncl where b: "fold (\<lambda>q cur. tighten cur (bounds slot q)) preds unbounded = ((lo, loIncl), (hi, hiIncl))"
    by (metis surj_pair)
  have l: "p \<le> l"
  proof (cases "lo = None \<or> loIncl")
    case True
    then show ?thesis using assms(1) by (auto simp: narrow_def b Let_def split: option.splits if_splits)
  next
    case False
    then obtain l' where "lo = Some l'" by auto
    with False have "spanEnd (p @ l') = Some l" using assms(1) by (auto simp: narrow_def b Let_def split: option.splits if_splits)
    then show ?thesis using spanEnd_bounds(3) [of "p @ l'" l] order_trans [OF le_append [of p l'] less_imp_le] by blast
  qed
  have u: "u = (case hi of None \<Rightarrow> spanEnd p | Some h \<Rightarrow> if hiIncl then spanEnd (p @ h) else Some (p @ h))"
    using assms(1) by (auto simp: narrow_def b Let_def split: option.splits if_splits)
  have k: "l \<le> k" "\<And>e. u = Some e \<Longrightarrow> k < e" using assms(2) by (auto simp: in_range_alt)
  show ?thesis
  proof (cases "spanEnd p")
    case None
    then show ?thesis using spanEnd_bounds(1) [of p k] order_trans [OF l k(1)] by simp
  next
    case (Some e)
    have below: "p @ h < e" for h using spanEnd_bounds(2) [OF Some, of "p @ h"] by (simp add: prefix_def)
    have "k < e \<or> prefix p k"
    proof (cases hi)
      case None
      then show ?thesis using u k(2) Some by simp
    next
      case (Some h)
      show ?thesis
      proof (cases "p @ h \<le> k")
        case True
        then show ?thesis
          using u Some k(2) below [of h] spanEnd_bounds(1) [of "p @ h" k] spanEnd_bounds(2) [of "p @ h" _ k]
          by (cases hiIncl; cases "spanEnd (p @ h)") (auto dest: append_prefixD)
      next
        case False
        then show ?thesis using less_trans [OF _ below [of h], of k] by (simp add: not_le)
      qed
    qed
    then show ?thesis using spanEnd_bounds(2) [OF Some, of k] order_trans [OF l k(1)] by blast
  qed
qed

section \<open>A page and its continuation\<close>

definition sel_ns :: "Select \<Rightarrow> nspace" where
  "sel_ns sel = (if sel_Namespace sel = [] then DefaultNamespace else sel_Namespace sel)"

definition slot_prefix :: "Select \<Rightarrow> bytes" where
  "slot_prefix sel = fst (AttrSlotRange (sel_Tenant sel) (sel_ns sel) (sel_Slot sel))"

text \<open>
  What a selection is over: the entries of the slot's index past the position, in the order asked
  for, whose record's row still holds the entry's value and satisfies every predicate.
\<close>

definition selects :: "view \<Rightarrow> Slots \<Rightarrow> Select \<Rightarrow> bytes \<Rightarrow> bool" where
  "selects v slots sel k \<longleftrightarrow>
     (\<exists>rid b row val. k = IndexKey (sel_Tenant sel) (sel_ns sel) (sel_Slot sel) val rid \<and>
        v_data v (RowKey (sel_Tenant sel) (sel_ns sel) rid) = Some b \<and> DecodeRow b slots = Inr row \<and>
        row_Get row (sel_Slot sel) = Some val \<and> Match row (sel_Preds sel))"

definition selection :: "view \<Rightarrow> Slots \<Rightarrow> Select \<Rightarrow> bytes list" where
  "selection v slots sel =
     directed sel (filter (\<lambda>k. beyond (slot_prefix sel) sel k \<and> selects v slots sel k) (v_keys v))"

lemma AttrSlotRange_prefix: "AttrSlotRange (sel_Tenant sel) (sel_ns sel) (sel_Slot sel) = (slot_prefix sel, spanEnd (slot_prefix sel))"
  by (simp add: slot_prefix_def AttrSlotRange_def spanEnd_def PrefixRange_def)

lemma IndexKey_entryKey:
  "IndexKey (sel_Tenant sel) (sel_ns sel) (sel_Slot sel) val rid = entryKey (slot_prefix sel) (OrderBytes val) rid"
  by (simp add: IndexKey_def AttrIndex_def entryKey_def slot_prefix_def AttrSlotRange_def PrefixRange_def)

lemma parseEntry_entryKey [simp]: "parseEntry (entryKey p val rid) p op = Inr (val, rid)"
  by (simp add: parseEntry_def entryKey_def idLen_def)

lemma long_key_entry:
  assumes "prefix p k" "length p + idLen \<le> length k"
  obtains val rid where "k = entryKey p val rid"
proof -
  obtain r where r: "k = p @ r" using assms(1) by (auto simp: prefix_def)
  let ?n = "length r - idLen"
  have "length (drop ?n r) = 16" using assms(2) r by (simp add: idLen_def)
  then obtain rid where "drop ?n r = id_bytes rid" using FromBytes_iff [of "drop ?n r"] by (auto simp: FromBytes_def)
  then have "k = entryKey p (take ?n r) rid" using r append_take_drop_id [of ?n r] by (simp add: entryKey_def)
  then show thesis by (rule that)
qed

lemma entryKey_inject: "entryKey p val rid = entryKey p val' rid' \<longleftrightarrow> val = val' \<and> rid = rid'"
  by (auto simp: entryKey_def append_eq_append_conv)

lemma settle_selects:
  "settle (Some v) slots sel rid val = Inr (selects v slots sel (entryKey (slot_prefix sel) val rid))"
proof -
  let ?k = "RowKey (sel_Tenant sel) (sel_ns sel) rid"
  have sel: "selects v slots sel (entryKey (slot_prefix sel) val rid) \<longleftrightarrow>
      (\<exists>b row w. OrderBytes w = val \<and> v_data v ?k = Some b \<and> DecodeRow b slots = Inr row \<and>
        row_Get row (sel_Slot sel) = Some w \<and> Match row (sel_Preds sel))"
    unfolding selects_def IndexKey_entryKey entryKey_inject by auto
  show ?thesis
  proof (cases "v_data v ?k")
    case None
    then show ?thesis unfolding sel
      by (simp add: settle_def ReadRow_def decodeRowFrom_def sel_ns_def [symmetric] snapshot_Get_def lookup_def fail_def)
  next
    case (Some b)
    then show ?thesis unfolding sel
      by (cases "DecodeRow b slots")
        (auto simp: settle_def ReadRow_def decodeRowFrom_def sel_ns_def [symmetric] snapshot_Get_def lookup_def split: option.split)
  qed
qed

lemma selects_narrowed:
  assumes "selects v slots sel k" "slots_Get slots (sel_Slot sel) = Some d"
    and "list_all (pred_typed (sel_Slot sel) (sd_Type d)) (sel_Preds sel)"
  shows "\<exists>l u. narrow (slot_prefix sel) (spanEnd (slot_prefix sel)) (sel_Preds sel) (sel_Slot sel) = Some (l, u) \<and> in_range (l, u) k"
proof -
  obtain rid b row val where k: "k = entryKey (slot_prefix sel) (OrderBytes val) rid" "DecodeRow b slots = Inr row"
      "row_Get row (sel_Slot sel) = Some val" "Match row (sel_Preds sel)"
    using assms(1) unfolding selects_def IndexKey_entryKey by blast
  have val: "value_ok val" "v_typ val = sd_Type d"
    using DecodeRow_typed [OF k(2)] k(3) assms(2) unfolding row_typed_def row_fits_def by (metis option.inject)+
  have "bndsOK (slot_prefix sel) (bounds (sel_Slot sel) q) k" if "q \<in> set (sel_Preds sel)" for q
    unfolding k(1) entryKey_def
    by (rule bounds_sound [OF _ k(3) val(1)]) (use k(4) assms(3) that val(2) in \<open>auto simp: Match_def list_all_iff\<close>)
  then show ?thesis by (intro narrow_sound) (auto simp: k(1) entryKey_def)
qed

lemma filter_beyond_last:
  assumes "sorted_wrt R (ks @ rest)" "ks \<noteq> []" "\<And>x. \<not> R x x" "\<And>x y. R x y \<Longrightarrow> \<not> R y x"
  shows "filter (R (last ks)) (ks @ rest) = rest"
proof -
  have "\<not> R (last ks) k" if "k \<in> set ks" for k
  proof -
    have s: "sorted_wrt R (butlast ks @ [last ks])" using assms(1,2) by (simp add: sorted_wrt_append)
    have "k \<in> set (butlast ks) \<or> k = last ks" using that assms(2) by (metis Un_iff append_butlast_last_id set_ConsD set_append empty_iff empty_set)
    then show ?thesis using s assms(3,4) by (auto simp: sorted_wrt_append)
  qed
  moreover have "R (last ks) k" if "k \<in> set rest" for k using assms(1,2) that by (auto simp: sorted_wrt_append)
  ultimately show ?thesis by (simp add: filter_empty_conv filter_id_conv)
qed

lemma directed_filter: "filter Q (directed sel ks) = directed sel (filter Q ks)"
  by (simp add: directed_def rev_filter)

lemma directed_sorted:
  assumes "sorted_wrt (<) (ks :: bytes list)"
  shows "sorted_wrt (\<lambda>x y. if sel_Desc sel then y < x else x < y) (directed sel ks)"
  using assms by (simp add: directed_def sorted_wrt_rev)

lemma seek_Live: "seek (Live it) prfx sel = Some start \<Longrightarrow> itr_Error (snd start) = None"
  by (auto simp: seek_def Let_def map_prod_Live split: option.splits if_splits)

text \<open>What a page that stopped at \<open>last ks\<close> leaves is what a selection resumed there finds.\<close>

lemma selection_resumes:
  assumes "view_ok v" "ks \<noteq> []" "pos_key = entryKey (slot_prefix sel) (pos_Value pos) (pos_ID pos)" "last ks = pos_key"
    and W: "directed sel (filter (\<lambda>k. Q k \<and> beyond (slot_prefix sel) sel k) (v_keys v)) = ks @ rest"
    and Q: "\<And>k. selects v slots sel k \<Longrightarrow> Q k"
  shows "filter (selects v slots sel) rest = selection v slots (sel\<lparr>sel_After := Some pos\<rparr>)"
proof -
  let ?R = "\<lambda>x y. if sel_Desc sel then y < x else x < (y :: bytes)" and ?sel = "sel\<lparr>sel_After := Some pos\<rparr>"
  have s: "sorted_wrt ?R (ks @ rest)"
    using directed_sorted [of "filter (\<lambda>k. Q k \<and> beyond (slot_prefix sel) sel k) (v_keys v)" sel] assms(1) W
    by (simp add: view_ok_def sorted_wrt_filter_less)
  have "filter (?R (last ks)) (ks @ rest) = rest"
    by (rule filter_beyond_last [OF s assms(2)]) (auto split: if_splits)
  then have rest: "filter (?R pos_key) (ks @ rest) = rest" unfolding assms(4) .
  have by': "beyond (slot_prefix ?sel) ?sel k \<longleftrightarrow> ?R pos_key k" for k
    by (simp add: beyond_def assms(3) slot_prefix_def sel_ns_def)
  have sel: "selects v slots ?sel = selects v slots sel"
    by (simp add: selects_def fun_eq_iff sel_ns_def)
  have "pos_key \<in> set (ks @ rest)" using assms(2,4) by auto
  then have "beyond (slot_prefix sel) sel pos_key" using W [symmetric] by (auto simp: directed_def split: if_splits)
  then have trans: "beyond (slot_prefix sel) sel k" if "?R pos_key k" for k
    using that by (auto simp: beyond_def Let_def split: option.splits if_splits intro: less_trans)
  have "filter (selects v slots sel) rest = filter (\<lambda>k. ?R pos_key k \<and> selects v slots sel k) (ks @ rest)"
    by (simp only: filter_filter [symmetric] rest)
  also have "\<dots> = directed sel (filter (\<lambda>k. ?R pos_key k \<and> selects v slots sel k) (v_keys v))"
    unfolding W [symmetric] directed_filter filter_filter
    by (rule arg_cong [where f = "directed sel"], rule filter_cong) (use Q trans in auto)
  also have "\<dots> = selection v slots ?sel"
    by (simp add: selection_def by' sel directed_def)
  finally show ?thesis .
qed

lemma Run_narrowed:
  assumes "sel_Tenant sel \<noteq> []" "0 < sel_Limit sel" "sel_Slots sel = Some slots"
  shows "Run (Some v) sel = (case narrow (slot_prefix sel) (spanEnd (slot_prefix sel)) (sel_Preds sel) (sel_Slot sel) of
      None \<Rightarrow> Some (Inr (emptyPage\<lparr>pg_Exhausted := True\<rparr>))
    | Some (lower, upper) \<Rightarrow>
        (case seek (Live (newIter v (Some lower) upper)) (slot_prefix sel) sel of
           None \<Rightarrow> None
         | Some start \<Rightarrow>
             Some (bindR (Run_loop (Some v) slots sel (slot_prefix sel) ''attr.Run''
                 (nat (if sel_Effort sel \<le> 0 then sel_Limit sel else sel_Effort sel)) start emptyPage) (\<lambda>page.
               Inr (page\<lparr>pg_Exhausted := \<not> pg_Truncated page \<and> int (length (pg_IDs page)) < sel_Limit sel\<rparr>)))))"
  using assms seek_Live unfolding Run_def Let_def sel_ns_def [symmetric] AttrSlotRange_prefix
  by (auto simp: snapshot_NewIterator_def split: option.split prod.split)

lemma Run_examines:
  fixes v :: view and slots :: Slots and sel :: Select
  defines "good \<equiv> selects v slots sel" and "pos \<equiv> \<lambda>k. projr (parseEntry k (slot_prefix sel) ''attr.Run'')"
  assumes "view_ok v" "sel_Tenant sel \<noteq> []" "0 < sel_Limit sel" "sel_Slots sel = Some slots"
    and long: "\<forall>k\<in>set (v_keys v). prefix (slot_prefix sel) k \<longrightarrow> length (slot_prefix sel) + idLen \<le> length k"
    and lu: "narrow (slot_prefix sel) (spanEnd (slot_prefix sel)) (sel_Preds sel) (sel_Slot sel) = Some (l, u)"
  obtains ks rest full where
    "directed sel (filter (\<lambda>k. in_range (l, u) k \<and> beyond (slot_prefix sel) sel k) (v_keys v)) = ks @ rest"
    "\<And>k. k \<in> set (ks @ rest) \<Longrightarrow> k = entryKey (slot_prefix sel) (fst (pos k)) (snd (pos k))"
    "full \<longleftrightarrow> int (length (filter good ks)) = sel_Limit sel" "int (length (filter good ks)) \<le> sel_Limit sel"
    "rest \<noteq> [] \<or> full \<Longrightarrow> ks \<noteq> []"
    "Run (Some v) sel = Some (Inr ((examined pos good ks emptyPage)\<lparr>pg_Truncated := \<not> full \<and> rest \<noteq> [], pg_Exhausted := rest = [] \<and> \<not> full\<rparr>))"
proof -
  let ?p = "slot_prefix sel" and ?op = "''attr.Run''"
  let ?n = "nat (if sel_Effort sel \<le> 0 then sel_Limit sel else sel_Effort sel)"
  obtain start where start: "seek (Live (newIter v (Some l) u)) ?p sel = Some start" "at_entry start"
      "walk (sel_Desc sel) start = directed sel (filter (\<lambda>k. in_range (l, u) k \<and> beyond ?p sel k) (v_keys v))"
    using seek_walk [OF assms(3), of "Some l" u ?p sel] by (auto simp: bound_range_def)
  have entry: "parseEntry k ?p ?op = Inr (pos k) \<and> k = entryKey ?p (fst (pos k)) (snd (pos k))"
    if "k \<in> set (walk (sel_Desc sel) start)" for k
  proof -
    have "k \<in> set (v_keys v)" "in_range (l, u) k"
      using that start(3) by (auto simp: directed_def split: if_splits)
    then have "prefix ?p k" using narrow_within [of ?p "sel_Preds sel" "sel_Slot sel" l u k] lu by simp
    with \<open>k \<in> set (v_keys v)\<close> long obtain val rid where "k = entryKey ?p val rid" by (meson long_key_entry)
    then show ?thesis by (simp add: pos_def)
  qed
  then have "\<forall>k\<in>set (walk (sel_Desc sel) start). parseEntry k ?p ?op = Inr (pos k) \<and>
      settle (Some v) slots sel (snd (pos k)) (fst (pos k)) = Inr (good k)"
    unfolding good_def by (metis settle_selects)
  from Run_loop_examines [OF start(2) this, of emptyPage ?n] assms(5) obtain ks rest where
    W: "walk (sel_Desc sel) start = ks @ rest" and
    page: "let page = examined pos good ks emptyPage; full = (int (length (pg_IDs page)) = sel_Limit sel) in
      int (length (pg_IDs page)) \<le> sel_Limit sel \<and> (full \<or> rest = [] \<or> length ks = ?n) \<and>
      Run_loop (Some v) slots sel ?p ?op ?n start emptyPage = Inr (if full \<or> rest = [] then page else page\<lparr>pg_Truncated := True\<rparr>)"
    by (auto simp: emptyPage_def)
  let ?full = "int (length (filter good ks)) = sel_Limit sel"
  have page': "int (length (filter good ks)) \<le> sel_Limit sel" "?full \<or> rest = [] \<or> length ks = ?n"
      "Run_loop (Some v) slots sel ?p ?op ?n start emptyPage =
         Inr ((examined pos good ks emptyPage)\<lparr>pg_Truncated := \<not> ?full \<and> rest \<noteq> []\<rparr>)"
    using page by (auto simp: Let_def examined_def emptyPage_def)
  show thesis
  proof (rule that [of ks rest ?full])
    show "k = entryKey ?p (fst (pos k)) (snd (pos k))" if "k \<in> set (ks @ rest)" for k using entry [of k] that unfolding W by blast
    show "rest \<noteq> [] \<or> ?full \<Longrightarrow> ks \<noteq> []" using page'(2) assms(5) by (auto split: if_splits)
    show "Run (Some v) sel = Some (Inr ((examined pos good ks emptyPage)\<lparr>pg_Truncated := \<not> ?full \<and> rest \<noteq> [],
        pg_Exhausted := rest = [] \<and> \<not> ?full\<rparr>))"
      unfolding Run_narrowed [OF assms(4-6)] lu using start(1) page'(1,3) by (auto simp: examined_def emptyPage_def)
  qed (use start(3) W page'(1) in auto)
qed

lemma Run_pages_core:
  assumes "view_ok v" "sel_Tenant sel \<noteq> []" "0 < sel_Limit sel" "sel_Slots sel = Some slots"
    and "slots_Get slots (sel_Slot sel) = Some d" "list_all (pred_typed (sel_Slot sel) (sd_Type d)) (sel_Preds sel)"
    and "\<forall>k\<in>set (v_keys v). prefix (slot_prefix sel) k \<longrightarrow> length (slot_prefix sel) + idLen \<le> length k"
  shows "\<exists>page rest. Run (Some v) sel = Some (Inr page) \<and>
     selection v slots sel = map (\<lambda>p. entryKey (slot_prefix sel) (pos_Value p) (pos_ID p)) (pg_Positions page) @ rest \<and>
     pg_IDs page = map pos_ID (pg_Positions page) \<and> int (length (pg_IDs page)) \<le> sel_Limit sel \<and>
     (if pg_Exhausted page then rest = []
      else (pg_Truncated page \<or> int (length (pg_IDs page)) = sel_Limit sel) \<and>
        (\<exists>pos. pg_Next page = Some pos \<and> rest = selection v slots (sel\<lparr>sel_After := Some pos\<rparr>)))"
proof (cases "narrow (slot_prefix sel) (spanEnd (slot_prefix sel)) (sel_Preds sel) (sel_Slot sel)")
  case None
  then have "selection v slots sel = []"
    using selects_narrowed [OF _ assms(5,6), of v] by (auto simp: selection_def directed_def filter_empty_conv)
  then show ?thesis using assms(3) unfolding Run_narrowed [OF assms(2-4)] None by (simp add: emptyPage_def)
next
  case (Some lu)
  obtain l u where lu: "lu = (l, u)" by force
  let ?p = "slot_prefix sel" and ?good = "selects v slots sel"
  define pos where "pos k = projr (parseEntry k ?p ''attr.Run'')" for k
  obtain ks rest full where
    W: "directed sel (filter (\<lambda>k. in_range (l, u) k \<and> beyond ?p sel k) (v_keys v)) = ks @ rest" and
    entry: "\<And>k. k \<in> set (ks @ rest) \<Longrightarrow> k = entryKey ?p (fst (pos k)) (snd (pos k))" and
    full: "full \<longleftrightarrow> int (length (filter ?good ks)) = sel_Limit sel" "int (length (filter ?good ks)) \<le> sel_Limit sel"
      "rest \<noteq> [] \<or> full \<Longrightarrow> ks \<noteq> []" and
    run: "Run (Some v) sel = Some (Inr ((examined pos ?good ks emptyPage)\<lparr>pg_Truncated := \<not> full \<and> rest \<noteq> [], pg_Exhausted := rest = [] \<and> \<not> full\<rparr>))"
    using Run_examines [OF assms(1-4,7) Some [unfolded lu]] unfolding pos_def by blast
  have narrowed: "?good k \<Longrightarrow> in_range (l, u) k" for k using selects_narrowed [OF _ assms(5,6), of v k] Some lu by simp
  have "filter ?good (ks @ rest) = selection v slots sel"
    unfolding W [symmetric] directed_filter filter_filter selection_def
    by (rule arg_cong [where f = "directed sel"], rule filter_cong) (use narrowed in auto)
  moreover have "map (\<lambda>k. entryKey ?p (fst (pos k)) (snd (pos k))) (filter ?good ks) = filter ?good ks"
    by (rule map_idI) (use entry in auto)
  moreover have "filter ?good rest = selection v slots (sel\<lparr>sel_After := Some \<lparr>pos_Value = fst (pos (last ks)), pos_ID = snd (pos (last ks))\<rparr>\<rparr>)"
    if "ks \<noteq> []"
    by (rule selection_resumes [OF assms(1) that, of "last ks" sel _ "in_range (l, u)"])
      (use entry [of "last ks"] that W narrowed in auto)
  ultimately show ?thesis
    unfolding run using full
    by (intro exI [of _ "(examined pos ?good ks emptyPage)\<lparr>pg_Truncated := \<not> full \<and> rest \<noteq> [], pg_Exhausted := rest = [] \<and> \<not> full\<rparr>"]
        exI [of _ "filter ?good rest"]) (auto simp: examined_def emptyPage_def comp_def)
qed

text \<open>
  C32: one page of a selection is the front of the selection, and its position is where the rest
  begins. Narrowing the scan by the predicates on the ordering slot loses no match, in either
  direction and with exclusive or contradictory bounds; a page says it is exhausted only when
  nothing is left, and otherwise it is full or its effort is spent, and the selection resumed after
  the position it names is exactly what it did not return: no record is repeated or passed over.
\<close>

theorem Run_pages:
  assumes "view_ok v" "sel_Tenant sel \<noteq> []" "0 < sel_Limit sel" "sel_Slots sel = Some slots"
    and "slots_Get slots (sel_Slot sel) = Some d" "list_all (pred_typed (sel_Slot sel) (sd_Type d)) (sel_Preds sel)"
    and "\<forall>k\<in>set (v_keys v). prefix (slot_prefix sel) k \<longrightarrow> length (slot_prefix sel) + idLen \<le> length k"
  shows "\<exists>page rest. Run (Some v) sel = Some (Inr page) \<and>
     selection v slots sel = map (\<lambda>p. entryKey (slot_prefix sel) (pos_Value p) (pos_ID p)) (pg_Positions page) @ rest \<and>
     pg_IDs page = map pos_ID (pg_Positions page) \<and> int (length (pg_IDs page)) \<le> sel_Limit sel \<and>
     (if pg_Exhausted page then rest = []
      else (pg_Truncated page \<or> int (length (pg_IDs page)) = sel_Limit sel) \<and>
        (\<exists>pos. pg_Next page = Some pos \<and> rest = selection v slots (sel\<lparr>sel_After := Some pos\<rparr>)))"
  by (rule Run_pages_core [OF assms])

definition sample_select :: Select where
  "sample_select =
     \<lparr>sel_Tenant = [97], sel_Namespace = [], sel_Slots = Some \<lparr>sl_version = 1,
        sl_defs = [(3, \<lparr>sd_Slot = 3, sd_Name = [65], sd_Type = SlotU8, sd_Indexed = True, sd_Retired = False\<rparr>)],
        sl_names = [([65], 3)]\<rparr>,
      sel_Slot = 3, sel_Desc = True, sel_Preds = [rangePred 3 (Some (vU8 5)) None False True], sel_After = None,
      sel_Limit = 1, sel_Effort = 0\<rparr>"

definition sample_attr_store :: Store where
  "sample_attr_store = fst (batch_Commit New
     (batch_Set (AttrRow [97] DefaultNamespace 7) [1, 0, 0, 0, 1, 1, 8, 7]
     (batch_Set (AttrIndex [97] DefaultNamespace 3 [7] 7) []
     (batch_Set (AttrRow [97] DefaultNamespace 8) [1, 0, 0, 0, 1, 1, 8, 6]
     (batch_Set (AttrIndex [97] DefaultNamespace 3 [6] 8) [] NewBatch)))))"

theorem Run_pages_witness:
  "\<exists>page. Run (Some (store_view sample_attr_store)) sample_select = Some (Inr page) \<and> pg_IDs page = [7] \<and>
     pg_IDs page = map pos_ID (pg_Positions page)"
proof -
  obtain slots where s: "sel_Slots sample_select = Some slots" by (simp add: sample_select_def)
  then have d: "slots_Get slots (sel_Slot sample_select) =
      Some \<lparr>sd_Slot = 3, sd_Name = [65], sd_Type = SlotU8, sd_Indexed = True, sd_Retired = False\<rparr>"
    by (auto simp: sample_select_def slots_Get_def)
  have sel: "sel_Tenant sample_select \<noteq> []" "0 < sel_Limit sample_select"
      "list_all (pred_typed (sel_Slot sample_select) SlotU8) (sel_Preds sample_select)"
    by (auto simp: sample_select_def value_ok_def)
  have view: "view_ok (store_view sample_attr_store)"
    unfolding sample_attr_store_def by (intro view_ok_store_view store_ok_Commit) simp
  have long: "\<forall>k\<in>set (v_keys (store_view sample_attr_store)). prefix (slot_prefix sample_select) k \<longrightarrow>
      length (slot_prefix sample_select) + idLen \<le> length k"
    by code_simp
  have "map_option (map_sum id pg_IDs) (Run (Some (store_view sample_attr_store)) sample_select) = Some (Inr [7])"
    by code_simp
  moreover obtain page where "Run (Some (store_view sample_attr_store)) sample_select = Some (Inr page)"
      "pg_IDs page = map pos_ID (pg_Positions page)"
    using Run_pages [OF view sel(1,2) s d _ long] sel(3) by auto
  ultimately show ?thesis by simp
qed

end
