(* ===== verification/Jobs.thy ===== *)
theory Jobs
  imports Records
begin

text \<open>
  The job queue, \<^verbatim>\<open>src/internal/jobs\<close>: \<^verbatim>\<open>job.go\<close>, \<^verbatim>\<open>codec.go\<close>,
  \<^verbatim>\<open>queue.go\<close>, \<^verbatim>\<open>lease.go\<close>, \<^verbatim>\<open>retry.go\<close> and \<^verbatim>\<open>checkpoint.go\<close>
  over the in-memory engine. The clock's reading, a fresh id and the retry jitter are arguments of
  the calls that draw them. A caller's \<^verbatim>\<open>*Job\<close> is a value an operation takes and hands
  back as it left it. The protobuf encodings of a row are the fields of \<open>jproto\<close>.
\<close>

section \<open>States and types\<close>

type_synonym State = "8 word"

definition StPending :: State where "StPending = 1"
definition StRunning :: State where "StRunning = 2"
definition StRetry :: State where "StRetry = 3"
definition StCompleted :: State where "StCompleted = 4"
definition StFailed :: State where "StFailed = 5"
definition StCancelled :: State where "StCancelled = 6"

lemmas states = StPending_def StRunning_def StRetry_def StCompleted_def StFailed_def StCancelled_def

definition stateNames :: "State \<rightharpoonup> string" where
  "stateNames =
     map_of [(StPending, ''pending''), (StRunning, ''running''), (StRetry, ''retry''),
             (StCompleted, ''completed''), (StFailed, ''failed''), (StCancelled, ''cancelled'')]"

definition state_String :: "State \<Rightarrow> string" where
  "state_String s = (case stateNames s of Some n \<Rightarrow> n | None \<Rightarrow> ''unknown'')"

definition AllStates :: "State list" where
  "AllStates = [StPending, StRunning, StRetry, StCompleted, StFailed, StCancelled]"

text \<open>The map's iteration order does not matter: the names are distinct.\<close>

definition ParseState :: "string \<Rightarrow> State res" where
  "ParseState s =
     (case find (\<lambda>st. stateNames st = Some s) AllStates of
        Some st \<Rightarrow> Inr st
      | None \<Rightarrow> fail Invalid ''jobs.ParseState'' ''not a job state'')"

definition Terminal :: "State \<Rightarrow> bool" where
  "Terminal s \<longleftrightarrow> s = StCompleted \<or> s = StFailed \<or> s = StCancelled"

definition Partition :: "State \<Rightarrow> jobstate" where
  "Partition s = (if s = StRunning then JobRunning else if Terminal s then JobDone else JobPending)"

definition MaxTypeLen :: nat where
  "MaxTypeLen = 64"

definition type_char :: "byte \<Rightarrow> bool" where
  "type_char c \<longleftrightarrow>
     of_char CHR ''a'' \<le> c \<and> c \<le> of_char CHR ''z'' \<or> of_char CHR ''0'' \<le> c \<and> c \<le> of_char CHR ''9'' \<or>
     c = of_char CHR ''_'' \<or> c = of_char CHR ''.''"

definition ParseType :: "bytes \<Rightarrow> bytes res" where
  "ParseType s = (let op = ''jobs.ParseType'' in
     if s = [] then fail Invalid op ''a job type must not be empty''
     else if MaxTypeLen < length s then fail Invalid op ''job type is over the limit''
     else if list_ex (\<lambda>c. \<not> type_char c) s then fail Invalid op ''only [a-z0-9_.] is allowed''
     else Inr s)"

section \<open>Jobs\<close>

definition MaxPayloadBytes :: int where
  "MaxPayloadBytes = 64 * 1024"

record Lease =
  l_Owner :: bytes
  l_ExpiresAt :: time
  l_Token :: id

record job =
  j_ID :: id
  j_Tenant :: tenant
  j_Namespace :: nspace
  j_Type :: bytes
  j_Payload :: bytes
  j_State :: State
  j_Attempts :: "32 word"
  j_MaxAttempts :: "32 word"
  j_RunAt :: time
  j_Lease :: "Lease option"
  j_Checkpoint :: bytes
  j_LastError :: bytes
  j_Priority :: "8 word"
  j_CreatedAt :: time
  j_UpdatedAt :: time
  j_stored :: bytes

definition job_unixMilli :: "time \<Rightarrow> 64 word" where
  "job_unixMilli t = (let ms = UnixMilli t in if ms < 0 then 0 else word_of_int ms)"

definition job_fromUnixMilli :: "64 word \<Rightarrow> time" where
  "job_fromUnixMilli ms = (if ms = 0 then 0 else of_UnixMilli (sint ms))"

definition job_namespace :: "job \<Rightarrow> nspace" where
  "job_namespace j = (if j_Namespace j = [] then DefaultNamespace else j_Namespace j)"

definition job_Key :: "job \<Rightarrow> bytes res" where
  "job_Key j = (let op = ''jobs.Job.Key'' in
     if j_Tenant j = [] then fail Invalid op ''a job key requires a tenant (Invariant 1)''
     else let part = Partition (j_State j) in
       bindR (if part = JobRunning
              then (case j_Lease j of
                      None \<Rightarrow> fail Invalid op ''a running job has no lease, so there is no expiry to order it by''
                    | Some l \<Rightarrow> Inr (l_ExpiresAt l))
              else if part = JobDone then Inr (j_UpdatedAt j)
              else Inr (j_RunAt j))
         (\<lambda>due. Inr (Job (j_Tenant j) (job_namespace j) part (job_unixMilli due) (j_ID j))))"

definition job_Validate :: "job \<Rightarrow> error option" where
  "job_Validate j = (let op = ''jobs.Job.Validate'' in
     if j_ID j = 0 then Some (err Invalid op ''a job needs an id'')
     else if j_Tenant j = [] \<or> \<not> tenant_Valid (j_Tenant j) then Some (err Invalid op ''not a valid tenant id'')
     else if \<not> namespace_Valid (job_namespace j) then Some (err Invalid op ''namespace is malformed'')
     else case ParseType (j_Type j) of
            Inl e \<Rightarrow> Some e
          | Inr _ \<Rightarrow>
              if stateNames (j_State j) = None then Some (err Invalid op ''not a job state'')
              else if MaxPayloadBytes < int (length (j_Payload j))
              then Some (err Invalid op ''a payload is a reference to work, not the work'')
              else None)"

section \<open>Rows\<close>

record pb_Lease =
  pbl_Owner :: bytes
  pbl_ExpiresAtUnixMs :: "64 word"
  pbl_Token :: bytes

record pb_Job =
  pbj_Type :: bytes
  pbj_Payload :: bytes
  pbj_State :: "32 word"
  pbj_Attempts :: "32 word"
  pbj_MaxAttempts :: "32 word"
  pbj_RunAtUnixMs :: "64 word"
  pbj_Lease :: "pb_Lease option"
  pbj_Checkpoint :: bytes
  pbj_LastError :: bytes
  pbj_Priority :: "32 word"
  pbj_CreatedAtUnixMs :: "64 word"
  pbj_UpdatedAtUnixMs :: "64 word"
  pbj_Namespace :: bytes

record pb_Run =
  pbu_JobId :: bytes
  pbu_Type :: bytes
  pbu_Attempt :: "32 word"
  pbu_StartedAtUnixMs :: "64 word"
  pbu_FinishedAtUnixMs :: "64 word"
  pbu_Outcome :: "32 word"
  pbu_Error :: bytes
  pbu_RecordsProcessed :: "64 word option"
  pbu_RecordsChanged :: "64 word option"
  pbu_Owner :: bytes
  pbu_Namespace :: bytes

record pb_Pause =
  pbp_Type :: bytes
  pbp_ExpiresAtUnixMs :: "64 word"
  pbp_SetBy :: bytes
  pbp_SetAtUnixMs :: "64 word"

record jproto =
  encJ :: "pb_Job \<Rightarrow> bytes option"
  decJ :: "bytes \<Rightarrow> pb_Job option"
  encU :: "pb_Run \<Rightarrow> bytes option"
  decU :: "bytes \<Rightarrow> pb_Run option"
  encP :: "pb_Pause \<Rightarrow> bytes option"
  decP :: "bytes \<Rightarrow> pb_Pause option"

definition job_row :: "job \<Rightarrow> pb_Job" where
  "job_row j =
     \<lparr>pbj_Type = j_Type j, pbj_Payload = j_Payload j, pbj_State = ucast (j_State j),
      pbj_Attempts = j_Attempts j, pbj_MaxAttempts = j_MaxAttempts j,
      pbj_RunAtUnixMs = job_unixMilli (j_RunAt j),
      pbj_Lease = map_option (\<lambda>l. \<lparr>pbl_Owner = l_Owner l, pbl_ExpiresAtUnixMs = job_unixMilli (l_ExpiresAt l),
                                   pbl_Token = id_bytes (l_Token l)\<rparr>) (j_Lease j),
      pbj_Checkpoint = j_Checkpoint j, pbj_LastError = j_LastError j, pbj_Priority = scast (j_Priority j),
      pbj_CreatedAtUnixMs = job_unixMilli (j_CreatedAt j), pbj_UpdatedAtUnixMs = job_unixMilli (j_UpdatedAt j),
      pbj_Namespace = job_namespace j\<rparr>"

definition job_Marshal :: "jproto \<Rightarrow> job \<Rightarrow> bytes res" where
  "job_Marshal P j =
     (case job_Validate j of
        Some e \<Rightarrow> Inl e
      | None \<Rightarrow> (case encJ P (job_row j) of
                   None \<Rightarrow> fail Invalid ''jobs.Marshal'' ''encoding the job''
                 | Some b \<Rightarrow> Inr b))"

definition job_lease :: "string \<Rightarrow> pb_Lease option \<Rightarrow> Lease option res" where
  "job_lease op l =
     (case l of
        None \<Rightarrow> Inr None
      | Some l \<Rightarrow>
          (case FromBytes (pbl_Token l) of
             Inl e \<Rightarrow> fail Corruption op ''the lease holds a malformed fencing token''
           | Inr token \<Rightarrow>
               Inr (Some \<lparr>l_Owner = pbl_Owner l, l_ExpiresAt = job_fromUnixMilli (pbl_ExpiresAtUnixMs l), l_Token = token\<rparr>)))"

definition job_of :: "bytes \<Rightarrow> tenant \<Rightarrow> nspace \<Rightarrow> id \<Rightarrow> Lease option \<Rightarrow> pb_Job \<Rightarrow> job" where
  "job_of key t ns jid lease row =
     \<lparr>j_ID = jid, j_Tenant = t, j_Namespace = (if pbj_Namespace row \<noteq> [] then pbj_Namespace row else ns),
      j_Type = pbj_Type row, j_Payload = pbj_Payload row, j_State = ucast (pbj_State row),
      j_Attempts = pbj_Attempts row, j_MaxAttempts = pbj_MaxAttempts row,
      j_RunAt = job_fromUnixMilli (pbj_RunAtUnixMs row), j_Lease = lease,
      j_Checkpoint = pbj_Checkpoint row, j_LastError = pbj_LastError row,
      j_Priority = ucast (pbj_Priority row),
      j_CreatedAt = job_fromUnixMilli (pbj_CreatedAtUnixMs row),
      j_UpdatedAt = job_fromUnixMilli (pbj_UpdatedAtUnixMs row), j_stored = key\<rparr>"

definition job_Unmarshal :: "jproto \<Rightarrow> bytes \<Rightarrow> bytes \<Rightarrow> job res" where
  "job_Unmarshal P key val = (let op = ''jobs.Unmarshal'' in
     bindR (ParseJob key) (\<lambda>(t, ns, part, due, jid).
       case decJ P val of
         None \<Rightarrow> fail Corruption op ''the job row does not decode''
       | Some row \<Rightarrow>
           bindR (job_lease op (pbj_Lease row)) (\<lambda>lease.
             let j = job_of key t ns jid lease row in
             if Partition (j_State j) \<noteq> part
             then fail Corruption op ''the job is stored in one partition but its row says another''
             else case job_Key j of
                    Inl e \<Rightarrow> fail Corruption op ''the job cannot say where it belongs''
                  | Inr want \<Rightarrow>
                      if want \<noteq> key then fail Corruption op ''the job is stored at one time but its row puts it elsewhere''
                      else Inr j)))"

section \<open>The queue\<close>

text \<open>Durations are in nanoseconds.\<close>

definition DefaultLease :: duration where
  "DefaultLease = 60 * 1000000000"

definition DefaultMaxAttempts :: "32 word" where
  "DefaultMaxAttempts = 6"

definition claimScanCap :: int where
  "claimScanCap = 1024"

record Queue =
  q_sync :: bool
  q_lease :: duration

definition NewQueue :: Queue where
  "NewQueue = \<lparr>q_sync = True, q_lease = DefaultLease\<rparr>"

definition WithSyncWrites :: "bool \<Rightarrow> Queue \<Rightarrow> Queue" where
  "WithSyncWrites sync q = q\<lparr>q_sync := sync\<rparr>"

definition WithLease :: "duration \<Rightarrow> Queue \<Rightarrow> Queue" where
  "WithLease d q = (if 0 < d then q\<lparr>q_lease := d\<rparr> else q)"

text \<open>The job as the defaults leave it; \<open>fresh\<close> is the id a new one would draw.\<close>

definition enqueue_defaults :: "time \<Rightarrow> id \<Rightarrow> job \<Rightarrow> job" where
  "enqueue_defaults now fresh j =
     j\<lparr>j_ID := (if j_ID j = 0 then fresh else j_ID j),
       j_Namespace := (if j_Namespace j = [] then DefaultNamespace else j_Namespace j),
       j_State := (if j_State j = 0 then StPending else j_State j),
       j_RunAt := (if j_RunAt j = 0 then now else j_RunAt j),
       j_MaxAttempts := (if j_MaxAttempts j = 0 then DefaultMaxAttempts else j_MaxAttempts j),
       j_CreatedAt := (if j_CreatedAt j = 0 then now else j_CreatedAt j),
       j_UpdatedAt := (if j_UpdatedAt j = 0 then now else j_UpdatedAt j)\<rparr>"

definition Enqueue :: "jproto \<Rightarrow> time \<Rightarrow> id \<Rightarrow> job \<Rightarrow> 'c tx \<Rightarrow> 'c tx \<times> job \<times> error option" where
  "Enqueue P now fresh j0 tx = (let op = ''jobs.Enqueue''; j = enqueue_defaults now fresh j0 in
     if j_State j \<noteq> StPending \<and> j_State j \<noteq> StRetry
     then (tx, j, Some (err Invalid op ''a job is enqueued pending; a running or finished job is written by a transition''))
     else case job_Key j of
            Inl e \<Rightarrow> (tx, j, Some e)
          | Inr key \<Rightarrow>
              (case job_Marshal P j of
                 Inl e \<Rightarrow> (tx, j, Some e)
               | Inr val \<Rightarrow> (tx_Set key val (tx_Expect key [] False tx), j\<lparr>j_stored := key\<rparr>, None)))"

definition Submit :: "jproto \<Rightarrow> Queue \<Rightarrow> time \<Rightarrow> id \<Rightarrow> Store \<Rightarrow> job \<Rightarrow> Store \<times> job \<times> error option" where
  "Submit P q now fresh s j =
     (if j_Tenant j = [] then (s, j, Some (err Invalid ''jobs.Submit'' ''a job requires a tenant (Invariant 1)''))
      else case Enqueue P now fresh j (tx_New (q_sync q) :: unit tx) of
             (tx, j', Some e) \<Rightarrow> (s, j', Some e)
           | (tx, j', None) \<Rightarrow> (case tx_Commit s tx of (s', _, e, _) \<Rightarrow> (s', j', e)))"

definition wanted :: "bytes \<Rightarrow> bytes list \<Rightarrow> bool" where
  "wanted ty types \<longleftrightarrow> (if types = [] then True else list_ex (\<lambda>w. w = ty) types)"

record candidate =
  cd_key :: bytes
  cd_value :: bytes
  cd_job :: job

text \<open>The scan's loop: the entries left, the number examined and the candidates found.\<close>

fun due_loop :: "jproto \<Rightarrow> bytes list \<Rightarrow> int \<Rightarrow> (bytes \<times> bytes) list \<Rightarrow> int \<Rightarrow> candidate list \<Rightarrow> candidate list res" where
  "due_loop P types want [] examined out = Inr out"
| "due_loop P types want ((key, val) # es) examined out =
     (if claimScanCap < examined + 1 then Inr out
      else case job_Unmarshal P key val of
             Inl e \<Rightarrow> Inl e
           | Inr j \<Rightarrow>
               if \<not> wanted (j_Type j) types then due_loop P types want es (examined + 1) out
               else let out = out @ [\<lparr>cd_key = key, cd_value = val, cd_job = j\<rparr>]
                    in if 0 < want \<and> int (length out) = want then Inr out
                       else due_loop P types want es (examined + 1) out)"

definition due :: "jproto \<Rightarrow> Store \<Rightarrow> tenant \<Rightarrow> jobstate \<Rightarrow> time \<Rightarrow> bytes list \<Rightarrow> int \<Rightarrow> candidate list res" where
  "due P s t part bound types want =
     (let (lower, upper) = JobDueRange t DefaultNamespace part (job_unixMilli bound)
      in bindR (itr_entries (store_NewIterator s (Some lower) upper)) (\<lambda>es. due_loop P types want es 0 []))"

definition move :: "jproto \<Rightarrow> Queue \<Rightarrow> Store \<Rightarrow> bytes \<Rightarrow> bytes \<Rightarrow> job \<Rightarrow> Store \<times> job \<times> error option" where
  "move P q s oldKey oldValue nxt =
     (case job_Key nxt of
        Inl e \<Rightarrow> (s, nxt, Some e)
      | Inr newKey \<Rightarrow>
          (case job_Marshal P nxt of
             Inl e \<Rightarrow> (s, nxt, Some e)
           | Inr newValue \<Rightarrow>
               (case tx_Commit s (tx_Set newKey newValue (tx_Delete oldKey
                       (tx_Expect oldKey oldValue True (tx_New (q_sync q) :: unit tx)))) of
                  (s', _, Some e, _) \<Rightarrow> (s', nxt, Some e)
                | (s', _, None, _) \<Rightarrow> (s', nxt\<lparr>j_stored := newKey\<rparr>, None))))"

definition leased :: "Queue \<Rightarrow> time \<Rightarrow> bytes \<Rightarrow> id \<Rightarrow> job \<Rightarrow> job" where
  "leased q now owner token j =
     j\<lparr>j_State := StRunning, j_Attempts := j_Attempts j + 1, j_UpdatedAt := now,
       j_Lease := Some \<lparr>l_Owner = owner, l_ExpiresAt = now + q_lease q, l_Token = token\<rparr>\<rparr>"

text \<open>
  The loop over the candidates. Writers outside the queue's gate may run before each move:
  \<open>env\<close> is what they make of the store, and \<open>fresh\<close> the ids drawn, both by turn.
\<close>

fun Claim_loop ::
    "jproto \<Rightarrow> Queue \<Rightarrow> time \<Rightarrow> bytes \<Rightarrow> (nat \<Rightarrow> Store \<Rightarrow> Store) \<Rightarrow> (nat \<Rightarrow> id) \<Rightarrow> int \<Rightarrow> nat \<Rightarrow> candidate list \<Rightarrow> Store \<Rightarrow> job list \<Rightarrow>
       Store \<times> job list \<times> error option" where
  "Claim_loop P q now owner env fresh n i [] s out = (s, out, None)"
| "Claim_loop P q now owner env fresh n i (c # cs) s out =
     (if int (length out) = n then (s, out, None)
      else case move P q (env i s) (cd_key c) (cd_value c) (leased q now owner (fresh i) (cd_job c)) of
             (s', j, None) \<Rightarrow> Claim_loop P q now owner env fresh n (i + 1) cs s' (out @ [j])
           | (s', j, Some e) \<Rightarrow>
               if is_kind e Conflict then Claim_loop P q now owner env fresh n (i + 1) cs s' out
               else (s', out, Some e))"

definition Claim ::
    "jproto \<Rightarrow> Queue \<Rightarrow> time \<Rightarrow> (nat \<Rightarrow> Store \<Rightarrow> Store) \<Rightarrow> (nat \<Rightarrow> id) \<Rightarrow> Store \<Rightarrow> tenant \<Rightarrow> bytes \<Rightarrow> bytes list \<Rightarrow> int \<Rightarrow>
       Store \<times> job list \<times> error option" where
  "Claim P q now env fresh s t owner types n = (let op = ''jobs.Claim'' in
     if t = [] then (s, [], Some (err Invalid op ''a claim requires a tenant: there is no unscoped read path (Invariant 1)''))
     else if owner = [] then (s, [], Some (err Invalid op ''a claim requires an owner to lease to''))
     else if n \<le> 0 then (s, [], None)
     else case due P s t JobPending now types n of
            Inl e \<Rightarrow> (s, [], Some e)
          | Inr candidates \<Rightarrow>
              Claim_loop P q now owner env fresh n 0
                (sort_key (\<lambda>c. - sint (j_Priority (cd_job c))) candidates) s [])"

section \<open>Transitions of a job\<close>

record Run =
  u_ID :: id
  u_JobID :: id
  u_Tenant :: tenant
  u_Namespace :: nspace
  u_Type :: bytes
  u_Attempt :: "32 word"
  u_StartedAt :: time
  u_FinishedAt :: time
  u_Outcome :: State
  u_Error :: bytes
  u_Owner :: bytes
  u_RecordsProcessed :: "64 word option"
  u_RecordsChanged :: "64 word option"

definition marshalRun :: "jproto \<Rightarrow> Run \<Rightarrow> bytes res" where
  "marshalRun P r =
     bindR (ParseType (u_Type r)) (\<lambda>_.
       if stateNames (u_Outcome r) = None then fail Invalid ''jobs.marshalRun'' ''attempt outcome is not a job state''
       else case encU P \<lparr>pbu_JobId = id_bytes (u_JobID r), pbu_Type = u_Type r, pbu_Attempt = u_Attempt r,
                         pbu_StartedAtUnixMs = job_unixMilli (u_StartedAt r),
                         pbu_FinishedAtUnixMs = job_unixMilli (u_FinishedAt r), pbu_Outcome = ucast (u_Outcome r),
                         pbu_Error = u_Error r, pbu_RecordsProcessed = u_RecordsProcessed r,
                         pbu_RecordsChanged = u_RecordsChanged r, pbu_Owner = u_Owner r,
                         pbu_Namespace = u_Namespace r\<rparr> of
              None \<Rightarrow> fail Invalid ''jobs.marshalRun'' ''encoding the attempt''
            | Some b \<Rightarrow> Inr b)"

definition fence :: "string \<Rightarrow> job \<Rightarrow> job \<Rightarrow> error option" where
  "fence op held cur =
     (case j_Lease held of
        None \<Rightarrow> None
      | Some h \<Rightarrow>
          (case j_Lease cur of
             None \<Rightarrow> Some (err Conflict op ''the job is no longer leased; this worker's claim has been reclaimed'')
           | Some c \<Rightarrow>
               if l_Token c \<noteq> l_Token h
               then Some (err Conflict op ''the job is leased under a newer token; this worker's claim was reclaimed'')
               else None))"

text \<open>The attempt record, completed, with its key and value.\<close>

definition run_row :: "jproto \<Rightarrow> time \<Rightarrow> job \<Rightarrow> job \<Rightarrow> Run \<Rightarrow> (bytes \<times> bytes) res" where
  "run_row P now j nxt run =
     (if u_ID run = 0 \<or> u_Tenant run \<noteq> j_Tenant j \<or> u_JobID run \<noteq> j_ID j \<or> u_Type run \<noteq> j_Type j \<or>
         u_Attempt run \<noteq> j_Attempts nxt \<or> u_Outcome run \<noteq> j_State nxt
      then fail Invalid ''jobs.transition'' ''an atomic attempt record must identify the transitioned job, attempt and outcome''
      else let run = run\<lparr>u_Namespace := (if u_Namespace run = [] then DefaultNamespace else u_Namespace run),
                         u_FinishedAt := (if u_FinishedAt run = 0 then now else u_FinishedAt run)\<rparr>
           in bindR (marshalRun P run) (\<lambda>val.
                Inr (JobRun (u_Tenant run) DefaultNamespace (job_unixMilli (u_FinishedAt run)) (u_ID run), val)))"

definition transitionWithRun ::
    "jproto \<Rightarrow> Queue \<Rightarrow> time \<Rightarrow> Store \<Rightarrow> job \<Rightarrow> (job \<Rightarrow> job) \<Rightarrow> Run option \<Rightarrow> Store \<times> job \<times> error option" where
  "transitionWithRun P q now s j f run = (let op = ''jobs.transition'' in
     if j_Tenant j = [] then (s, j, Some (err Invalid op ''a job transition requires a tenant''))
     else if j_stored j = [] then (s, j, Some (err Invalid op ''the job has never been stored, so there is no row to move''))
     else case store_Get s (j_stored j) of
       Inl e \<Rightarrow>
         (s, j, Some (if is_kind e NotFound
                      then err Conflict op ''the job is no longer where this worker left it'' else e))
     | Inr val \<Rightarrow>
         (case job_Unmarshal P (j_stored j) val of
            Inl e \<Rightarrow> (s, j, Some e)
          | Inr cur \<Rightarrow>
              (case fence op j cur of
                 Some e \<Rightarrow> (s, j, Some e)
               | None \<Rightarrow>
                   let nxt = f cur in
                   (case bindR (job_Key nxt) (\<lambda>newKey. bindR (job_Marshal P nxt) (\<lambda>newValue.
                           bindR (case run of None \<Rightarrow> Inr None | Some r \<Rightarrow> bindR (run_row P now j nxt r) (\<lambda>x. Inr (Some x)))
                             (\<lambda>row. Inr (newKey, newValue, row)))) of
                      Inl e \<Rightarrow> (s, j, Some e)
                    | Inr (newKey, newValue, row) \<Rightarrow>
                        let tx = tx_Set newKey newValue (tx_Delete (j_stored j)
                                   (tx_Expect (j_stored j) val True (tx_New (q_sync q) :: unit tx)));
                            tx = (case row of None \<Rightarrow> tx | Some (k, v) \<Rightarrow> tx_Set k v (tx_Expect k [] False tx))
                        in (case tx_Commit s tx of
                              (s', _, Some e, _) \<Rightarrow> (s', j, Some e)
                            | (s', _, None, _) \<Rightarrow> (s', nxt\<lparr>j_stored := newKey\<rparr>, None))))))"

definition transition :: "jproto \<Rightarrow> Queue \<Rightarrow> time \<Rightarrow> Store \<Rightarrow> job \<Rightarrow> (job \<Rightarrow> job) \<Rightarrow> Store \<times> job \<times> error option" where
  "transition P q now s j f = transitionWithRun P q now s j f None"

definition finished :: "State \<Rightarrow> bytes \<Rightarrow> time \<Rightarrow> job \<Rightarrow> job" where
  "finished state lastErr now j =
     j\<lparr>j_State := state, j_Lease := None, j_UpdatedAt := now,
       j_LastError := (if state = StCompleted then [] else if lastErr \<noteq> [] then lastErr else j_LastError j)\<rparr>"

definition finishWithRun ::
    "jproto \<Rightarrow> Queue \<Rightarrow> time \<Rightarrow> Store \<Rightarrow> job \<Rightarrow> State \<Rightarrow> bytes \<Rightarrow> Run option \<Rightarrow> Store \<times> job \<times> error option" where
  "finishWithRun P q now s j state lastErr run =
     (if \<not> Terminal state then (s, j, Some (err Invalid ''jobs.finish'' ''not a terminal state''))
      else transitionWithRun P q now s j (finished state lastErr now) run)"

definition finish ::
    "jproto \<Rightarrow> Queue \<Rightarrow> time \<Rightarrow> Store \<Rightarrow> job \<Rightarrow> State \<Rightarrow> bytes \<Rightarrow> Store \<times> job \<times> error option" where
  "finish P q now s j state lastErr = finishWithRun P q now s j state lastErr None"

definition Complete :: "jproto \<Rightarrow> Queue \<Rightarrow> time \<Rightarrow> Store \<Rightarrow> job \<Rightarrow> Store \<times> job \<times> error option" where
  "Complete P q now s j = finish P q now s j StCompleted []"

definition CompleteWithRun :: "jproto \<Rightarrow> Queue \<Rightarrow> time \<Rightarrow> Store \<Rightarrow> job \<Rightarrow> Run option \<Rightarrow> Store \<times> job \<times> error option" where
  "CompleteWithRun P q now s j run = finishWithRun P q now s j StCompleted [] run"

text \<open>\<^verbatim>\<open>next.Lease.ExpiresAt = ...\<close>: the fence has passed, so the row carries a lease.\<close>

definition renewed :: "Queue \<Rightarrow> time \<Rightarrow> job \<Rightarrow> job" where
  "renewed q now j =
     j\<lparr>j_Lease := map_option (\<lambda>l. l\<lparr>l_ExpiresAt := now + q_lease q\<rparr>) (j_Lease j), j_UpdatedAt := now\<rparr>"

definition Renew :: "jproto \<Rightarrow> Queue \<Rightarrow> time \<Rightarrow> Store \<Rightarrow> job \<Rightarrow> Store \<times> job \<times> error option" where
  "Renew P q now s j =
     (if j_Lease j = None then (s, j, Some (err Invalid ''jobs.Renew'' ''the job holds no lease to renew''))
      else transition P q now s j (renewed q now))"

definition released :: "time \<Rightarrow> job \<Rightarrow> job" where
  "released now j =
     j\<lparr>j_State := StPending, j_Lease := None, j_RunAt := now, j_UpdatedAt := now,
       j_Attempts := (if 0 < j_Attempts j then j_Attempts j - 1 else j_Attempts j)\<rparr>"

definition Release :: "jproto \<Rightarrow> Queue \<Rightarrow> time \<Rightarrow> Store \<Rightarrow> job \<Rightarrow> Store \<times> job \<times> error option" where
  "Release P q now s j = transition P q now s j (released now)"

text \<open>A decimal numeral, as \<^verbatim>\<open>%d\<close> prints an unsigned one.\<close>

fun decimal :: "nat \<Rightarrow> bytes" where
  "decimal n = (if n < 10 then [] else decimal (n div 10)) @ [of_nat (48 + n mod 10)]"

definition lapsed_failed :: "job \<Rightarrow> bytes" where
  "lapsed_failed j =
     str ''the lease expired on attempt '' @ decimal (unat (j_Attempts j)) @ str '' of '' @
     decimal (unat (j_MaxAttempts j)) @ str '' and there are no attempts left; '' @
     str ''the worker holding it stopped without completing or failing it''"

definition reclaimed :: "time \<Rightarrow> job \<Rightarrow> job" where
  "reclaimed now j =
     (if j_MaxAttempts j \<le> j_Attempts j
      then j\<lparr>j_State := StFailed, j_Lease := None, j_UpdatedAt := now, j_LastError := lapsed_failed j\<rparr>
      else j\<lparr>j_State := StPending, j_Lease := None, j_RunAt := now, j_UpdatedAt := now,
             j_LastError := str ''the lease expired on attempt '' @ decimal (unat (j_Attempts j)) @
                            str ''; the job was reclaimed''\<rparr>)"

fun Reclaim_loop ::
    "jproto \<Rightarrow> Queue \<Rightarrow> time \<Rightarrow> (nat \<Rightarrow> Store \<Rightarrow> Store) \<Rightarrow> nat \<Rightarrow> candidate list \<Rightarrow> Store \<Rightarrow> nat \<Rightarrow> Store \<times> nat \<times> error option" where
  "Reclaim_loop P q now env i [] s n = (s, n, None)"
| "Reclaim_loop P q now env i (c # cs) s n =
     (case move P q (env i s) (cd_key c) (cd_value c) (reclaimed now (cd_job c)) of
        (s', j, None) \<Rightarrow> Reclaim_loop P q now env (i + 1) cs s' (n + 1)
      | (s', j, Some e) \<Rightarrow>
          if is_kind e Conflict then Reclaim_loop P q now env (i + 1) cs s' n else (s', n, Some e))"

definition Reclaim ::
    "jproto \<Rightarrow> Queue \<Rightarrow> time \<Rightarrow> (nat \<Rightarrow> Store \<Rightarrow> Store) \<Rightarrow> Store \<Rightarrow> tenant \<Rightarrow> int \<Rightarrow> Store \<times> nat \<times> error option" where
  "Reclaim P q now env s t limit =
     (if t = [] then (s, 0, Some (err Invalid ''jobs.Reclaim'' ''reclaiming requires a tenant: there is no unscoped read path (Invariant 1)''))
      else if limit \<le> 0 then (s, 0, None)
      else case due P s t JobRunning now [] limit of
             Inl e \<Rightarrow> (s, 0, Some e)
           | Inr lapsed \<Rightarrow> Reclaim_loop P q now env 0 lapsed s 0)"

definition MaxCheckpointBytes :: int where
  "MaxCheckpointBytes = 64 * 1024"

definition job_Save :: "jproto \<Rightarrow> Queue \<Rightarrow> time \<Rightarrow> Store \<Rightarrow> job \<Rightarrow> bytes \<Rightarrow> Store \<times> job \<times> error option" where
  "job_Save P q now s j cursor =
     (if j_Lease j = None
      then (s, j, Some (err Invalid ''jobs.Save'' ''only the worker holding a job records its progress''))
      else if MaxCheckpointBytes < int (length cursor)
      then (s, j, Some (err Invalid ''jobs.Save'' ''a cursor is a position, not a working set''))
      else transition P q now s j (\<lambda>nxt. nxt\<lparr>j_Checkpoint := cursor, j_UpdatedAt := now\<rparr>))"

section \<open>Retry\<close>

definition RetryBase :: "64 word" where
  "RetryBase = 1000000000"

definition RetryCap :: "64 word" where
  "RetryCap = 10 * 60 * 1000000000"

text \<open>A \<^verbatim>\<open>time.Duration\<close> is a signed 64-bit integer and the shift wraps.\<close>

definition BackoffWindow :: "32 word \<Rightarrow> 64 word" where
  "BackoffWindow attempt0 =
     (let att = (if attempt0 < 1 then 1 else attempt0);
          maxShift = 40;
          shift = att - 1
      in if maxShift < shift then RetryCap
         else let w = push_bit (unat shift) RetryBase
              in if sint RetryCap < sint w \<or> sint w \<le> 0 then RetryCap else w)"

text \<open>\<open>r\<close> is the draw of \<^verbatim>\<open>rand.N(w/2)\<close>, below \<^verbatim>\<open>w/2\<close>.\<close>

definition BackoffDelay :: "32 word \<Rightarrow> int \<Rightarrow> int" where
  "BackoffDelay n r = sint (BackoffWindow n) div 2 + r"

definition retried :: "bytes \<Rightarrow> time \<Rightarrow> time \<Rightarrow> job \<Rightarrow> job" where
  "retried reason now runAt j =
     j\<lparr>j_State := StRetry, j_Lease := None, j_RunAt := runAt, j_UpdatedAt := now, j_LastError := reason\<rparr>"

text \<open>The cause is its text, absent for a nil error.\<close>

definition FailWithRun ::
    "jproto \<Rightarrow> Queue \<Rightarrow> time \<Rightarrow> int \<Rightarrow> Store \<Rightarrow> job \<Rightarrow> bytes option \<Rightarrow> Run option \<Rightarrow> Store \<times> job \<times> error option" where
  "FailWithRun P q now r s j cause run =
     (let reason = (case cause of None \<Rightarrow> str ''the handler failed without saying why'' | Some c \<Rightarrow> c) in
      if j_MaxAttempts j \<le> j_Attempts j then finishWithRun P q now s j StFailed reason run
      else transitionWithRun P q now s j (retried reason now (now + BackoffDelay (j_Attempts j) r)) run)"

definition job_Fail :: "jproto \<Rightarrow> Queue \<Rightarrow> time \<Rightarrow> int \<Rightarrow> Store \<Rightarrow> job \<Rightarrow> bytes option \<Rightarrow> Store \<times> job \<times> error option" where
  "job_Fail P q now r s j cause = FailWithRun P q now r s j cause None"

section \<open>A row reads back as the job that was written\<close>

text \<open>The decoder inverts the encoder, and a decoded string is no longer than a length prefix can say.\<close>

definition jproto_ok :: "jproto \<Rightarrow> bool" where
  "jproto_ok P \<longleftrightarrow>
     (\<forall>r v. encJ P r = Some v \<longrightarrow> decJ P v = Some r) \<and> (\<forall>r v. decJ P v = Some r \<longrightarrow> fits (pbj_Namespace r)) \<and> (\<forall>r v. encU P r = Some v \<longrightarrow> decU P v = Some r) \<and>
     (\<forall>r v. encP P r = Some v \<longrightarrow> decP P v = Some r)"

text \<open>The instants 64 bits of milliseconds can hold; no clock reads one beyond them.\<close>

definition ms_fits :: "time \<Rightarrow> bool" where
  "ms_fits t \<longleftrightarrow> UnixMilli t < 2 ^ 63"

definition ms_time :: "time \<Rightarrow> time" where
  "ms_time t = job_fromUnixMilli (job_unixMilli t)"

lemma UnixMilli_0: "UnixMilli 0 < 0"
  by (simp add: UnixMilli_def unix_epoch_ms_def)

lemma sint_word_of_int_ms: "0 \<le> i \<Longrightarrow> i < 2 ^ 63 \<Longrightarrow> sint (word_of_int i :: 64 word) = i"
  by (rule sint_word_of_int_64) simp_all

lemma job_unixMilli_ms_time [simp]: "ms_fits t \<Longrightarrow> job_unixMilli (ms_time t) = job_unixMilli t"
  using UnixMilli_0 sint_word_of_int_ms [of "UnixMilli t"]
  by (auto simp: ms_fits_def ms_time_def job_unixMilli_def job_fromUnixMilli_def Let_def not_less)

lemma ms_fits_from [simp]: "ms_fits (job_fromUnixMilli ms)"
  using UnixMilli_0 sint_lt [of ms] by (simp add: ms_fits_def job_fromUnixMilli_def)

definition times_fit :: "job \<Rightarrow> bool" where
  "times_fit j \<longleftrightarrow> ms_fits (j_RunAt j) \<and> ms_fits (j_UpdatedAt j) \<and>
     (\<forall>l. j_Lease j = Some l \<longrightarrow> ms_fits (l_ExpiresAt l))"

definition stored_job :: "bytes \<Rightarrow> job \<Rightarrow> job" where
  "stored_job k j =
     j\<lparr>j_Namespace := job_namespace j, j_RunAt := ms_time (j_RunAt j),
       j_Lease := map_option (\<lambda>l. l\<lparr>l_ExpiresAt := ms_time (l_ExpiresAt l)\<rparr>) (j_Lease j),
       j_CreatedAt := ms_time (j_CreatedAt j), j_UpdatedAt := ms_time (j_UpdatedAt j), j_stored := k\<rparr>"

lemma DefaultNamespace_simps [simp]: "DefaultNamespace \<noteq> []" "fits DefaultNamespace"
  by (simp_all add: DefaultNamespace_def str_def fits_def)

lemma job_namespace_not_Nil [simp]: "job_namespace j \<noteq> []"
  by (simp add: job_namespace_def)

lemma job_namespace_stored [simp]: "job_namespace (stored_job k j) = job_namespace j"
  by (simp add: stored_job_def job_namespace_def)

lemma job_Key_stored: "times_fit j \<Longrightarrow> job_Key (stored_job k j) = job_Key j"
  by (auto simp: job_Key_def times_fit_def Let_def) (auto simp: stored_job_def split: option.split)

lemma ucast_scast_8_32 [simp]: "ucast (scast (p :: 8 word) :: 32 word) = p"
  by (rule bit_word_eqI) (auto simp: bit_simps)

lemma ucast_ucast_8_32 [simp]: "ucast (ucast (p :: 8 word) :: 32 word) = p"
  by (rule bit_word_eqI) (auto simp: bit_simps)

lemma validate_fits: "validate x = None \<Longrightarrow> fits x"
  by (rule fitsI) (simp add: validate_def MaxIDLen_def split: if_splits)

lemma job_Validate_scope:
  "job_Validate j = None \<Longrightarrow> j_Tenant j \<noteq> [] \<and> scope_fits (j_Tenant j) (job_namespace j)"
  by (auto simp: job_Validate_def Let_def tenant_Valid_def namespace_Valid_def validate_fits split: if_splits)

lemma jobStateNames_Partition [simp]: "jobStateNames (Partition s) \<noteq> None"
  by (simp add: Partition_def jobStateNames_def JobRunning_def JobDone_def JobPending_def)

lemma job_Key_shape:
  "job_Key j = Inr k \<Longrightarrow> \<exists>due. k = Job (j_Tenant j) (job_namespace j) (Partition (j_State j)) due (j_ID j)"
  by (auto simp: job_Key_def Let_def bindR_eq_Inr split: if_splits)

lemma job_Unmarshal_Marshal:
  assumes "jproto_ok P" "job_Key j = Inr k" "job_Marshal P j = Inr v" "times_fit j"
  shows "job_Unmarshal P k v = Inr (stored_job k j)"
proof -
  have val: "job_Validate j = None" and enc: "encJ P (job_row j) = Some v"
    using assms(3) by (auto simp: job_Marshal_def split: option.splits)
  obtain due where k: "k = Job (j_Tenant j) (job_namespace j) (Partition (j_State j)) due (j_ID j)"
    using job_Key_shape [OF assms(2)] by blast
  have parse: "ParseJob k = Inr (j_Tenant j, job_namespace j, Partition (j_State j), due, j_ID j)"
    unfolding ParseJob_iff k using job_Validate_scope [OF val] by simp
  have lease: "job_lease op (pbj_Lease (job_row j)) = Inr (j_Lease (stored_job k j))" for op
    by (cases "j_Lease j") (simp_all add: job_lease_def job_row_def stored_job_def ms_time_def)
  have dec: "decJ P v = Some (job_row j)" using assms(1) enc by (simp add: jproto_ok_def)
  have job: "job_of k (j_Tenant j) (job_namespace j) (j_ID j) (j_Lease (stored_job k j)) (job_row j) = stored_job k j"
    by (simp add: job_of_def job_row_def stored_job_def ms_time_def)
  show ?thesis
    using job_Key_stored [OF assms(4), of k] assms(2)
    by (simp add: job_Unmarshal_def parse dec lease Let_def job) (simp add: stored_job_def)
qed

lemma job_Unmarshal_InrD:
  assumes "job_Unmarshal P k v = Inr j"
  obtains t ns due jid lease row where "ParseJob k = Inr (t, ns, Partition (j_State j), due, jid)" "decJ P v = Some row"
    "job_lease ''jobs.Unmarshal'' (pbj_Lease row) = Inr lease" "j = job_of k t ns jid lease row" "job_Key j = Inr k"
proof -
  obtain t ns part due jid where p: "ParseJob k = Inr (t, ns, part, due, jid)"
    using assms by (auto simp: job_Unmarshal_def Let_def bindR_eq_Inr)
  obtain row where d: "decJ P v = Some row"
    using assms p by (auto simp: job_Unmarshal_def Let_def split: option.splits)
  obtain lease where l: "job_lease ''jobs.Unmarshal'' (pbj_Lease row) = Inr lease"
    using assms p d by (auto simp: job_Unmarshal_def Let_def bindR_eq_Inr)
  show thesis
    using assms p d l that [of t ns due jid row lease]
    by (cases "job_Key (job_of k t ns jid lease row)") (auto simp: job_Unmarshal_def Let_def split: if_splits)
qed

lemma job_lease_fits: "job_lease op l = Inr (Some x) \<Longrightarrow> ms_fits (l_ExpiresAt x)"
  by (auto simp: job_lease_def split: option.splits sum.splits)

lemma job_Unmarshal_props:
  assumes "jproto_ok P" "job_Unmarshal P k v = Inr j"
  shows "j_stored j = k" "job_Key j = Inr k" "times_fit j"
    "\<exists>due. ParseJob k = Inr (j_Tenant j, job_namespace j, Partition (j_State j), due, j_ID j)"
proof -
  obtain t ns due jid lease row where j: "ParseJob k = Inr (t, ns, Partition (j_State j), due, jid)" "decJ P v = Some row"
      "job_lease ''jobs.Unmarshal'' (pbj_Lease row) = Inr lease" "j = job_of k t ns jid lease row" "job_Key j = Inr k"
    by (rule job_Unmarshal_InrD [OF assms(2)])
  then show "j_stored j = k" "job_Key j = Inr k" "times_fit j"
    by (auto simp: job_of_def times_fit_def dest: job_lease_fits)
  have "scope_fits t ns" using j(1) by (simp add: ParseJob_iff)
  then have "scope_fits (j_Tenant j) (job_namespace j)"
    using assms(1) j(2) by (auto simp: j(4) job_of_def job_namespace_def jproto_ok_def)
  then show "\<exists>due. ParseJob k = Inr (j_Tenant j, job_namespace j, Partition (j_State j), due, j_ID j)"
    using job_Key_shape [OF j(5)] by (auto simp: ParseJob_iff)
qed

lemma job_Key_tenant: "job_Key j = Inr k \<Longrightarrow> j_Tenant j \<noteq> []"
  by (auto simp: job_Key_def Let_def fail_def)

section \<open>What the transitions do to the store\<close>

lemma conds_Expect_New:
  "\<lparr>c_key = k, c_value = v, c_exists = ex\<rparr> \<in> set (tx_conds (tx_Expect k v ex (tx_New sync)))"
  by (rule tx_Expect_new) (simp_all add: tx_New_def tx_spent_def NewBatch_def)

lemma tx_Commit_not_closed: "tx_Commit s t = (s', t', None, cbs) \<Longrightarrow> \<not> s_closed s"
  by (auto simp: tx_Commit_def batch_Commit_def split: option.splits if_splits)

lemma move_ok:
  assumes "move P q s oldKey oldValue nxt = (s', j', None)"
  obtains k v where "job_Key nxt = Inr k" "job_Marshal P nxt = Inr v" "s_data s oldKey = Some oldValue" "\<not> s_closed s'"
    "s_data s' = (s_data s)(oldKey := None, k \<mapsto> v)" "j' = nxt\<lparr>j_stored := k\<rparr>"
proof -
  let ?tx = "\<lambda>k v. tx_Set k v (tx_Delete oldKey (tx_Expect oldKey oldValue True (tx_New (q_sync q) :: unit tx)))"
  obtain k v t' cbs where kv: "job_Key nxt = Inr k" "job_Marshal P nxt = Inr v" "tx_Commit s (?tx k v) = (s', t', None, cbs)"
      "j' = nxt\<lparr>j_stored := k\<rparr>"
    using assms by (auto simp: move_def split: sum.splits prod.splits option.splits)
  have "\<not> s_closed s" using kv(3) by (rule tx_Commit_not_closed)
  then have "tx_view s (?tx k v) = (s_data s)(oldKey := None, k \<mapsto> v)" by (simp add: staging)
  moreover have "\<lparr>c_key = oldKey, c_value = oldValue, c_exists = True\<rparr> \<in> set (tx_conds (?tx k v))"
    using conds_Expect_New [of oldKey oldValue True "q_sync q"] by (simp add: staging)
  ultimately show thesis
    using that [of k v] kv tx_Commit_view [OF kv(3)] by (auto simp: condition_fails_iff)
qed

lemma tx_conds_Expect_New: "tx_conds (tx_Expect k v ex (tx_New sync)) = [\<lparr>c_key = k, c_value = v, c_exists = ex\<rparr>]"
  by (simp add: tx_New_def tx_Expect_def tx_spent_def NewBatch_def batch_Expect_def)

lemma move_succeeds:
  assumes "job_Key nxt = Inr k" "job_Marshal P nxt = Inr v" "s_data s oldKey = Some oldValue" "\<not> s_closed s"
  obtains s' where "move P q s oldKey oldValue nxt = (s', nxt\<lparr>j_stored := k\<rparr>, None)"
    "s_data s' = (s_data s)(oldKey := None, k \<mapsto> v)" "\<not> s_closed s'"
proof -
  let ?tx = "tx_Set k v (tx_Delete oldKey (tx_Expect oldKey oldValue True (tx_New (q_sync q) :: unit tx)))"
  have "tx_live s ?tx" "\<forall>c\<in>set (tx_conds ?tx). \<not> condition_fails s c" "tx_view s ?tx = (s_data s)(oldKey := None, k \<mapsto> v)"
    using assms(3,4) by (simp_all add: staging tx_conds_Expect_New condition_fails_iff)
  then obtain s' t' where "tx_Commit s ?tx = (s', t', None, tx_onCommit ?tx)"
      "s_data s' = (s_data s)(oldKey := None, k \<mapsto> v)" "\<not> s_closed s'"
    using tx_Commit_live by metis
  then show thesis using that [of s'] assms(1,2) by (simp add: move_def)
qed

lemma Submit_succeeds:
  assumes "j_Tenant j \<noteq> []" "j_State (enqueue_defaults now fresh j) = StPending" "job_Key (enqueue_defaults now fresh j) = Inr k"
    "job_Marshal P (enqueue_defaults now fresh j) = Inr v" "s_data s k = None" "\<not> s_closed s"
  obtains s' where "Submit P q now fresh s j = (s', (enqueue_defaults now fresh j)\<lparr>j_stored := k\<rparr>, None)"
    "s_data s' = (s_data s)(k \<mapsto> v)" "\<not> s_closed s'"
proof -
  let ?tx = "tx_Set k v (tx_Expect k [] False (tx_New (q_sync q) :: unit tx))"
  have "tx_live s ?tx" "\<forall>c\<in>set (tx_conds ?tx). \<not> condition_fails s c" "tx_view s ?tx = (s_data s)(k \<mapsto> v)"
    using assms(5,6) by (simp_all add: staging tx_conds_Expect_New condition_fails_iff)
  then obtain s' t' where "tx_Commit s ?tx = (s', t', None, tx_onCommit ?tx)" "s_data s' = (s_data s)(k \<mapsto> v)" "\<not> s_closed s'"
    using tx_Commit_live by metis
  then show thesis using that [of s'] assms(1-4) by (simp add: Submit_def Enqueue_def Let_def)
qed

lemma store_ok_tx_Commit: "tx_Commit s t = (s', t', e, cbs) \<Longrightarrow> store_ok s \<Longrightarrow> store_ok s'"
  by (cases e) (auto dest: tx_Commit_ok tx_Commit_error simp: store_ok_fold_apply_op)

lemma store_ok_Submit: "Submit P q now fresh s j = (s', j', e) \<Longrightarrow> store_ok s \<Longrightarrow> store_ok s'"
  by (auto simp: Submit_def dest: store_ok_tx_Commit split: if_splits prod.splits option.splits)

lemma move_error: "move P q s oldKey oldValue nxt = (s', j', Some e) \<Longrightarrow> s' = s"
  by (auto simp: move_def dest: tx_Commit_error split: sum.splits prod.splits option.splits)

lemma store_Get_Inr: "store_Get s k = Inr v \<longleftrightarrow> \<not> s_closed s \<and> s_data s k = Some v"
  by (auto simp: store_Get_def lookup_def fail_def split: option.splits)

text \<open>
  A transition that succeeds found the row where the caller left it, past the fence, and put the
  changed row in its place; an attempt record goes to a key of its own space.
\<close>

lemma run_row_key: "run_row P now j nxt run = Inr (k, v) \<Longrightarrow> \<exists>fin rid. k = JobRun (j_Tenant j) DefaultNamespace fin rid"
  by (auto simp: run_row_def Let_def fail_def bindR_eq_Inr split: if_splits)

lemma ParseJob_not_JobRun: "fits t \<Longrightarrow> ParseJob k = Inr x \<Longrightarrow> k \<noteq> JobRun t DefaultNamespace fin rid"
  by (cases x) (auto simp: ParseJob_iff Job_def JobRun_def begin_key_append_eq_iff SpaceJob_def SpaceJobRun_def)

lemma transitionWithRun_ok:
  assumes "transitionWithRun P q now s j f run = (s', j', None)" "fits (j_Tenant j)"
  obtains val cur k v where "s_data s (j_stored j) = Some val" "job_Unmarshal P (j_stored j) val = Inr cur"
    "fence ''jobs.transition'' j cur = None" "job_Key (f cur) = Inr k" "job_Marshal P (f cur) = Inr v"
    "j' = (f cur)\<lparr>j_stored := k\<rparr>" "\<not> s_closed s'"
    "\<forall>x y. ParseJob x = Inr y \<longrightarrow> s_data s' x = ((s_data s)(j_stored j := None, k \<mapsto> v)) x"
proof -
  let ?row = "\<lambda>nxt. case run of None \<Rightarrow> Inr None | Some r \<Rightarrow> bindR (run_row P now j nxt r) (\<lambda>x. Inr (Some x))"
  let ?tx = "\<lambda>val k v. tx_Set k v (tx_Delete (j_stored j) (tx_Expect (j_stored j) val True (tx_New (q_sync q) :: unit tx)))"
  let ?tx' = "\<lambda>val k v row. case row of None \<Rightarrow> ?tx val k v | Some (k', v') \<Rightarrow> tx_Set k' v' (tx_Expect k' [] False (?tx val k v))"
  obtain val cur where cur: "store_Get s (j_stored j) = Inr val" "job_Unmarshal P (j_stored j) val = Inr cur"
      "fence ''jobs.transition'' j cur = None"
    using assms(1) by (auto simp: transitionWithRun_def Let_def split: if_splits sum.splits option.splits)
  obtain k v row where kv: "job_Key (f cur) = Inr k" "job_Marshal P (f cur) = Inr v" "?row (f cur) = Inr row"
    using assms(1) cur by (auto simp: transitionWithRun_def Let_def bindR_eq_Inr split: if_splits sum.splits)
  obtain t' cbs where c: "tx_Commit s (?tx' val k v row) = (s', t', None, cbs)" "j' = (f cur)\<lparr>j_stored := k\<rparr>"
    using assms(1) cur kv by (auto simp: transitionWithRun_def Let_def split: if_splits prod.splits option.splits)
  have s: "\<not> s_closed s" "s_data s (j_stored j) = Some val" using cur(1) by (simp_all add: store_Get_Inr)
  have "tx_view s (?tx' val k v row) x = ((s_data s)(j_stored j := None, k \<mapsto> v)) x" if "ParseJob x = Inr y" for x y
  proof (cases row)
    case None
    then show ?thesis using s(1) by (simp add: staging)
  next
    case (Some kv')
    then obtain k' v' where row: "row = Some (k', v')" by force
    then have "\<exists>fin rid. k' = JobRun (j_Tenant j) DefaultNamespace fin rid"
      using kv(3) by (auto simp: bindR_eq_Inr split: option.splits dest: run_row_key)
    then have "x \<noteq> k'" using ParseJob_not_JobRun [OF assms(2) that] by blast
    then show ?thesis using s(1) row by (simp add: staging)
  qed
  then show thesis using that [of val cur k v] s cur kv c tx_Commit_view [OF c(1)] by auto
qed

lemma transitionWithRun_error:
  "transitionWithRun P q now s j f run = (s', j', Some e) \<Longrightarrow> s' = s \<and> j' = j"
  by (auto simp: transitionWithRun_def Let_def dest: tx_Commit_error split: if_splits sum.splits prod.splits option.splits)

end
