(* ===== verification/Job_Admin.thy ===== *)
theory Job_Admin
  imports Jobs Backward
begin

text \<open>
  The rest of the job store, \<^verbatim>\<open>src/internal/jobs\<close>: the attempt history of
  \<^verbatim>\<open>history.go\<close>, pauses of \<^verbatim>\<open>pause.go\<close>, the operator's calls of
  \<^verbatim>\<open>admin.go\<close>, the handler registry of \<^verbatim>\<open>registry.go\<close> and the recurring work of
  \<^verbatim>\<open>scheduler.go\<close>. As in the queue, clock readings and fresh ids are arguments.
\<close>

section \<open>History of attempts\<close>

definition DefaultRunListLimit :: int where
  "DefaultRunListLimit = 50"

definition MaxRunListLimit :: int where
  "MaxRunListLimit = 500"

definition runScanCap :: int where
  "runScanCap = 10000"

definition Duration :: "Run \<Rightarrow> duration" where
  "Duration r =
     (if u_StartedAt r = 0 \<or> u_FinishedAt r = 0 \<or> u_FinishedAt r < u_StartedAt r then 0
      else u_FinishedAt r - u_StartedAt r)"

record RunFilter =
  rf_Types :: "bytes list"
  rf_Limit :: int
  rf_BeforeKey :: bytes

record RunPage =
  rp_Runs :: "Run list"
  rp_NextKey :: bytes
  rp_HasMore :: bool

definition unmarshalRun :: "jproto \<Rightarrow> bytes \<Rightarrow> bytes \<Rightarrow> Run res" where
  "unmarshalRun P key val = (let op = ''jobs.unmarshalRun'' in
     bindR (ParseJobRun key) (\<lambda>(t, ns, fin, rid).
       case decU P val of
         None \<Rightarrow> fail Corruption op ''the attempt row does not decode''
       | Some row \<Rightarrow>
           (case FromBytes (pbu_JobId row) of
              Inl e \<Rightarrow> fail Corruption op ''the attempt names a malformed job id''
            | Inr jid \<Rightarrow>
                Inr \<lparr>u_ID = rid, u_JobID = jid, u_Tenant = t,
                     u_Namespace = (if pbu_Namespace row \<noteq> [] then pbu_Namespace row else ns),
                     u_Type = pbu_Type row, u_Attempt = pbu_Attempt row,
                     u_StartedAt = job_fromUnixMilli (pbu_StartedAtUnixMs row), u_FinishedAt = job_fromUnixMilli fin,
                     u_Outcome = ucast (pbu_Outcome row), u_Error = pbu_Error row, u_Owner = pbu_Owner row,
                     u_RecordsProcessed = pbu_RecordsProcessed row, u_RecordsChanged = pbu_RecordsChanged row\<rparr>)))"

definition RecordRun :: "jproto \<Rightarrow> Queue \<Rightarrow> time \<Rightarrow> id \<Rightarrow> Store \<Rightarrow> Run \<Rightarrow> Store \<times> Run \<times> error option" where
  "RecordRun P q now fresh s r0 =
     (if u_Tenant r0 = [] then (s, r0, Some (err Invalid ''jobs.RecordRun'' ''an attempt belongs to a tenant (Invariant 1)''))
      else let r = r0\<lparr>u_ID := (if u_ID r0 = 0 then fresh else u_ID r0),
                      u_Namespace := (if u_Namespace r0 = [] then DefaultNamespace else u_Namespace r0),
                      u_FinishedAt := (if u_FinishedAt r0 = 0 then now else u_FinishedAt r0)\<rparr>;
               key = JobRun (u_Tenant r) DefaultNamespace (job_unixMilli (u_FinishedAt r)) (u_ID r)
           in case marshalRun P r of
                Inl e \<Rightarrow> (s, r, Some e)
              | Inr val \<Rightarrow>
                  (case tx_Commit s (tx_Set key val (tx_Expect key [] False (tx_New (q_sync q) :: unit tx))) of
                     (s', _, e, _) \<Rightarrow> (s', r, e)))"

text \<open>
  The loop from the newest run back: the entries left, the number examined, the last keys scanned
  and returned (\<open>[]\<close> for none), and the runs found.
\<close>

fun runs_loop ::
    "jproto \<Rightarrow> bytes list \<Rightarrow> int \<Rightarrow> (bytes \<times> bytes) list \<Rightarrow> int \<Rightarrow> bytes \<Rightarrow> bytes \<Rightarrow> Run list \<Rightarrow> RunPage res" where
  "runs_loop P types limit [] examined lastScanned lastReturned out =
     Inr \<lparr>rp_Runs = out, rp_NextKey = [], rp_HasMore = False\<rparr>"
| "runs_loop P types limit ((key, val) # es) examined lastScanned lastReturned out =
     (if runScanCap \<le> examined then Inr \<lparr>rp_Runs = out, rp_NextKey = lastScanned, rp_HasMore = True\<rparr>
      else case unmarshalRun P key val of
             Inl e \<Rightarrow> Inl e
           | Inr r \<Rightarrow>
               if \<not> wanted (u_Type r) types then runs_loop P types limit es (examined + 1) key lastReturned out
               else if int (length out) = limit then Inr \<lparr>rp_Runs = out, rp_NextKey = lastReturned, rp_HasMore = True\<rparr>
               else runs_loop P types limit es (examined + 1) key key (out @ [r]))"

definition run_limit :: "int \<Rightarrow> int" where
  "run_limit l = (if l \<le> 0 then DefaultRunListLimit else if MaxRunListLimit < l then MaxRunListLimit else l)"

definition RunsPage :: "jproto \<Rightarrow> Store \<Rightarrow> tenant \<Rightarrow> RunFilter \<Rightarrow> RunPage res" where
  "RunsPage P s t f = (let op = ''jobs.Runs'' in
     if t = [] then fail Invalid op ''reading job history requires a tenant: there is no unscoped read path (Invariant 1)''
     else let (lower, upper) = JobRunRange t DefaultNamespace in
       bindR (if rf_BeforeKey f = [] then Inr upper
              else case ParseJobRun (rf_BeforeKey f) of
                     Inl e \<Rightarrow> fail Invalid op ''history cursor does not belong to this tenant''
                   | Inr (ct, cns, _, _) \<Rightarrow>
                       if ct \<noteq> t \<or> cns \<noteq> DefaultNamespace
                       then fail Invalid op ''history cursor does not belong to this tenant''
                       else Inr (Some (rf_BeforeKey f)))
         (\<lambda>upper. bindR (itr_entries_back (store_NewIterator s (Some lower) upper)) (\<lambda>es.
            runs_loop P (rf_Types f) (run_limit (rf_Limit f)) es 0 [] [] [])))"

text \<open>One transaction that deletes every row of a list, each expected as it was read.\<close>

definition delete_rows :: "Queue \<Rightarrow> Store \<Rightarrow> (bytes \<times> bytes) list \<Rightarrow> Store \<times> nat \<times> error option" where
  "delete_rows q s rows =
     (if rows = [] then (s, 0, None)
      else case tx_Commit s (fold (\<lambda>(k, v) tx. tx_Delete k (tx_Expect k v True tx)) rows (tx_New (q_sync q) :: unit tx)) of
             (s', _, Some e, _) \<Rightarrow> (s', 0, Some e)
           | (s', _, None, _) \<Rightarrow> (s', length rows, None))"

definition ReapRuns :: "Queue \<Rightarrow> Store \<Rightarrow> tenant \<Rightarrow> time \<Rightarrow> int \<Rightarrow> Store \<times> nat \<times> error option" where
  "ReapRuns q s t before limit =
     (if t = [] then (s, 0, Some (err Invalid ''jobs.ReapRuns'' ''reaping requires a tenant: there is no unscoped read path (Invariant 1)''))
      else if limit \<le> 0 then (s, 0, None)
      else let (lower, upper) = JobRunBeforeRange t DefaultNamespace (job_unixMilli before)
           in case itr_entries (store_NewIterator s (Some lower) upper) of
                Inl e \<Rightarrow> (s, 0, Some e)
              | Inr es \<Rightarrow> delete_rows q s (take (nat limit) es))"

section \<open>Pauses\<close>

definition MaxPauseDuration :: duration where
  "MaxPauseDuration = 7 * 24 * 3600 * 1000000000"

record Pause =
  p_Tenant :: tenant
  p_Namespace :: nspace
  p_Type :: bytes
  p_ExpiresAt :: time
  p_SetBy :: bytes
  p_SetAt :: time

definition pause_Active :: "Pause option \<Rightarrow> time \<Rightarrow> bool" where
  "pause_Active p now \<longleftrightarrow> (case p of None \<Rightarrow> False | Some p \<Rightarrow> now < p_ExpiresAt p)"

definition pauseKey :: "string \<Rightarrow> tenant \<Rightarrow> bytes \<Rightarrow> bytes res" where
  "pauseKey op t ty =
     (if t = [] \<or> \<not> tenant_Valid t then fail Invalid op ''not a valid tenant id; a pause is per tenant (Invariant 1)''
      else bindR (ParseType ty) (\<lambda>_. Inr (JobPause t DefaultNamespace ty)))"

definition marshalPause :: "jproto \<Rightarrow> Pause \<Rightarrow> bytes res" where
  "marshalPause P p =
     (case encP P \<lparr>pbp_Type = p_Type p, pbp_ExpiresAtUnixMs = job_unixMilli (p_ExpiresAt p), pbp_SetBy = p_SetBy p,
                   pbp_SetAtUnixMs = job_unixMilli (p_SetAt p)\<rparr> of
        None \<Rightarrow> fail Invalid ''jobs.marshalPause'' ''encoding the pause''
      | Some b \<Rightarrow> Inr b)"

definition unmarshalPause :: "jproto \<Rightarrow> bytes \<Rightarrow> bytes \<Rightarrow> Pause res" where
  "unmarshalPause P key val = (let op = ''jobs.unmarshalPause'' in
     bindR (ParseJobPause key) (\<lambda>(t, ns, ty).
       case decP P val of
         None \<Rightarrow> fail Corruption op ''the pause row does not decode''
       | Some row \<Rightarrow>
           if pbp_Type row \<noteq> ty then fail Corruption op ''the pause stored under one type says it pauses another''
           else Inr \<lparr>p_Tenant = t, p_Namespace = ns, p_Type = ty,
                     p_ExpiresAt = job_fromUnixMilli (pbp_ExpiresAtUnixMs row), p_SetBy = pbp_SetBy row,
                     p_SetAt = job_fromUnixMilli (pbp_SetAtUnixMs row)\<rparr>))"

definition queue_Pause ::
    "jproto \<Rightarrow> Queue \<Rightarrow> time \<Rightarrow> Store \<Rightarrow> tenant \<Rightarrow> bytes \<Rightarrow> time \<Rightarrow> bytes \<Rightarrow> Store \<times> Pause res" where
  "queue_Pause P q now s t ty until who = (let op = ''jobs.Pause'' in
     case pauseKey op t ty of
       Inl e \<Rightarrow> (s, Inl e)
     | Inr key \<Rightarrow>
         if until = 0 then (s, fail Invalid op ''a pause needs an expiry: a suppression that never lifts outlives the memory of setting it'')
         else if \<not> now < until then (s, fail Invalid op ''the pause expiry is not in the future'')
         else if MaxPauseDuration < until - now then (s, fail Invalid op ''the pause would last longer than this server supports'')
         else let p = \<lparr>p_Tenant = t, p_Namespace = DefaultNamespace, p_Type = ty, p_ExpiresAt = until,
                       p_SetBy = who, p_SetAt = now\<rparr>
              in case marshalPause P p of
                   Inl e \<Rightarrow> (s, Inl e)
                 | Inr val \<Rightarrow>
                     (case tx_Commit s (tx_Set key val (tx_New (q_sync q) :: unit tx)) of
                        (s', _, Some e, _) \<Rightarrow> (s', Inl e)
                      | (s', _, None, _) \<Rightarrow> (s', Inr p)))"

definition queue_Resume :: "Queue \<Rightarrow> Store \<Rightarrow> tenant \<Rightarrow> bytes \<Rightarrow> Store \<times> error option" where
  "queue_Resume q s t ty =
     (case pauseKey ''jobs.Resume'' t ty of
        Inl e \<Rightarrow> (s, Some e)
      | Inr key \<Rightarrow> (case tx_Commit s (tx_Delete key (tx_New (q_sync q) :: unit tx)) of (s', _, e, _) \<Rightarrow> (s', e)))"

definition PauseOf :: "jproto \<Rightarrow> time \<Rightarrow> Store \<Rightarrow> tenant \<Rightarrow> bytes \<Rightarrow> Pause res" where
  "PauseOf P now s t ty = (let op = ''jobs.PauseOf'' in
     bindR (pauseKey op t ty) (\<lambda>key.
       case store_Get s key of
         Inl e \<Rightarrow> if is_kind e NotFound then fail NotFound op ''the job type is not paused'' else Inl e
       | Inr val \<Rightarrow>
           bindR (unmarshalPause P key val) (\<lambda>p.
             if \<not> pause_Active (Some p) now then fail NotFound op ''the job type is not paused; its pause expired'' else Inr p)))"

fun pauses_loop :: "jproto \<Rightarrow> time \<Rightarrow> (bytes \<times> bytes) list \<Rightarrow> Pause list \<Rightarrow> Pause list res" where
  "pauses_loop P now [] out = Inr out"
| "pauses_loop P now ((key, val) # es) out =
     (case unmarshalPause P key val of
        Inl e \<Rightarrow> Inl e
      | Inr p \<Rightarrow> pauses_loop P now es (if pause_Active (Some p) now then out @ [p] else out))"

definition Pauses :: "jproto \<Rightarrow> time \<Rightarrow> Store \<Rightarrow> tenant \<Rightarrow> Pause list res" where
  "Pauses P now s t =
     (if t = [] then fail Invalid ''jobs.Pauses'' ''listing pauses requires a tenant: there is no unscoped read path (Invariant 1)''
      else let (lower, upper) = JobPauseRange t DefaultNamespace
           in bindR (itr_entries (store_NewIterator s (Some lower) upper)) (\<lambda>es. pauses_loop P now es []))"

fun stale_pauses :: "jproto \<Rightarrow> time \<Rightarrow> int \<Rightarrow> (bytes \<times> bytes) list \<Rightarrow> (bytes \<times> bytes) list \<Rightarrow> (bytes \<times> bytes) list res" where
  "stale_pauses P before limit [] out = Inr out"
| "stale_pauses P before limit ((key, val) # es) out =
     (if \<not> int (length out) < limit then Inr out
      else case unmarshalPause P key val of
             Inl e \<Rightarrow> Inl e
           | Inr p \<Rightarrow> stale_pauses P before limit es (if p_ExpiresAt p < before then out @ [(key, val)] else out))"

definition ReapPauses :: "jproto \<Rightarrow> Queue \<Rightarrow> Store \<Rightarrow> tenant \<Rightarrow> time \<Rightarrow> int \<Rightarrow> Store \<times> nat \<times> error option" where
  "ReapPauses P q s t before limit =
     (if t = [] then (s, 0, Some (err Invalid ''jobs.ReapPauses'' ''reaping requires a tenant: there is no unscoped read path (Invariant 1)''))
      else if limit \<le> 0 then (s, 0, None)
      else let (lower, upper) = JobPauseRange t DefaultNamespace
           in case bindR (itr_entries (store_NewIterator s (Some lower) upper)) (\<lambda>es. stale_pauses P before limit es []) of
                Inl e \<Rightarrow> (s, 0, Some e)
              | Inr rows \<Rightarrow> delete_rows q s rows)"

definition pausedNow :: "jproto \<Rightarrow> time \<Rightarrow> Store \<Rightarrow> tenant \<Rightarrow> bytes \<Rightarrow> bool res" where
  "pausedNow P now s t ty =
     (case PauseOf P now s t ty of
        Inr _ \<Rightarrow> Inr True
      | Inl e \<Rightarrow> if is_kind e NotFound then Inr False else Inl e)"

text \<open>
  \<open>s\<close> is the store when the commit begins: other writers may have run since the pause was read.
\<close>

definition submitConditional ::
    "jproto \<Rightarrow> Queue \<Rightarrow> time \<Rightarrow> id \<Rightarrow> Store \<Rightarrow> job \<Rightarrow> bytes \<Rightarrow> bytes \<Rightarrow> bool \<Rightarrow> Store \<times> job \<times> bool res" where
  "submitConditional P q now fresh s j pkey expect present =
     (case Enqueue P now fresh j (tx_Expect pkey expect present (tx_New (q_sync q) :: unit tx)) of
        (tx, j', Some e) \<Rightarrow> (s, j', Inl e)
      | (tx, j', None) \<Rightarrow>
          (case tx_Commit s tx of
             (s', _, None, _) \<Rightarrow> (s', j', Inr True)
           | (s', _, Some e, _) \<Rightarrow>
               (s', j',
                if is_kind e Conflict
                then (case pausedNow P now s' (j_Tenant j') (j_Type j') of Inr True \<Rightarrow> Inr False | _ \<Rightarrow> Inl e)
                else Inl e)))"

definition SubmitUnlessPaused ::
    "jproto \<Rightarrow> Queue \<Rightarrow> time \<Rightarrow> id \<Rightarrow> (Store \<Rightarrow> Store) \<Rightarrow> Store \<Rightarrow> job \<Rightarrow> Store \<times> job \<times> bool res" where
  "SubmitUnlessPaused P q now fresh env s j =
     (case pauseKey ''jobs.SubmitUnlessPaused'' (j_Tenant j) (j_Type j) of
        Inl e \<Rightarrow> (s, j, Inl e)
      | Inr key \<Rightarrow>
          (case store_Get s key of
             Inr val \<Rightarrow>
               (case unmarshalPause P key val of
                  Inl e \<Rightarrow> (s, j, Inl e)
                | Inr p \<Rightarrow>
                    if pause_Active (Some p) now then (s, j, Inr False)
                    else submitConditional P q now fresh (env s) j key val True)
           | Inl e \<Rightarrow>
               if is_kind e NotFound then submitConditional P q now fresh (env s) j key [] False
               else (s, j, Inl e)))"

section \<open>The operator's calls\<close>

definition DefaultListLimit :: int where
  "DefaultListLimit = 50"

definition MaxListLimit :: int where
  "MaxListLimit = 500"

record Filter =
  fl_States :: "State list"
  fl_Types :: "bytes list"
  fl_Limit :: int

definition filter_wants :: "Filter \<Rightarrow> job \<Rightarrow> bool" where
  "filter_wants f j \<longleftrightarrow>
     wanted (j_Type j) (fl_Types f) \<and> (if fl_States f = [] then True else list_ex (\<lambda>st. st = j_State j) (fl_States f))"

definition filter_partitions :: "Filter \<Rightarrow> jobstate list" where
  "filter_partitions f =
     (if fl_States f = [] then AllJobStates
      else filter (\<lambda>part. list_ex (\<lambda>st. Partition st = part) (fl_States f)) AllJobStates)"

text \<open>The entries of one partition, from an iterator run to its end.\<close>

definition partition_entries :: "Store \<Rightarrow> tenant \<Rightarrow> jobstate \<Rightarrow> (bytes \<times> bytes) list res" where
  "partition_entries s t part =
     (let (lower, upper) = JobStateRange t DefaultNamespace part in itr_entries (store_NewIterator s (Some lower) upper))"

fun list_partition :: "jproto \<Rightarrow> Filter \<Rightarrow> int \<Rightarrow> (bytes \<times> bytes) list \<Rightarrow> job list \<Rightarrow> job list res" where
  "list_partition P f limit [] out = Inr out"
| "list_partition P f limit ((key, val) # es) out =
     (case job_Unmarshal P key val of
        Inl e \<Rightarrow> Inl e
      | Inr j \<Rightarrow>
          if \<not> filter_wants f j then list_partition P f limit es out
          else if int (length (out @ [j])) = limit then Inr (out @ [j])
          else list_partition P f limit es (out @ [j]))"

fun list_partitions :: "jproto \<Rightarrow> Store \<Rightarrow> tenant \<Rightarrow> Filter \<Rightarrow> int \<Rightarrow> jobstate list \<Rightarrow> job list \<Rightarrow> job list res" where
  "list_partitions P s t f limit [] out = Inr out"
| "list_partitions P s t f limit (part # parts) out =
     (if int (length out) = limit then Inr out
      else bindR (partition_entries s t part) (\<lambda>es.
           bindR (list_partition P f limit es out) (\<lambda>out. list_partitions P s t f limit parts out)))"

definition list_limit :: "int \<Rightarrow> int" where
  "list_limit l = (if l \<le> 0 then DefaultListLimit else if MaxListLimit < l then MaxListLimit else l)"

definition queue_List :: "jproto \<Rightarrow> Store \<Rightarrow> tenant \<Rightarrow> Filter \<Rightarrow> job list res" where
  "queue_List P s t f =
     (if t = [] then fail Invalid ''jobs.List'' ''listing jobs requires a tenant: there is no unscoped read path (Invariant 1)''
      else list_partitions P s t f (list_limit (fl_Limit f)) (filter_partitions f) [])"

fun get_partition :: "jproto \<Rightarrow> id \<Rightarrow> (bytes \<times> bytes) list \<Rightarrow> job option res" where
  "get_partition P jid [] = Inr None"
| "get_partition P jid ((key, val) # es) =
     bindR (ParseJob key) (\<lambda>(_, _, _, _, got).
       if got \<noteq> jid then get_partition P jid es
       else bindR (job_Unmarshal P key val) (\<lambda>j. Inr (Some j)))"

fun get_partitions :: "jproto \<Rightarrow> Store \<Rightarrow> tenant \<Rightarrow> id \<Rightarrow> jobstate list \<Rightarrow> job res" where
  "get_partitions P s t jid [] = fail NotFound ''jobs.Get'' ''no such job in the tenant''"
| "get_partitions P s t jid (part # parts) =
     bindR (partition_entries s t part) (\<lambda>es.
     bindR (get_partition P jid es) (\<lambda>found.
       case found of Some j \<Rightarrow> Inr j | None \<Rightarrow> get_partitions P s t jid parts))"

definition queue_Get :: "jproto \<Rightarrow> Store \<Rightarrow> tenant \<Rightarrow> id \<Rightarrow> job res" where
  "queue_Get P s t jid =
     (if t = [] then fail Invalid ''jobs.Get'' ''reading a job requires a tenant: there is no unscoped read path (Invariant 1)''
      else get_partitions P s t jid AllJobStates)"

definition cancelled :: "time \<Rightarrow> job \<Rightarrow> job" where
  "cancelled now j =
     j\<lparr>j_State := StCancelled, j_Lease := None, j_UpdatedAt := now, j_LastError := str ''cancelled by an operator''\<rparr>"

text \<open>The attempt record of a cancelled run.\<close>

definition cancel_run :: "time \<Rightarrow> id \<Rightarrow> job \<Rightarrow> id \<Rightarrow> 64 word option \<Rightarrow> 64 word option \<Rightarrow> Run option" where
  "cancel_run now fresh j localLease processed changed =
     (case j_Lease j of
        Some l \<Rightarrow>
          if j_State j = StRunning
          then let mine = \<not> (localLease \<noteq> 0 \<and> l_Token l \<noteq> localLease);
                   started = id_Time (l_Token l);
                   started = (if started = 0 \<or> now < started then j_UpdatedAt j else started)
               in Some \<lparr>u_ID = fresh, u_JobID = j_ID j, u_Tenant = j_Tenant j, u_Namespace = j_Namespace j,
                        u_Type = j_Type j, u_Attempt = j_Attempts j, u_StartedAt = started, u_FinishedAt = now,
                        u_Outcome = StCancelled, u_Error = str ''cancelled by an operator'', u_Owner = l_Owner l,
                        u_RecordsProcessed = (if mine then processed else None),
                        u_RecordsChanged = (if mine then changed else None)\<rparr>
          else None
      | None \<Rightarrow> None)"

definition cancelWithCounts ::
    "jproto \<Rightarrow> Queue \<Rightarrow> time \<Rightarrow> id \<Rightarrow> (Store \<Rightarrow> Store) \<Rightarrow> Store \<Rightarrow> tenant \<Rightarrow> id \<Rightarrow> id \<Rightarrow> 64 word option \<Rightarrow> 64 word option \<Rightarrow>
       Store \<times> error option" where
  "cancelWithCounts P q now fresh env s t jid localLease processed changed =
     (case queue_Get P s t jid of
        Inl e \<Rightarrow> (s, Some e)
      | Inr j \<Rightarrow>
          if Terminal (j_State j)
          then (s, Some (err Conflict ''jobs.Cancel'' ''the job already finished and cannot be cancelled''))
          else (case transitionWithRun P q now (env s) j (cancelled now) (cancel_run now fresh j localLease processed changed) of
                  (s', _, e) \<Rightarrow> (s', e)))"

definition Cancel ::
    "jproto \<Rightarrow> Queue \<Rightarrow> time \<Rightarrow> id \<Rightarrow> (Store \<Rightarrow> Store) \<Rightarrow> Store \<Rightarrow> tenant \<Rightarrow> id \<Rightarrow> Store \<times> error option" where
  "Cancel P q now fresh env s t jid = cancelWithCounts P q now fresh env s t jid 0 None None"

definition Reap :: "jproto \<Rightarrow> Queue \<Rightarrow> Store \<Rightarrow> tenant \<Rightarrow> time \<Rightarrow> int \<Rightarrow> Store \<times> nat \<times> error option" where
  "Reap P q s t before limit =
     (if t = [] then (s, 0, Some (err Invalid ''jobs.Reap'' ''reaping requires a tenant: there is no unscoped read path (Invariant 1)''))
      else if limit \<le> 0 then (s, 0, None)
      else case due P s t JobDone before [] limit of
             Inl e \<Rightarrow> (s, 0, Some e)
           | Inr stale \<Rightarrow> delete_rows q s (map (\<lambda>c. (cd_key c, cd_value c)) stale))"

record Counts =
  ct_Pending :: "bytes \<rightharpoonup> int"
  ct_Running :: "bytes \<rightharpoonup> int"
  ct_Capped :: bool

definition countScanCap :: int where
  "countScanCap = 100000"

definition count_up :: "bytes \<Rightarrow> (bytes \<rightharpoonup> int) \<Rightarrow> bytes \<rightharpoonup> int" where
  "count_up ty m = m(ty \<mapsto> (case m ty of None \<Rightarrow> 0 | Some n \<Rightarrow> n) + 1)"

fun count_partition :: "jproto \<Rightarrow> jobstate \<Rightarrow> (bytes \<times> bytes) list \<Rightarrow> int \<Rightarrow> Counts \<Rightarrow> (int \<times> Counts) res" where
  "count_partition P part [] seen out = Inr (seen, out)"
| "count_partition P part ((key, val) # es) seen out =
     (if countScanCap < seen + 1 then Inr (seen + 1, out\<lparr>ct_Capped := True\<rparr>)
      else bindR (job_Unmarshal P key val) (\<lambda>j.
        count_partition P part es (seen + 1)
          (if part = JobPending then out\<lparr>ct_Pending := count_up (j_Type j) (ct_Pending out)\<rparr>
           else out\<lparr>ct_Running := count_up (j_Type j) (ct_Running out)\<rparr>)))"

definition queue_Counts :: "jproto \<Rightarrow> Store \<Rightarrow> tenant \<Rightarrow> Counts res" where
  "queue_Counts P s t =
     (if t = [] then fail Invalid ''jobs.Counts'' ''counting jobs requires a tenant: there is no unscoped read path (Invariant 1)''
      else bindR (partition_entries s t JobPending) (\<lambda>es.
           bindR (count_partition P JobPending es 0 \<lparr>ct_Pending = Map.empty, ct_Running = Map.empty, ct_Capped = False\<rparr>) (\<lambda>(seen, out).
           bindR (partition_entries s t JobRunning) (\<lambda>es.
           bindR (count_partition P JobRunning es seen out) (\<lambda>(seen, out). Inr out)))))"

section \<open>Registered handlers\<close>

record 'h Entry =
  e_Type :: bytes
  e_Handler :: "'h option"
  e_Description :: bytes
  e_MaxAttempts :: "32 word"
  e_Priority :: "8 word"
  e_Every :: duration

type_synonym 'h Registry = "(bytes \<times> 'h Entry) list"

definition reg_Register :: "'h Registry \<Rightarrow> 'h Entry \<Rightarrow> 'h Registry \<times> error option" where
  "reg_Register r e = (let op = ''jobs.Registry.Register'' in
     case ParseType (e_Type e) of
       Inl x \<Rightarrow> (r, Some x)
     | Inr _ \<Rightarrow>
         if e_Handler e = None then (r, Some (err Invalid op ''the job type has no handler''))
         else if e_Every e < 0 then (r, Some (err Invalid op ''the job type has a negative interval''))
         else let e = e\<lparr>e_MaxAttempts := (if e_MaxAttempts e = 0 then DefaultMaxAttempts else e_MaxAttempts e)\<rparr>
              in if map_of r (e_Type e) \<noteq> None then (r, Some (err Conflict op ''the job type is already registered''))
                 else (r @ [(e_Type e, e)], None))"

definition reg_Handler :: "'h Registry \<Rightarrow> bytes \<Rightarrow> 'h res" where
  "reg_Handler r ty =
     (case map_of r ty of
        None \<Rightarrow> fail NotFound ''jobs.Registry.Handler'' ''no handler is registered for the job type in this binary''
      | Some e \<Rightarrow> Inr (the (e_Handler e)))"

definition reg_Types :: "'h Registry \<Rightarrow> bytes list" where
  "reg_Types r = sort (map fst r)"

definition reg_Entries :: "'h Registry \<Rightarrow> 'h Entry list" where
  "reg_Entries r = sort_key e_Type (map snd r)"

definition reg_Recurring :: "'h Registry \<Rightarrow> 'h Entry list" where
  "reg_Recurring r = filter (\<lambda>e. 0 < e_Every e) (reg_Entries r)"

section \<open>Recurring work\<close>

fun outstanding_partition :: "jproto \<Rightarrow> bytes \<Rightarrow> (bytes \<times> bytes) list \<Rightarrow> job option res" where
  "outstanding_partition P ty [] = Inr None"
| "outstanding_partition P ty ((key, val) # es) =
     bindR (job_Unmarshal P key val) (\<lambda>j. if j_Type j = ty then Inr (Some j) else outstanding_partition P ty es)"

fun outstanding_partitions :: "jproto \<Rightarrow> Store \<Rightarrow> tenant \<Rightarrow> bytes \<Rightarrow> jobstate list \<Rightarrow> job res" where
  "outstanding_partitions P s t ty [] = fail NotFound ''jobs.Outstanding'' ''the tenant has no waiting or running job of the type''"
| "outstanding_partitions P s t ty (part # parts) =
     bindR (partition_entries s t part) (\<lambda>es.
     bindR (outstanding_partition P ty es) (\<lambda>found.
       case found of Some j \<Rightarrow> Inr j | None \<Rightarrow> outstanding_partitions P s t ty parts))"

definition Outstanding :: "jproto \<Rightarrow> Store \<Rightarrow> tenant \<Rightarrow> bytes \<Rightarrow> job res" where
  "Outstanding P s t ty =
     (if t = [] then fail Invalid ''jobs.Outstanding'' ''this question requires a tenant: there is no unscoped read path (Invariant 1)''
      else outstanding_partitions P s t ty [JobPending, JobRunning])"

definition HasOutstanding :: "jproto \<Rightarrow> Store \<Rightarrow> tenant \<Rightarrow> bytes \<Rightarrow> bool res" where
  "HasOutstanding P s t ty =
     (case Outstanding P s t ty of
        Inl e \<Rightarrow> if is_kind e NotFound then Inr False else Inl e
      | Inr j \<Rightarrow> Inr True)"

definition sched_advance :: "time \<Rightarrow> bool \<Rightarrow> time \<Rightarrow> duration \<Rightarrow> time" where
  "sched_advance dueAt seen now every =
     (if \<not> seen then now + every
      else let nxt = dueAt + every in if nxt < now then now + every else nxt)"

text \<open>One tenant's turn, and the directory's tenants in order; \<open>fresh\<close> is the ids drawn by count.\<close>

definition tick_tenant ::
    "jproto \<Rightarrow> Queue \<Rightarrow> time \<Rightarrow> id \<Rightarrow> 'h Entry \<Rightarrow> Store \<Rightarrow> tenant \<Rightarrow> Store \<times> bool res" where
  "tick_tenant P q now fresh e s t =
     (case HasOutstanding P s t (e_Type e) of
        Inl x \<Rightarrow> (s, Inl x)
      | Inr True \<Rightarrow> (s, Inr False)
      | Inr False \<Rightarrow>
          (case SubmitUnlessPaused P q now fresh (\<lambda>s. s) s
                  \<lparr>j_ID = 0, j_Tenant = t, j_Namespace = DefaultNamespace, j_Type = e_Type e, j_Payload = [], j_State = 0,
                   j_Attempts = 0, j_MaxAttempts = e_MaxAttempts e, j_RunAt = now, j_Lease = None, j_Checkpoint = [],
                   j_LastError = [], j_Priority = e_Priority e, j_CreatedAt = 0, j_UpdatedAt = 0, j_stored = []\<rparr> of
             (s', _, r) \<Rightarrow> (s', r)))"

fun tick_tenants ::
    "jproto \<Rightarrow> Queue \<Rightarrow> time \<Rightarrow> (nat \<Rightarrow> id) \<Rightarrow> 'h Entry \<Rightarrow> tenant list \<Rightarrow> Store \<Rightarrow> nat \<Rightarrow> Store \<times> nat \<times> error option" where
  "tick_tenants P q now fresh e [] s n = (s, n, None)"
| "tick_tenants P q now fresh e (t # ts) s n =
     (case tick_tenant P q now (fresh n) e s t of
        (s', Inl x) \<Rightarrow> (s', n, Some x)
      | (s', Inr queued) \<Rightarrow> tick_tenants P q now fresh e ts s' (if queued then n + 1 else n))"

fun tick_entries ::
    "jproto \<Rightarrow> Queue \<Rightarrow> time \<Rightarrow> (nat \<Rightarrow> id) \<Rightarrow> tenant list \<Rightarrow> 'h Entry list \<Rightarrow> (bytes \<rightharpoonup> time) \<Rightarrow> Store \<Rightarrow> nat \<Rightarrow>
       Store \<times> (bytes \<rightharpoonup> time) \<times> nat \<times> error option" where
  "tick_entries P q now fresh ts [] nexts s n = (s, nexts, n, None)"
| "tick_entries P q now fresh ts (e # es) nexts s n =
     (case nexts (e_Type e) of
        Some dueAt \<Rightarrow>
          if now < dueAt then tick_entries P q now fresh ts es nexts s n
          else (case tick_tenants P q now fresh e ts s n of
                  (s', n', Some x) \<Rightarrow> (s', nexts(e_Type e \<mapsto> sched_advance dueAt True now (e_Every e)), n', Some x)
                | (s', n', None) \<Rightarrow>
                    tick_entries P q now fresh ts es (nexts(e_Type e \<mapsto> sched_advance dueAt True now (e_Every e))) s' n')
      | None \<Rightarrow>
          (case tick_tenants P q now fresh e ts s n of
             (s', n', Some x) \<Rightarrow> (s', nexts(e_Type e \<mapsto> sched_advance 0 False now (e_Every e)), n', Some x)
           | (s', n', None) \<Rightarrow>
               tick_entries P q now fresh ts es (nexts(e_Type e \<mapsto> sched_advance 0 False now (e_Every e))) s' n'))"

definition Tick ::
    "jproto \<Rightarrow> Queue \<Rightarrow> time \<Rightarrow> (nat \<Rightarrow> id) \<Rightarrow> tenant list \<Rightarrow> 'h Registry \<Rightarrow> (bytes \<rightharpoonup> time) \<Rightarrow> Store \<Rightarrow>
       Store \<times> (bytes \<rightharpoonup> time) \<times> nat \<times> error option" where
  "Tick P q now fresh ts reg nexts s = tick_entries P q now fresh ts (reg_Recurring reg) nexts s 0"

end
