(* ===== verification/Job_System.thy ===== *)
theory Job_System
  imports Job_Admin
begin

text \<open>
  The job queue as a system of workers, operators and other writers over one store. A step is one
  commit: what a caller read earlier may be stale by then, and any other step may have come
  between. The workers' copies of the jobs they claimed are part of the state, and so are, as a
  ghost, the ids drawn so far, for jobs and for fencing tokens. The lemmas give the invariant of the
  job rows and of the copies; from it follow the bound on attempts and the fencing of lost claims.

  A submission is a call of \<^verbatim>\<open>Enqueue\<close> the way every caller under src/ makes it: the job's id is
  left to the queue, which draws one that was not drawn before, and the job has no attempts and no
  lease. A worker's copy ends its claim at most once: \<^verbatim>\<open>execute.go\<close> completes, fails or releases a job
  whose copy still carries its lease. A copy without a lease may still renew and save.
\<close>

section \<open>The rows of the store\<close>

definition job_rows :: "jproto \<Rightarrow> (bytes \<rightharpoonup> bytes) \<Rightarrow> job set" where
  "job_rows P m = {j. \<exists>k v. m k = Some v \<and> job_Unmarshal P k v = Inr j}"

definition row_fine :: "job \<Rightarrow> bool" where
  "row_fine j \<longleftrightarrow>
     (if Partition (j_State j) = JobPending then j_Attempts j < j_MaxAttempts j \<and> j_Lease j = None
      else if Partition (j_State j) = JobRunning then 0 < j_Attempts j \<and> j_Attempts j \<le> j_MaxAttempts j
      else j_Lease j = None)"

definition same_job :: "job \<Rightarrow> job \<Rightarrow> bool" where
  "same_job i j \<longleftrightarrow> j_Tenant i = j_Tenant j \<and> j_ID i = j_ID j"

definition rows_ok :: "jproto \<Rightarrow> (bytes \<rightharpoonup> bytes) \<Rightarrow> bool" where
  "rows_ok P m \<longleftrightarrow>
     (\<forall>k v x. m k = Some v \<and> ParseJob k = Inr x \<longrightarrow> (\<exists>j. job_Unmarshal P k v = Inr j)) \<and>
     (\<forall>j\<in>job_rows P m. row_fine j) \<and>
     (\<forall>i\<in>job_rows P m. \<forall>j\<in>job_rows P m. same_job i j \<longrightarrow> i = j)"

lemma rows_ok_decodes: "rows_ok P m \<Longrightarrow> m k = Some v \<Longrightarrow> ParseJob k = Inr x \<Longrightarrow> \<exists>j. job_Unmarshal P k v = Inr j"
  unfolding rows_ok_def by blast

lemma rows_ok_fine: "rows_ok P m \<Longrightarrow> j \<in> job_rows P m \<Longrightarrow> row_fine j"
  unfolding rows_ok_def by blast

lemma rows_ok_single: "rows_ok P m \<Longrightarrow> i \<in> job_rows P m \<Longrightarrow> j \<in> job_rows P m \<Longrightarrow> same_job i j \<Longrightarrow> i = j"
  unfolding rows_ok_def by blast

lemma rows_okI:
  assumes "\<And>k v x. m k = Some v \<Longrightarrow> ParseJob k = Inr x \<Longrightarrow> \<exists>j. job_Unmarshal P k v = Inr j"
    and "\<And>j. j \<in> job_rows P m \<Longrightarrow> row_fine j"
    and "\<And>i j. i \<in> job_rows P m \<Longrightarrow> j \<in> job_rows P m \<Longrightarrow> same_job i j \<Longrightarrow> i = j"
  shows "rows_ok P m"
  unfolding rows_ok_def using assms by blast

lemma row_fine_stored [simp]: "row_fine (stored_job k j) = row_fine j"
  by (simp add: row_fine_def stored_job_def)

lemma same_job_stored [simp]: "same_job (stored_job k j) i = same_job j i" "same_job i (stored_job k j) = same_job i j"
  by (simp_all add: same_job_def stored_job_def)

lemma same_job_sym: "same_job i j = same_job j i"
  by (auto simp: same_job_def)

lemma same_job_trans: "same_job i j \<Longrightarrow> same_job j l \<Longrightarrow> same_job i l"
  by (simp add: same_job_def)

lemma job_rowsI: "m k = Some v \<Longrightarrow> job_Unmarshal P k v = Inr j \<Longrightarrow> j \<in> job_rows P m"
  by (auto simp: job_rows_def)

lemma job_rowsE:
  assumes "jproto_ok P" "j \<in> job_rows P m"
  obtains v y where "m (j_stored j) = Some v" "job_Unmarshal P (j_stored j) v = Inr j" "ParseJob (j_stored j) = Inr y"
proof -
  obtain k v where k: "m k = Some v" "job_Unmarshal P k v = Inr j" using assms(2) by (auto simp: job_rows_def)
  note props = job_Unmarshal_props [OF assms(1) k(2)]
  show thesis using that k props(1,4) by auto
qed

lemma job_at_key:
  assumes "jproto_ok P" "job_Unmarshal P k v = Inr i" "job_Key j = Inr k" "scope_fits (j_Tenant j) (job_namespace j)"
  shows "same_job i j"
proof -
  obtain due where i: "ParseJob k = Inr (j_Tenant i, job_namespace i, Partition (j_State i), due, j_ID i)"
    using job_Unmarshal_props(4) [OF assms(1,2)] by blast
  obtain due' where "k = Job (j_Tenant j) (job_namespace j) (Partition (j_State j)) due' (j_ID j)"
    using job_Key_shape [OF assms(3)] by blast
  then have "ParseJob k = Inr (j_Tenant j, job_namespace j, Partition (j_State j), due', j_ID j)"
    using assms(4) by (simp add: ParseJob_iff)
  with i show ?thesis by (simp add: same_job_def)
qed

lemma job_Marshal_scope: "job_Marshal P j = Inr v \<Longrightarrow> scope_fits (j_Tenant j) (job_namespace j)"
  using job_Validate_scope [of j] by (auto simp: job_Marshal_def split: option.splits)

text \<open>Writing one job's row: the row at \<open>k0\<close>, if any, is replaced by \<open>nxt\<close>'s.\<close>

definition writes_row :: "jproto \<Rightarrow> (bytes \<rightharpoonup> bytes) \<Rightarrow> bytes \<Rightarrow> job \<Rightarrow> (bytes \<rightharpoonup> bytes) \<Rightarrow> bytes \<Rightarrow> bool" where
  "writes_row P m k0 nxt m' k \<longleftrightarrow>
     (\<exists>v. job_Key nxt = Inr k \<and> job_Marshal P nxt = Inr v \<and>
        (\<forall>x y. ParseJob x = Inr y \<longrightarrow> m' x = (m(k0 := None, k \<mapsto> v)) x))"

lemma rows_after_write:
  assumes P: "jproto_ok P" and w: "writes_row P m k0 nxt m' k" and t: "times_fit nxt"
    and others: "\<And>i. i \<in> job_rows P m \<Longrightarrow> same_job i nxt \<Longrightarrow> j_stored i = k0"
  shows "job_rows P m' = {i \<in> job_rows P m. j_stored i \<noteq> k0} \<union> {stored_job k nxt}"
proof -
  obtain v where v: "job_Key nxt = Inr k" "job_Marshal P nxt = Inr v"
      "\<And>x y. ParseJob x = Inr y \<Longrightarrow> m' x = (m(k0 := None, k \<mapsto> v)) x"
    using w by (auto simp: writes_row_def)
  have new: "job_Unmarshal P k v = Inr (stored_job k nxt)" by (rule job_Unmarshal_Marshal [OF P v(1,2) t])
  obtain y where y: "ParseJob k = Inr y" using job_Unmarshal_props(4) [OF P new] by blast
  show ?thesis
  proof (intro set_eqI iffI)
    fix i assume "i \<in> job_rows P m'"
    then obtain u z where u: "m' (j_stored i) = Some u" "job_Unmarshal P (j_stored i) u = Inr i" "ParseJob (j_stored i) = Inr z"
      by (rule job_rowsE [OF P])
    then show "i \<in> {i \<in> job_rows P m. j_stored i \<noteq> k0} \<union> {stored_job k nxt}"
      using v(3) [OF u(3)] new by (auto split: if_splits intro: job_rowsI)
  next
    fix i assume "i \<in> {i \<in> job_rows P m. j_stored i \<noteq> k0} \<union> {stored_job k nxt}"
    then consider "i = stored_job k nxt" | "i \<in> job_rows P m" "j_stored i \<noteq> k0" by blast
    then show "i \<in> job_rows P m'"
    proof cases
      case 1
      then show ?thesis using v(3) [OF y] new by (auto intro: job_rowsI)
    next
      case 2
      from 2(1) obtain u z where u: "m (j_stored i) = Some u" "job_Unmarshal P (j_stored i) u = Inr i" "ParseJob (j_stored i) = Inr z"
        by (rule job_rowsE [OF P])
      have "j_stored i \<noteq> k"
        using job_at_key [OF P _ v(1) job_Marshal_scope [OF v(2)], of u i] u(2) others [OF 2(1)] 2(2) by auto
      then show ?thesis using v(3) [OF u(3)] u 2(2) by (auto intro: job_rowsI)
    qed
  qed
qed

lemma rows_ok_write:
  assumes P: "jproto_ok P" and w: "writes_row P m k0 nxt m' k" and t: "times_fit nxt" and ok: "rows_ok P m" "row_fine nxt"
    and others: "\<And>i. i \<in> job_rows P m \<Longrightarrow> same_job i nxt \<Longrightarrow> j_stored i = k0"
  shows "rows_ok P m'"
proof -
  have rows: "job_rows P m' = {i \<in> job_rows P m. j_stored i \<noteq> k0} \<union> {stored_job k nxt}"
    by (rule rows_after_write [OF P w t others])
  obtain v where v: "job_Key nxt = Inr k" "job_Marshal P nxt = Inr v"
      "\<And>x y. ParseJob x = Inr y \<Longrightarrow> m' x = (m(k0 := None, k \<mapsto> v)) x"
    using w by (auto simp: writes_row_def)
  have "\<exists>j. job_Unmarshal P x u = Inr j" if "m' x = Some u" "ParseJob x = Inr y" for x u y
    using that v(3) [OF that(2)] job_Unmarshal_Marshal [OF P v(1,2) t] rows_ok_decodes [OF ok(1) _ that(2), of u]
    by (auto split: if_splits)
  moreover have "row_fine j" if "j \<in> job_rows P m'" for j using that ok rows_ok_fine unfolding rows by auto
  moreover have "i = j" if "i \<in> job_rows P m'" "j \<in> job_rows P m'" "same_job i j" for i j
    using that rows_ok_single [OF ok(1)] others unfolding rows by (auto simp: same_job_sym [of nxt])
  ultimately show ?thesis by (rule rows_okI)
qed

text \<open>The row of a job whose key, tenant and id a step keeps.\<close>

lemma row_replaced:
  assumes P: "jproto_ok P" and ok: "rows_ok P m" and cur: "m k0 = Some v0" "job_Unmarshal P k0 v0 = Inr cur"
    and w: "writes_row P m k0 nxt m' k" and nxt: "times_fit nxt" "row_fine nxt" "same_job nxt cur"
  shows "rows_ok P m'" "job_rows P m' = job_rows P m - {cur} \<union> {stored_job k nxt}"
proof -
  have c: "cur \<in> job_rows P m" "j_stored cur = k0"
    using cur job_Unmarshal_props(1) [OF P cur(2)] by (auto intro: job_rowsI)
  have others: "j_stored i = k0" if "i \<in> job_rows P m" "same_job i nxt" for i
    using that c rows_ok_single [OF ok that(1) c(1)] nxt(3) same_job_trans [of i nxt cur] by auto
  have "{i \<in> job_rows P m. j_stored i \<noteq> k0} = job_rows P m - {cur}"
    using c cur job_rowsE [OF P] by (auto simp: set_eq_iff) (metis option.inject sum.inject(2))
  then show "job_rows P m' = job_rows P m - {cur} \<union> {stored_job k nxt}"
    using rows_after_write [OF P w nxt(1)] others by simp
  show "rows_ok P m'" by (rule rows_ok_write [OF P w nxt(1) ok nxt(2)]) (rule others)
qed

lemma row_added:
  assumes P: "jproto_ok P" and ok: "rows_ok P m" and fresh: "\<forall>i\<in>job_rows P m. \<not> same_job i nxt"
    and w: "writes_row P m k nxt m' k" and nxt: "times_fit nxt" "row_fine nxt"
  shows "rows_ok P m'" "job_rows P m' \<subseteq> job_rows P m \<union> {stored_job k nxt}"
proof -
  have others: "j_stored i = k" if "i \<in> job_rows P m" "same_job i nxt" for i using fresh that by blast
  show "job_rows P m' \<subseteq> job_rows P m \<union> {stored_job k nxt}" using rows_after_write [OF P w nxt(1)] others by blast
  show "rows_ok P m'" by (rule rows_ok_write [OF P w nxt(1) ok nxt(2)]) (rule others)
qed

lemma rows_deleted:
  assumes P: "jproto_ok P" and ok: "rows_ok P m" and del: "\<And>x y. ParseJob x = Inr y \<Longrightarrow> m' x = None \<or> m' x = m x"
  shows "rows_ok P m'" "job_rows P m' \<subseteq> job_rows P m"
proof -
  show sub: "job_rows P m' \<subseteq> job_rows P m"
  proof
    fix i assume "i \<in> job_rows P m'"
    then obtain u z where "m' (j_stored i) = Some u" "job_Unmarshal P (j_stored i) u = Inr i" "ParseJob (j_stored i) = Inr z"
      by (rule job_rowsE [OF P])
    then show "i \<in> job_rows P m" using del [of "j_stored i" z] job_rowsI [of m "j_stored i" u P i] by auto
  qed
  have "\<exists>j. job_Unmarshal P x u = Inr j" if "m' x = Some u" "ParseJob x = Inr y" for x u y
    using that del [OF that(2)] rows_ok_decodes [OF ok _ that(2)] by auto
  then show "rows_ok P m'" using sub rows_ok_fine [OF ok] rows_ok_single [OF ok] by (intro rows_okI) blast+
qed

section \<open>The system\<close>

record jsys =
  js_store :: Store
  js_held :: "job set"
  js_used :: "id set"

text \<open>What a worker does with its copy of a job.\<close>

datatype work = WComplete "Run option" | WFail int "bytes option" "Run option" | WRenew | WRelease | WSave bytes

fun work_on :: "jproto \<Rightarrow> Queue \<Rightarrow> time \<Rightarrow> Store \<Rightarrow> job \<Rightarrow> work \<Rightarrow> Store \<times> job \<times> error option" where
  "work_on P q now s j (WComplete run) = CompleteWithRun P q now s j run"
| "work_on P q now s j (WFail r cause run) = FailWithRun P q now r s j cause run"
| "work_on P q now s j WRenew = Renew P q now s j"
| "work_on P q now s j WRelease = Release P q now s j"
| "work_on P q now s j (WSave cursor) = job_Save P q now s j cursor"

text \<open>The operations that end a claim.\<close>

fun ends_claim :: "work \<Rightarrow> bool" where
  "ends_claim (WComplete _) = True"
| "ends_claim (WFail _ _ _) = True"
| "ends_claim WRelease = True"
| "ends_claim WRenew = False"
| "ends_claim (WSave _) = False"

text \<open>The copy a worker keeps: a successful call overwrites it, \<^verbatim>\<open>*j = *next\<close>.\<close>

definition keep :: "job \<Rightarrow> job \<Rightarrow> error option \<Rightarrow> job set \<Rightarrow> job set" where
  "keep j j' e held = (if e \<noteq> None then held else insert j' (held - {j}))"

text \<open>Instants a step may write: the clock's, the end of a lease and the end of a retry's delay.\<close>

definition clock_ok :: "Queue \<Rightarrow> time \<Rightarrow> bool" where
  "clock_ok q now \<longleftrightarrow> ms_fits now \<and> ms_fits (now + q_lease q) \<and> ms_fits (now + sint RetryCap)"

text \<open>What \<^verbatim>\<open>rand.N\<close> may have drawn for a retry's delay.\<close>

definition draw_ok :: "work \<Rightarrow> bool" where
  "draw_ok w \<longleftrightarrow> (\<forall>r cause run. w = WFail r cause run \<longrightarrow> 0 \<le> r \<and> r \<le> sint RetryCap div 2)"

text \<open>A transaction that has staged no job row yet.\<close>

definition no_job_staged :: "Store \<Rightarrow> unit tx \<Rightarrow> bool" where
  "no_job_staged s tx \<longleftrightarrow> tx_live s tx \<and> (\<forall>x y. ParseJob x = Inr y \<longrightarrow> tx_view s tx x = s_data s x)"

text \<open>A job as a caller builds it: no id, no attempts, no lease.\<close>

definition new_job :: "job \<Rightarrow> bool" where
  "new_job j \<longleftrightarrow> j_ID j = 0 \<and> j_Attempts j = 0 \<and> j_Lease j = None"

inductive jstep :: "jproto \<Rightarrow> Queue \<Rightarrow> jsys \<Rightarrow> jsys \<Rightarrow> bool" for P q where
  submit: "new_job j \<Longrightarrow> fresh \<notin> js_used st \<Longrightarrow> no_job_staged (js_store st) tx \<Longrightarrow>
     Enqueue P now fresh j tx = (tx', j', None) \<Longrightarrow> times_fit j' \<Longrightarrow> tx_Commit (js_store st) tx' = (s', t', None, cbs) \<Longrightarrow>
     jstep P q st (st\<lparr>js_store := s', js_used := insert fresh (js_used st)\<rparr>)"
| claim: "job_Unmarshal P k v = Inr c \<Longrightarrow> Partition (j_State c) = JobPending \<Longrightarrow> token \<notin> js_used st \<Longrightarrow> clock_ok q now \<Longrightarrow>
     move P q (js_store st) k v (leased q now owner token c) = (s', j', e) \<Longrightarrow>
     jstep P q st \<lparr>js_store = s', js_held = (if e = None then insert j' (js_held st) else js_held st),
                   js_used = insert token (js_used st)\<rparr>"
| reclaim: "job_Unmarshal P k v = Inr c \<Longrightarrow> Partition (j_State c) = JobRunning \<Longrightarrow> clock_ok q now \<Longrightarrow>
     move P q (js_store st) k v (reclaimed now c) = (s', j', e) \<Longrightarrow> jstep P q st (st\<lparr>js_store := s'\<rparr>)"
| work: "j \<in> js_held st \<Longrightarrow> ends_claim w \<longrightarrow> j_Lease j \<noteq> None \<Longrightarrow> clock_ok q now \<Longrightarrow> draw_ok w \<Longrightarrow>
     work_on P q now (js_store st) j w = (s', j', e) \<Longrightarrow>
     jstep P q st (st\<lparr>js_store := s', js_held := keep j j' e (js_held st)\<rparr>)"
| cancel: "job_Unmarshal P k v = Inr j \<Longrightarrow> clock_ok q now \<Longrightarrow>
     transitionWithRun P q now (js_store st) j (cancelled now) run = (s', j', e) \<Longrightarrow> jstep P q st (st\<lparr>js_store := s'\<rparr>)"
| reap: "delete_rows q (js_store st) rows = (s', n, e) \<Longrightarrow> jstep P q st (st\<lparr>js_store := s'\<rparr>)"
| other: "\<forall>x y. ParseJob x = Inr y \<longrightarrow> s_data s' x = s_data (js_store st) x \<Longrightarrow> jstep P q st (st\<lparr>js_store := s'\<rparr>)"

text \<open>
  Until its claim ends a worker's copy carries the token it was claimed under, and while a row
  carries that token it is the row of that job at the same attempt.
\<close>

definition claim_copy :: "job set \<Rightarrow> id set \<Rightarrow> job \<Rightarrow> Lease \<Rightarrow> bool" where
  "claim_copy rows used h l \<longleftrightarrow>
     fits (j_Tenant h) \<and> 0 < j_Attempts h \<and> j_Attempts h \<le> j_MaxAttempts h \<and> l_Token l \<in> used \<and>
     (\<forall>r\<in>rows. \<forall>l'. j_Lease r = Some l' \<and> l_Token l' = l_Token l \<longrightarrow>
        same_job r h \<and> j_Attempts r = j_Attempts h \<and> j_MaxAttempts r = j_MaxAttempts h)"

definition copy_ok :: "job set \<Rightarrow> id set \<Rightarrow> job \<Rightarrow> bool" where
  "copy_ok rows used h \<longleftrightarrow> (\<forall>l. j_Lease h = Some l \<longrightarrow> claim_copy rows used h l)"

definition tokens :: "job set \<Rightarrow> id set" where
  "tokens rows = {l_Token l | r l. r \<in> rows \<and> j_Lease r = Some l}"

abbreviation sys_rows :: "jproto \<Rightarrow> jsys \<Rightarrow> job set" where
  "sys_rows P st \<equiv> job_rows P (s_data (js_store st))"

definition jsys_ok :: "jproto \<Rightarrow> jsys \<Rightarrow> bool" where
  "jsys_ok P st \<longleftrightarrow>
     rows_ok P (s_data (js_store st)) \<and> tokens (sys_rows P st) \<subseteq> js_used st \<and> j_ID ` sys_rows P st \<subseteq> js_used st \<and>
     (\<forall>h\<in>js_held st. copy_ok (sys_rows P st) (js_used st) h)"

section \<open>Every step keeps the invariant\<close>

text \<open>A new row's token is fresh, or it is the token of a row of the same job at the same attempt.\<close>

definition token_kept :: "job set \<Rightarrow> id set \<Rightarrow> job \<Rightarrow> bool" where
  "token_kept rows used n \<longleftrightarrow>
     (\<forall>l. j_Lease n = Some l \<longrightarrow> l_Token l \<notin> used \<or>
        (\<exists>c\<in>rows. \<exists>l'. j_Lease c = Some l' \<and> l_Token l' = l_Token l \<and> same_job n c \<and>
           j_Attempts n = j_Attempts c \<and> j_MaxAttempts n = j_MaxAttempts c))"

lemma lease_stored: "j_Lease (stored_job k n) = Some l \<Longrightarrow> \<exists>l'. j_Lease n = Some l' \<and> l_Token l' = l_Token l"
  by (auto simp: stored_job_def)

lemma counts_stored [simp]:
  "j_Attempts (stored_job k n) = j_Attempts n" "j_MaxAttempts (stored_job k n) = j_MaxAttempts n" "j_ID (stored_job k n) = j_ID n"
  by (simp_all add: stored_job_def)

lemma claim_copy_write:
  assumes "claim_copy rows used h l" "rows' \<subseteq> rows \<union> {stored_job k n}" "token_kept rows used n" "used \<subseteq> used'"
  shows "claim_copy rows' used' h l"
proof -
  have l: "l_Token l \<in> used"
      "\<And>r l'. r \<in> rows \<Longrightarrow> j_Lease r = Some l' \<Longrightarrow> l_Token l' = l_Token l \<Longrightarrow>
         same_job r h \<and> j_Attempts r = j_Attempts h \<and> j_MaxAttempts r = j_MaxAttempts h"
    using assms(1) by (auto simp: claim_copy_def)
  have "same_job r h \<and> j_Attempts r = j_Attempts h \<and> j_MaxAttempts r = j_MaxAttempts h"
    if r: "r \<in> rows'" "j_Lease r = Some l'" "l_Token l' = l_Token l" for r l'
  proof (cases "r \<in> rows")
    case True
    then show ?thesis using l(2) r by blast
  next
    case False
    then have n: "r = stored_job k n" using r(1) assms(2) by blast
    then obtain l2 where "j_Lease n = Some l2" "l_Token l2 = l_Token l" using lease_stored r(2,3) by metis
    then obtain c l3 where "c \<in> rows" "j_Lease c = Some l3" "l_Token l3 = l_Token l" "same_job n c"
        "j_Attempts n = j_Attempts c" "j_MaxAttempts n = j_MaxAttempts c"
      using assms(3) l(1) unfolding token_kept_def by metis
    then show ?thesis using l(2) [of c l3] n same_job_trans [of n c h] by simp
  qed
  then show ?thesis using assms(1,4) unfolding claim_copy_def by blast
qed

lemma copy_ok_write:
  "copy_ok rows used h \<Longrightarrow> rows' \<subseteq> rows \<union> {stored_job k n} \<Longrightarrow> token_kept rows used n \<Longrightarrow> used \<subseteq> used' \<Longrightarrow> copy_ok rows' used' h"
  unfolding copy_ok_def using claim_copy_write by blast

lemma copy_ok_mono: "copy_ok rows used h \<Longrightarrow> rows' \<subseteq> rows \<Longrightarrow> used \<subseteq> used' \<Longrightarrow> copy_ok rows' used' h"
  unfolding copy_ok_def claim_copy_def by (meson subsetD)

lemma tokens_write:
  assumes "rows' \<subseteq> rows \<union> {stored_job k n}"
  shows "tokens rows' \<subseteq> tokens rows \<union> tokens {n}"
proof
  fix x assume "x \<in> tokens rows'"
  then obtain r l where r: "r \<in> rows'" "j_Lease r = Some l" "x = l_Token l" by (auto simp: tokens_def)
  show "x \<in> tokens rows \<union> tokens {n}"
  proof (cases "r \<in> rows")
    case True
    then show ?thesis using r by (auto simp: tokens_def)
  next
    case False
    then have "r = stored_job k n" using r(1) assms by blast
    then obtain l' where "j_Lease n = Some l'" "l_Token l' = l_Token l" using lease_stored r(2) by blast
    then show ?thesis using r(3) by (auto simp: tokens_def)
  qed
qed

definition jsys_next :: "jproto \<Rightarrow> jsys \<Rightarrow> jsys \<Rightarrow> bool" where
  "jsys_next P st st' \<longleftrightarrow>
     jsys_ok P st' \<and> js_used st \<subseteq> js_used st' \<and> tokens (sys_rows P st') \<inter> js_used st \<subseteq> tokens (sys_rows P st)"

lemma jsys_nextD:
  assumes "jsys_next P st st'"
  shows "jsys_ok P st'" "js_used st \<subseteq> js_used st'" "tokens (sys_rows P st') \<inter> js_used st \<subseteq> tokens (sys_rows P st)"
  using assms unfolding jsys_next_def by blast+

lemma token_kept_revives_none:
  assumes "token_kept rows used n"
  shows "tokens {n} \<inter> used \<subseteq> tokens rows"
proof
  fix x assume "x \<in> tokens {n} \<inter> used"
  then obtain l where l: "j_Lease n = Some l" "x = l_Token l" "x \<in> used" unfolding tokens_def by blast
  then obtain c l' where "c \<in> rows" "j_Lease c = Some l'" "l_Token l' = x" using assms unfolding token_kept_def by blast
  then show "x \<in> tokens rows" unfolding tokens_def by blast
qed

lemma jsys_next_write:
  assumes ok: "jsys_ok P st" and rows: "rows_ok P (s_data s')" "job_rows P (s_data s') \<subseteq> sys_rows P st \<union> {stored_job k n}"
    and tok: "token_kept (sys_rows P st) (js_used st) n" "tokens {n} \<subseteq> used'" "js_used st \<subseteq> used'" "j_ID n \<in> used'"
    and held: "\<And>h. h \<in> held' \<Longrightarrow> h \<in> js_held st \<or> copy_ok (job_rows P (s_data s')) used' h"
  shows "jsys_next P st \<lparr>js_store = s', js_held = held', js_used = used'\<rparr>"
proof -
  have "tokens (sys_rows P st) \<subseteq> js_used st" "j_ID ` sys_rows P st \<subseteq> js_used st"
      and copies: "\<And>h. h \<in> js_held st \<Longrightarrow> copy_ok (sys_rows P st) (js_used st) h"
    using ok unfolding jsys_ok_def by blast+
  then have toks: "tokens (job_rows P (s_data s')) \<subseteq> used'" "tokens (job_rows P (s_data s')) \<inter> js_used st \<subseteq> tokens (sys_rows P st)"
      and old: "j_ID ` sys_rows P st \<subseteq> used'"
    using tokens_write [OF rows(2)] token_kept_revives_none [OF tok(1)] tok(2,3) by blast+
  have "j_ID ` job_rows P (s_data s') \<subseteq> j_ID ` (sys_rows P st \<union> {stored_job k n})" using rows(2) by (rule image_mono)
  then have ids: "j_ID ` job_rows P (s_data s') \<subseteq> used'" using old tok(4) by (simp add: subset_insertI2 order_trans)
  have "copy_ok (job_rows P (s_data s')) used' h" if "h \<in> held'" for h
    using held [OF that] copies copy_ok_write [OF _ rows(2) tok(1,3)] by blast
  then show ?thesis using rows(1) toks ids tok(3) by (simp add: jsys_next_def jsys_ok_def)
qed

lemma jsys_next_shrink:
  assumes ok: "jsys_ok P st" and rows: "rows_ok P (s_data s')" "job_rows P (s_data s') \<subseteq> sys_rows P st"
    and held: "held' \<subseteq> js_held st" "js_used st \<subseteq> used'"
  shows "jsys_next P st \<lparr>js_store = s', js_held = held', js_used = used'\<rparr>"
proof -
  have "copy_ok (job_rows P (s_data s')) used' h" if "h \<in> held'" for h
    using copy_ok_mono [OF _ rows(2) held(2), of h] ok held(1) that unfolding jsys_ok_def by blast
  moreover have "tokens (job_rows P (s_data s')) \<subseteq> used'" "j_ID ` job_rows P (s_data s') \<subseteq> used'"
    using ok held(2) rows(2) unfolding jsys_ok_def tokens_def by blast+
  moreover have "tokens (job_rows P (s_data s')) \<subseteq> tokens (sys_rows P st)"
    using rows(2) unfolding tokens_def by blast
  ultimately show ?thesis using rows(1) held(2) unfolding jsys_next_def jsys_ok_def jsys.simps by blast
qed

lemma jsys_update [simp]:
  "st\<lparr>js_store := s'\<rparr> = \<lparr>js_store = s', js_held = js_held st, js_used = js_used st\<rparr>"
  "st\<lparr>js_store := s', js_held := h\<rparr> = \<lparr>js_store = s', js_held = h, js_used = js_used st\<rparr>"
  by simp_all

lemma jsys_next_same_store:
  "jsys_ok P st \<Longrightarrow> s' = js_store st \<Longrightarrow> held' \<subseteq> js_held st \<Longrightarrow> js_used st \<subseteq> used' \<Longrightarrow>
   jsys_next P st \<lparr>js_store = s', js_held = held', js_used = used'\<rparr>"
  by (rule jsys_next_shrink) (auto simp: jsys_ok_def)

lemma stored_namespace [simp]: "job_namespace (j\<lparr>j_stored := x\<rparr>) = job_namespace j"
  by (simp add: job_namespace_def)

lemma stored_row [simp]: "job_row (j\<lparr>j_stored := x\<rparr>) = job_row j"
  by (simp add: job_row_def)

lemma stored_Validate [simp]: "job_Validate (j\<lparr>j_stored := x\<rparr>) = job_Validate j"
  by (cases "ParseType (j_Type j)") (simp_all add: job_Validate_def Let_def)

lemma stored_Marshal [simp]: "job_Marshal P (j\<lparr>j_stored := x\<rparr>) = job_Marshal P j"
  by (cases "job_Validate j") (simp_all add: job_Marshal_def)

lemma job_stored_irrelevant [simp]:
  "job_Key (j\<lparr>j_stored := x\<rparr>) = job_Key j"
  "same_job (j\<lparr>j_stored := x\<rparr>) i = same_job j i" "same_job i (j\<lparr>j_stored := x\<rparr>) = same_job i j"
  "row_fine (j\<lparr>j_stored := x\<rparr>) = row_fine j" "times_fit (j\<lparr>j_stored := x\<rparr>) = times_fit j"
  by (simp_all add: job_Key_def Let_def same_job_def row_fine_def times_fit_def)

lemma partitions [simp]:
  "Partition StPending = JobPending" "Partition StRetry = JobPending" "Partition StRunning = JobRunning"
  "Partition StCompleted = JobDone" "Partition StFailed = JobDone" "Partition StCancelled = JobDone"
  "JobPending \<noteq> JobRunning" "JobPending \<noteq> JobDone" "JobRunning \<noteq> JobDone"
  "JobRunning \<noteq> JobPending" "JobDone \<noteq> JobPending" "JobDone \<noteq> JobRunning"
  by (simp_all add: Partition_def Terminal_def states JobPending_def JobRunning_def JobDone_def)

lemma rows_okD: "jsys_ok P st \<Longrightarrow> rows_ok P (s_data (js_store st))"
  by (simp add: jsys_ok_def)

lemma Enqueue_ok:
  assumes "Enqueue P now fresh j tx = (tx', j', None)" "new_job j"
  obtains k v where "job_Key j' = Inr k" "job_Marshal P j' = Inr v" "tx' = tx_Set k v (tx_Expect k [] False tx)"
    "row_fine j'" "j_Lease j' = None" "j_ID j' = fresh"
proof -
  let ?j = "enqueue_defaults now fresh j"
  obtain k v where kv: "job_Key ?j = Inr k" "job_Marshal P ?j = Inr v" "j_State ?j = StPending \<or> j_State ?j = StRetry"
      "tx' = tx_Set k v (tx_Expect k [] False tx)" "j' = ?j\<lparr>j_stored := k\<rparr>"
    using assms(1) by (auto simp: Enqueue_def Let_def split: if_splits sum.splits)
  have "j_MaxAttempts ?j \<noteq> 0" "j_Attempts ?j = 0" "j_Lease ?j = None" "j_ID ?j = fresh"
    using assms(2) by (auto simp: enqueue_defaults_def DefaultMaxAttempts_def new_job_def)
  then show thesis using that kv by (auto simp: row_fine_def word_neq_0_conv)
qed

lemma step_submit:
  assumes P: "jproto_ok P" and ok: "jsys_ok P st" and j: "new_job j" "fresh \<notin> js_used st" "no_job_staged (js_store st) tx"
    and enq: "Enqueue P now fresh j tx = (tx', j', None)" and t: "times_fit j'" and c: "tx_Commit (js_store st) tx' = (s', t', None, cbs)"
  shows "jsys_next P st (st\<lparr>js_store := s', js_used := insert fresh (js_used st)\<rparr>)"
proof -
  obtain k v where k: "job_Key j' = Inr k" "job_Marshal P j' = Inr v" "tx' = tx_Set k v (tx_Expect k [] False tx)"
      "row_fine j'" "j_Lease j' = None" "j_ID j' = fresh"
    by (rule Enqueue_ok [OF enq j(1)])
  have "s_data s' = (tx_view (js_store st) tx)(k \<mapsto> v)"
    using tx_Commit_view [OF c] j(3) by (simp add: k(3) no_job_staged_def staging)
  then have w: "writes_row P (s_data (js_store st)) k j' (s_data s') k"
    using k(1,2) j(3) by (auto simp: writes_row_def no_job_staged_def)
  have new: "\<forall>r\<in>sys_rows P st. \<not> same_job r j'" using ok j(2) k(6) unfolding jsys_ok_def same_job_def by auto
  note row = row_added [OF P rows_okD [OF ok] new w t k(4)]
  show ?thesis unfolding jsys_update jsys.update_convs
    by (rule jsys_next_write [OF ok row]) (auto simp: token_kept_def tokens_def k(5,6))
qed

text \<open>The queue's two ways of submitting are such steps.\<close>

lemma Submit_step:
  assumes "Submit P q now fresh (js_store st) j = (s', j', None)" "new_job j" "fresh \<notin> js_used st" "times_fit j'"
  shows "jstep P q st (st\<lparr>js_store := s', js_used := insert fresh (js_used st)\<rparr>)"
proof -
  obtain tx' t' cbs where e: "Enqueue P now fresh j (tx_New (q_sync q) :: unit tx) = (tx', j', None)"
      and c: "tx_Commit (js_store st) tx' = (s', t', None, cbs)"
    using assms(1) by (auto simp: Submit_def split: if_splits prod.splits option.splits)
  have "no_job_staged (js_store st) (tx_New (q_sync q))"
    using tx_Commit_not_closed [OF c] by (simp add: no_job_staged_def staging)
  then show ?thesis using jstep.submit [OF assms(2,3) _ e assms(4) c] by blast
qed

lemma submitConditional_step:
  assumes "submitConditional P q now fresh (js_store st) j pkey expect present = (s', j', Inr True)" "new_job j" "fresh \<notin> js_used st" "times_fit j'"
  shows "jstep P q st (st\<lparr>js_store := s', js_used := insert fresh (js_used st)\<rparr>)"
proof -
  obtain tx' t' cbs where e: "Enqueue P now fresh j (tx_Expect pkey expect present (tx_New (q_sync q) :: unit tx)) = (tx', j', None)"
      and c: "tx_Commit (js_store st) tx' = (s', t', None, cbs)"
    using assms(1) by (auto simp: submitConditional_def split: if_splits prod.splits option.splits sum.splits bool.splits)
  have "no_job_staged (js_store st) (tx_Expect pkey expect present (tx_New (q_sync q)))"
    using tx_Commit_not_closed [OF c] by (simp add: no_job_staged_def staging)
  then show ?thesis using jstep.submit [OF assms(2,3) _ e assms(4) c] by blast
qed

lemma word_Suc_le: "a < m \<Longrightarrow> 0 < a + 1 \<and> a + 1 \<le> m" for a m :: "32 word"
  using inc_le [of a m] by (auto simp: word_neq_0_conv [symmetric] eq_neg_iff_add_eq_0 [symmetric])

lemma move_writes:
  assumes "move P q s k v nxt = (s', j', None)"
  obtains k' where "writes_row P (s_data s) k nxt (s_data s') k'" "s_data s k = Some v" "j' = nxt\<lparr>j_stored := k'\<rparr>"
  using move_ok [OF assms] unfolding writes_row_def by (metis (no_types))

lemma job_Key_not_Nil: "job_Key j = Inr k \<Longrightarrow> k \<noteq> []"
  using job_Key_shape [of j k] by (auto simp: Job_def begin_key_def)

lemma used_fresh: "jsys_ok P st \<Longrightarrow> x \<notin> js_used st \<Longrightarrow> r \<in> sys_rows P st \<Longrightarrow> j_Lease r = Some l \<Longrightarrow> l_Token l \<noteq> x"
  unfolding jsys_ok_def tokens_def by blast

lemma leased_fine:
  assumes "row_fine c" "Partition (j_State c) = JobPending" "times_fit c" "clock_ok q now"
  shows "row_fine (leased q now owner token c)" "times_fit (leased q now owner token c)" "same_job (leased q now owner token c) c"
    "0 < j_Attempts (leased q now owner token c)" "j_Attempts (leased q now owner token c) \<le> j_MaxAttempts (leased q now owner token c)"
  using assms word_Suc_le [of "j_Attempts c" "j_MaxAttempts c"]
  by (simp_all add: leased_def row_fine_def times_fit_def clock_ok_def same_job_def)

lemma leased_lease: "j_Lease (leased q now owner token c) = Some l \<Longrightarrow> l_Token l = token"
  by (auto simp: leased_def)

lemma step_claim:
  assumes P: "jproto_ok P" and ok: "jsys_ok P st" and c: "job_Unmarshal P k v = Inr c" "Partition (j_State c) = JobPending"
    and fresh: "token \<notin> js_used st" and clock: "clock_ok q now"
    and mv: "move P q (js_store st) k v (leased q now owner token c) = (s', j', None)"
  shows "jsys_next P st \<lparr>js_store = s', js_held = insert j' (js_held st), js_used = insert token (js_used st)\<rparr>"
proof -
  let ?n = "leased q now owner token c"
  obtain k' where w: "writes_row P (s_data (js_store st)) k ?n (s_data s') k'" and kv: "s_data (js_store st) k = Some v"
      and j': "j' = ?n\<lparr>j_stored := k'\<rparr>" by (rule move_writes [OF mv])
  have crow: "c \<in> sys_rows P st" by (rule job_rowsI [where m = "s_data (js_store st)", OF kv c(1)])
  note fine = leased_fine [OF rows_ok_fine [OF rows_okD [OF ok] crow] c(2) job_Unmarshal_props(3) [OF P c(1)] clock, of owner token]
  note rows = row_replaced [OF P rows_okD [OF ok] kv c(1) w fine(2,1,3)]
  obtain x where x: "job_Key ?n = Inr k'" "job_Marshal P ?n = Inr x" using w by (auto simp: writes_row_def)
  have same: "same_job r ?n \<and> j_Attempts r = j_Attempts ?n \<and> j_MaxAttempts r = j_MaxAttempts ?n"
    if "r \<in> job_rows P (s_data s')" "j_Lease r = Some l" "l_Token l = token" for r l
    using that used_fresh [OF ok fresh, of r l] unfolding rows(2) by (auto simp: same_job_def stored_job_def)
  have "copy_ok (job_rows P (s_data s')) (insert token (js_used st)) j'"
    using fine(4,5) job_Marshal_scope [OF x(2)] same
    by (auto simp: copy_ok_def claim_copy_def j' leased_def)
  moreover have "j_ID ?n \<in> js_used st" using crow ok by (auto simp: jsys_ok_def leased_def)
  ultimately show ?thesis
    using rows(2) fresh
    by (intro jsys_next_write [OF ok rows(1)]) (auto simp: token_kept_def tokens_def dest: leased_lease)
qed

lemma reclaimed_fine:
  assumes "row_fine c" "Partition (j_State c) = JobRunning" "times_fit c" "clock_ok q now"
  shows "row_fine (reclaimed now c)" "times_fit (reclaimed now c)" "same_job (reclaimed now c) c" "j_Lease (reclaimed now c) = None"
  using assms by (auto simp: reclaimed_def row_fine_def times_fit_def clock_ok_def same_job_def)

lemma jsys_next_replace:
  assumes P: "jproto_ok P" and ok: "jsys_ok P st" and kv: "s_data (js_store st) k = Some v" and c: "job_Unmarshal P k v = Inr c"
    and w: "writes_row P (s_data (js_store st)) k n (s_data s') k'" and n: "times_fit n" "row_fine n" "same_job n c"
    and lease: "\<And>l. j_Lease n = Some l \<Longrightarrow> \<exists>l'. j_Lease c = Some l' \<and> l_Token l' = l_Token l \<and> j_Attempts n = j_Attempts c \<and> j_MaxAttempts n = j_MaxAttempts c"
    and held: "\<And>h. h \<in> held' \<Longrightarrow> h \<in> js_held st \<or> copy_ok (job_rows P (s_data s')) (js_used st) h"
  shows "jsys_next P st \<lparr>js_store = s', js_held = held', js_used = js_used st\<rparr>"
proof -
  note rows = row_replaced [OF P rows_okD [OF ok] kv c w n]
  have c': "c \<in> sys_rows P st" by (rule job_rowsI [where m = "s_data (js_store st)", OF kv c])
  have kept: "token_kept (sys_rows P st) (js_used st) n" using lease c' n(3) unfolding token_kept_def by blast
  have "tokens {n} \<subseteq> js_used st" using lease c' ok unfolding jsys_ok_def tokens_def by fastforce
  moreover have "j_ID n \<in> js_used st" using c' n(3) ok unfolding jsys_ok_def same_job_def by auto
  ultimately show ?thesis using rows(2) held kept by (intro jsys_next_write [OF ok rows(1)]) auto
qed

lemma step_reclaim:
  assumes P: "jproto_ok P" and ok: "jsys_ok P st" and c: "job_Unmarshal P k v = Inr c" "Partition (j_State c) = JobRunning"
    and clock: "clock_ok q now" and mv: "move P q (js_store st) k v (reclaimed now c) = (s', j', None)"
  shows "jsys_next P st (st\<lparr>js_store := s'\<rparr>)"
proof -
  obtain k' where w: "writes_row P (s_data (js_store st)) k (reclaimed now c) (s_data s') k'" and kv: "s_data (js_store st) k = Some v"
    using move_writes [OF mv] by metis
  have "c \<in> sys_rows P st" by (rule job_rowsI [where m = "s_data (js_store st)", OF kv c(1)])
  note fine = reclaimed_fine [OF rows_ok_fine [OF rows_okD [OF ok] this] c(2) job_Unmarshal_props(3) [OF P c(1)] clock]
  show ?thesis unfolding jsys_update
    by (rule jsys_next_replace [OF P ok kv c(1) w fine(2,1,3)]) (simp_all add: fine(4))
qed

subsection \<open>What a worker writes\<close>

lemma ms_fits_mono: "t \<le> u \<Longrightarrow> ms_fits u \<Longrightarrow> ms_fits t"
  using zdiv_mono1 [of t u 1000000] by (auto simp: ms_fits_def UnixMilli_def)

lemma BackoffWindow_range: "0 < sint (BackoffWindow n)" "sint (BackoffWindow n) \<le> sint RetryCap"
  by (auto simp: BackoffWindow_def Let_def RetryCap_def)

lemma BackoffDelay_le: "r \<le> sint RetryCap div 2 \<Longrightarrow> BackoffDelay n r \<le> sint RetryCap"
  using BackoffWindow_range(2) [of n] zdiv_mono1 [of "sint (BackoffWindow n)" "sint RetryCap" 2] by (simp add: BackoffDelay_def)

text \<open>The changes a worker may make to the row of its job.\<close>

definition worker_change :: "Queue \<Rightarrow> time \<Rightarrow> job \<Rightarrow> (job \<Rightarrow> job) \<Rightarrow> bool" where
  "worker_change q now j f \<longleftrightarrow>
     (\<exists>state reason. Terminal state \<and> f = finished state reason now) \<or>
     (\<exists>reason t. j_Attempts j < j_MaxAttempts j \<and> t \<le> now + sint RetryCap \<and> f = retried reason now t) \<or>
     f = renewed q now \<or> f = released now \<or> (\<exists>cursor. f = (\<lambda>i. i\<lparr>j_Checkpoint := cursor, j_UpdatedAt := now\<rparr>))"

lemma worker_change_finished: "Terminal state \<Longrightarrow> worker_change q now j (finished state reason now)"
  unfolding worker_change_def by (intro disjI1 exI [of _ state] exI [of _ reason]) simp

lemma worker_change_retried:
  "j_Attempts j < j_MaxAttempts j \<Longrightarrow> r \<le> sint RetryCap div 2 \<Longrightarrow> worker_change q now j (retried reason now (now + BackoffDelay n r))"
  using BackoffDelay_le [of r n] unfolding worker_change_def
  by (intro disjI2 [OF disjI1] exI [of _ reason] exI [of _ "now + BackoffDelay n r"]) simp

lemma worker_change_renewed: "worker_change q now j (renewed q now)" unfolding worker_change_def by simp

lemma worker_change_released: "worker_change q now j (released now)" unfolding worker_change_def by simp

lemma worker_change_saved: "worker_change q now j (\<lambda>i. i\<lparr>j_Checkpoint := cursor, j_UpdatedAt := now\<rparr>)"
  unfolding worker_change_def by (rule disjI2, rule disjI2, rule disjI2, rule disjI2, rule exI [of _ cursor], rule refl)

lemma finishWithRun_is:
  "finishWithRun P q now s j state reason run = (s', j', None) \<Longrightarrow>
   Terminal state \<and> transitionWithRun P q now s j (finished state reason now) run = (s', j', None)"
  by (auto simp: finishWithRun_def split: if_splits)

lemma work_on_ok:
  assumes "work_on P q now s j w = (s', j', None)" "draw_ok w"
  obtains f run where "transitionWithRun P q now s j f run = (s', j', None)" "worker_change q now j f"
proof -
  let ?goal = "\<exists>f run. transitionWithRun P q now s j f run = (s', j', None) \<and> worker_change q now j f"
  have ch: ?goal if "transitionWithRun P q now s j f run = (s', j', None)" "worker_change q now j f" for f run
    using that by (intro exI [of _ f] exI [of _ run] conjI)
  have fin: ?goal if "finishWithRun P q now s j state reason run = (s', j', None)" for state reason run
    using finishWithRun_is [OF that] by (elim conjE) (rule ch [OF _ worker_change_finished])
  have ?goal
  proof (cases w)
    case (WComplete run)
    with assms(1) show ?thesis by (intro fin) (simp add: CompleteWithRun_def)
  next
    case (WFail r cause run)
    then have r: "r \<le> sint RetryCap div 2" using assms(2) by (simp add: draw_ok_def)
    show ?thesis
    proof (cases "j_MaxAttempts j \<le> j_Attempts j")
      case True
      with assms(1) show ?thesis unfolding WFail by (intro fin) (simp add: FailWithRun_def Let_def)
    next
      case False
      with assms(1) show ?thesis unfolding WFail
        by (intro ch [OF _ worker_change_retried [OF _ r]]) (simp_all add: FailWithRun_def Let_def)
    qed
  next
    case WRenew
    with assms(1) show ?thesis by (intro ch [OF _ worker_change_renewed]) (simp add: Renew_def transition_def split: if_splits)
  next
    case WRelease
    with assms(1) show ?thesis by (intro ch [OF _ worker_change_released]) (simp add: Release_def transition_def)
  next
    case (WSave cursor)
    with assms(1) show ?thesis by (intro ch [OF _ worker_change_saved]) (simp add: job_Save_def transition_def split: if_splits)
  qed
  then show thesis using that by (elim exE conjE)
qed

lemma work_on_error: "work_on P q now s j w = (s', j', Some e) \<Longrightarrow> s' = s \<and> j' = j"
  by (cases w) (auto simp: CompleteWithRun_def FailWithRun_def finishWithRun_def Renew_def Release_def job_Save_def transition_def Let_def
      dest: transitionWithRun_error split: if_splits)

lemma word_pred_less: "0 < a \<Longrightarrow> a \<le> m \<Longrightarrow> a - 1 < m" for a m :: "32 word"
  by unat_arith

lemma Terminal_Done: "Terminal s \<Longrightarrow> Partition s = JobDone"
  by (auto simp: Partition_def Terminal_def states)

lemma worker_change_fine:
  assumes f: "worker_change q now j f" and c: "row_fine c" "Partition (j_State c) = JobRunning" "times_fit c" and clock: "clock_ok q now"
    and counts: "j_Attempts c = j_Attempts j" "j_MaxAttempts c = j_MaxAttempts j"
  shows "row_fine (f c)" "times_fit (f c)" "same_job (f c) c"
    "j_Lease (f c) = Some l \<Longrightarrow> \<exists>l'. j_Lease c = Some l' \<and> l_Token l' = l_Token l \<and> j_Attempts (f c) = j_Attempts c \<and> j_MaxAttempts (f c) = j_MaxAttempts c"
proof -
  have run: "0 < j_Attempts c" "j_Attempts c \<le> j_MaxAttempts c" using c(1,2) by (simp_all add: row_fine_def)
  have t: "ms_fits now" "ms_fits (now + q_lease q)" "\<And>t. t \<le> now + sint RetryCap \<Longrightarrow> ms_fits t"
    using clock ms_fits_mono by (auto simp: clock_ok_def)
  show "row_fine (f c)" using f c(1,2) run counts word_pred_less [OF run] unfolding worker_change_def
    by (auto simp: row_fine_def finished_def retried_def renewed_def released_def Terminal_Done)
  show "times_fit (f c)" using f c(3) t unfolding worker_change_def
    by (auto simp: times_fit_def finished_def retried_def renewed_def released_def)
  show "same_job (f c) c" using f unfolding worker_change_def
    by (auto simp: same_job_def finished_def retried_def renewed_def released_def)
  show "\<exists>l'. j_Lease c = Some l' \<and> l_Token l' = l_Token l \<and> j_Attempts (f c) = j_Attempts c \<and> j_MaxAttempts (f c) = j_MaxAttempts c"
    if "j_Lease (f c) = Some l" using that f unfolding worker_change_def
    by (auto simp: finished_def retried_def renewed_def released_def)
qed

lemma transitionWithRun_writes:
  assumes "transitionWithRun P q now s j f run = (s', j', None)" "fits (j_Tenant j)"
  obtains val cur k where "s_data s (j_stored j) = Some val" "job_Unmarshal P (j_stored j) val = Inr cur"
    "fence ''jobs.transition'' j cur = None" "writes_row P (s_data s) (j_stored j) (f cur) (s_data s') k" "j' = (f cur)\<lparr>j_stored := k\<rparr>"
proof (rule transitionWithRun_ok [OF assms])
  fix val cur k v
  assume "s_data s (j_stored j) = Some val" "job_Unmarshal P (j_stored j) val = Inr cur" "fence ''jobs.transition'' j cur = None"
    "job_Key (f cur) = Inr k" "job_Marshal P (f cur) = Inr v" "j' = (f cur)\<lparr>j_stored := k\<rparr>"
    "\<forall>x y. ParseJob x = Inr y \<longrightarrow> s_data s' x = ((s_data s)(j_stored j := None, k \<mapsto> v)) x"
  then show thesis by (intro that [of val cur k]) (auto simp: writes_row_def)
qed

lemma leased_running: "row_fine c \<Longrightarrow> j_Lease c = Some l \<Longrightarrow> Partition (j_State c) = JobRunning"
  by (auto simp: row_fine_def split: if_splits)

lemma unleased_refused:
  assumes "j_Lease j = None" "\<not> ends_claim w"
  shows "snd (snd (work_on P q now s j w)) \<noteq> None"
  using assms by (cases w) (simp_all add: Renew_def job_Save_def)

lemma step_work:
  assumes P: "jproto_ok P" and ok: "jsys_ok P st" and held: "j \<in> js_held st" "ends_claim w \<longrightarrow> j_Lease j \<noteq> None" and clock: "clock_ok q now" and draw: "draw_ok w"
    and op: "work_on P q now (js_store st) j w = (s', j', None)"
  shows "jsys_next P st (st\<lparr>js_store := s', js_held := keep j j' None (js_held st)\<rparr>)"
proof -
  let ?m = "s_data (js_store st)"
  obtain h where hl: "j_Lease j = Some h" using unleased_refused [of j w P q now "js_store st"] held(2) op by auto
  then have copy: "claim_copy (sys_rows P st) (js_used st) j h" using ok held(1) unfolding jsys_ok_def copy_ok_def by blast
  then have h: "fits (j_Tenant j)" "j_Lease j = Some h" "l_Token h \<in> js_used st"
      "\<And>r l. r \<in> sys_rows P st \<Longrightarrow> j_Lease r = Some l \<Longrightarrow> l_Token l = l_Token h \<Longrightarrow>
         same_job r j \<and> j_Attempts r = j_Attempts j \<and> j_MaxAttempts r = j_MaxAttempts j"
    using hl unfolding claim_copy_def by blast+
  obtain f run where f: "transitionWithRun P q now (js_store st) j f run = (s', j', None)" "worker_change q now j f"
    by (rule work_on_ok [OF op draw])
  obtain v c k where kv: "?m (j_stored j) = Some v" and c: "job_Unmarshal P (j_stored j) v = Inr c"
      and fence: "fence ''jobs.transition'' j c = None" and w: "writes_row P ?m (j_stored j) (f c) (s_data s') k"
      and j': "j' = (f c)\<lparr>j_stored := k\<rparr>"
    by (rule transitionWithRun_writes [OF f(1) h(1)])
  have crow: "c \<in> sys_rows P st" by (rule job_rowsI [where m = ?m, OF kv c])
  obtain l where l: "j_Lease c = Some l" "l_Token l = l_Token h"
    using fence h(2) by (auto simp: fence_def split: option.splits if_splits)
  note cj = h(4) [OF crow l]
  have fine: "row_fine c" by (rule rows_ok_fine [OF rows_okD [OF ok] crow])
  note new = worker_change_fine [OF f(2) fine leased_running [OF fine l(1)] job_Unmarshal_props(3) [OF P c] clock
      conjunct1 [OF conjunct2 [OF cj]] conjunct2 [OF conjunct2 [OF cj]]]
  have rows: "job_rows P (s_data s') = sys_rows P st - {c} \<union> {stored_job k (f c)}"
    by (rule row_replaced(2) [OF P rows_okD [OF ok] kv c w new(2,1,3)])
  have "claim_copy (job_rows P (s_data s')) (js_used st) j' n" if n: "j_Lease j' = Some n" for n
  proof -
    have fn: "j_Lease (f c) = Some n" using n j' by simp
    obtain x where x: "job_Key (f c) = Inr k" "job_Marshal P (f c) = Inr x" using w by (auto simp: writes_row_def)
    have eq: "l_Token n = l_Token h" "j_Attempts (f c) = j_Attempts c" "j_MaxAttempts (f c) = j_MaxAttempts c"
      using new(4) [OF fn] l by auto
    have "same_job r (f c) \<and> j_Attempts r = j_Attempts (f c) \<and> j_MaxAttempts r = j_MaxAttempts (f c)"
      if "r \<in> job_rows P (s_data s')" "j_Lease r = Some l'" "l_Token l' = l_Token h" for r l'
      using that h(4) [of r l'] cj new(3) eq unfolding rows by (auto simp: same_job_def stored_job_def)
    then show ?thesis
      using job_Marshal_scope [OF x(2)] copy cj eq h(3)
      unfolding claim_copy_def j' by simp
  qed
  then have "copy_ok (job_rows P (s_data s')) (js_used st) j'" unfolding copy_ok_def by blast
  then show ?thesis unfolding jsys_update jsys.update_convs
    by (intro jsys_next_replace [OF P ok kv c w new(2,1,3,4)]) (auto simp: keep_def split: if_splits)
qed

lemma cancelled_fine:
  "times_fit c \<Longrightarrow> clock_ok q now \<Longrightarrow> times_fit (cancelled now c)" "row_fine (cancelled now c)" "same_job (cancelled now c) c"
  "j_Lease (cancelled now c) = None"
  by (simp_all add: cancelled_def row_fine_def times_fit_def clock_ok_def same_job_def)

lemma decoded_fits:
  assumes "jproto_ok P" "job_Unmarshal P k v = Inr j"
  shows "fits (j_Tenant j)"
  using job_Unmarshal_props(4) [OF assms] by (auto simp: ParseJob_iff)

lemma step_cancel:
  assumes P: "jproto_ok P" and ok: "jsys_ok P st" and j: "job_Unmarshal P k v = Inr j" and clock: "clock_ok q now"
    and op: "transitionWithRun P q now (js_store st) j (cancelled now) run = (s', j', None)"
  shows "jsys_next P st (st\<lparr>js_store := s'\<rparr>)"
proof -
  obtain v c k where kv: "s_data (js_store st) (j_stored j) = Some v" and c: "job_Unmarshal P (j_stored j) v = Inr c"
      and w: "writes_row P (s_data (js_store st)) (j_stored j) (cancelled now c) (s_data s') k"
    by (rule transitionWithRun_writes [OF op decoded_fits [OF P j]])
  show ?thesis unfolding jsys_update
    by (rule jsys_next_replace [OF P ok kv c w cancelled_fine(1) [OF job_Unmarshal_props(3) [OF P c] clock] cancelled_fine(2,3)])
       (simp_all add: cancelled_fine(4))
qed

lemma deletes_view:
  "tx_live s tx \<Longrightarrow> tx_view s (fold (\<lambda>(k, v) tx. tx_Delete k (tx_Expect k v True tx)) rows tx) x \<in> {None, tx_view s tx x}"
proof (induction rows arbitrary: tx)
  case (Cons r rows)
  obtain k v where "r = (k, v)" by force
  then show ?case using Cons.IH [of "tx_Delete k (tx_Expect k v True tx)"] Cons.prems by (auto simp: staging split: if_splits)
qed simp

lemma delete_rows_only_deletes:
  assumes "delete_rows q s rows = (s', n, e)"
  shows "s_data s' x = None \<or> s_data s' x = s_data s x"
proof (cases "e = None \<and> rows \<noteq> []")
  case True
  then obtain t' cbs where c: "tx_Commit s (fold (\<lambda>(k, v) tx. tx_Delete k (tx_Expect k v True tx)) rows (tx_New (q_sync q) :: unit tx)) = (s', t', None, cbs)"
    using assms by (auto simp: delete_rows_def split: prod.splits option.splits)
  show ?thesis
    using deletes_view [of s "tx_New (q_sync q) :: unit tx" rows x] tx_Commit_view [OF c] tx_Commit_not_closed [OF c]
    by (auto simp: staging)
next
  case False
  then show ?thesis using assms by (auto simp: delete_rows_def dest: tx_Commit_error split: prod.splits option.splits if_splits)
qed

lemma step_delete:
  assumes "jproto_ok P" "jsys_ok P st" "\<And>x y. ParseJob x = Inr y \<Longrightarrow> s_data s' x = None \<or> s_data s' x = s_data (js_store st) x"
  shows "jsys_next P st (st\<lparr>js_store := s'\<rparr>)"
  using rows_deleted [OF assms(1) rows_okD [OF assms(2)] assms(3)] unfolding jsys_update
  by (intro jsys_next_shrink [OF assms(2)]) auto

lemma jstep_next:
  assumes P: "jproto_ok P" and step: "jstep P q st st'" and ok: "jsys_ok P st"
  shows "jsys_next P st st'"
  using step
proof cases
  case (submit j fresh tx now tx' j' s' t' cbs)
  show ?thesis unfolding submit(1) by (rule step_submit [OF P ok submit(2-7)])
next
  case (claim k v c token now owner s' j' e)
  show ?thesis
  proof (cases e)
    case None
    then show ?thesis using step_claim [OF P ok claim(2-5)] claim(1,6) by simp
  next
    case (Some x)
    then have "s' = js_store st" using claim(6) move_error by blast
    then show ?thesis using Some claim(1) by (auto intro: jsys_next_same_store [OF ok])
  qed
next
  case (reclaim k v c now s' j' e)
  show ?thesis
  proof (cases e)
    case None
    then show ?thesis using step_reclaim [OF P ok reclaim(2-4)] reclaim(1,5) by simp
  next
    case (Some x)
    then have "s' = js_store st" using reclaim(5) move_error by blast
    then show ?thesis using reclaim(1) by (simp add: jsys_next_same_store [OF ok])
  qed
next
  case (work j now w s' j' e)
  show ?thesis
  proof (cases e)
    case None
    then show ?thesis using step_work [OF P ok work(2-5)] work(1,6) by simp
  next
    case (Some x)
    then have "s' = js_store st" using work(6) work_on_error by blast
    then show ?thesis using work(1) Some by (simp add: keep_def jsys_next_same_store [OF ok])
  qed
next
  case (cancel k v j now run s' j' e)
  show ?thesis
  proof (cases e)
    case None
    then show ?thesis using step_cancel [OF P ok cancel(2,3)] cancel(1,4) by simp
  next
    case (Some x)
    then have "s' = js_store st" using cancel(4) transitionWithRun_error by blast
    then show ?thesis using cancel(1) by (simp add: jsys_next_same_store [OF ok])
  qed
next
  case (reap rows s' n e)
  show ?thesis unfolding reap(1) by (rule step_delete [OF P ok]) (rule delete_rows_only_deletes [OF reap(2)])
next
  case (other s')
  show ?thesis unfolding other(1) by (rule step_delete [OF P ok]) (use other(2) in blast)
qed

lemma jsteps_next:
  assumes P: "jproto_ok P" and steps: "(jstep P q)\<^sup>*\<^sup>* st st'" and ok: "jsys_ok P st"
  shows "jsys_next P st st'"
  using steps
proof (induction rule: rtranclp_induct)
  case base
  show ?case using ok by (simp add: jsys_next_def)
next
  case (step y z)
  have "jsys_next P y z" by (rule jstep_next [OF P step(2) jsys_nextD(1) [OF step(3)]])
  with step(3) show ?case unfolding jsys_next_def by blast
qed

section \<open>Attempts, claims and their fencing\<close>

text \<open>A store with no job in it, no claim and no id drawn.\<close>

definition jsys_start :: "jsys \<Rightarrow> bool" where
  "jsys_start st \<longleftrightarrow>
     (\<forall>k v x. s_data (js_store st) k = Some v \<longrightarrow> ParseJob k \<noteq> Inr x) \<and> js_held st = {} \<and> js_used st = {}"

lemma jsys_start_ok:
  assumes P: "jproto_ok P" and st: "jsys_start st"
  shows "jsys_ok P st"
proof -
  have none: "sys_rows P st = {}"
  proof -
    have False if "j \<in> sys_rows P st" for j
    proof -
      obtain v y where "s_data (js_store st) (j_stored j) = Some v" "ParseJob (j_stored j) = Inr y"
        using job_rowsE [OF P \<open>j \<in> sys_rows P st\<close>] by metis
      then show False using st unfolding jsys_start_def by blast
    qed
    then show ?thesis by blast
  qed
  have "rows_ok P (s_data (js_store st))" using st none unfolding rows_ok_def jsys_start_def by blast
  then show ?thesis using st none by (simp add: jsys_ok_def jsys_start_def tokens_def)
qed

lemma lost_claim_refused:
  assumes P: "jproto_ok P" and ok: "jsys_ok P st" and h: "fits (j_Tenant h)" "j_Lease h = Some l" "l_Token l \<notin> tokens (sys_rows P st)"
    and draw: "draw_ok w" and op: "work_on P q now (js_store st) h w = (s', j', e)"
  shows "e \<noteq> None \<and> s' = js_store st"
proof (cases e)
  case None
  obtain f run where f: "transitionWithRun P q now (js_store st) h f run = (s', j', None)" "worker_change q now h f"
    by (rule work_on_ok [OF op [unfolded None] draw])
  obtain v c where c: "s_data (js_store st) (j_stored h) = Some v" "job_Unmarshal P (j_stored h) v = Inr c"
      "fence ''jobs.transition'' h c = None"
    by (rule transitionWithRun_writes [OF f(1) h(1)])
  have "c \<in> sys_rows P st" by (rule job_rowsI [where m = "s_data (js_store st)", OF c(1,2)])
  moreover obtain l' where "j_Lease c = Some l'" "l_Token l' = l_Token l"
    using c(3) h(2) by (auto simp: fence_def split: option.splits if_splits)
  ultimately have "l_Token l \<in> tokens (sys_rows P st)" unfolding tokens_def by (metis (mono_tags, lifting) mem_Collect_eq)
  then show ?thesis using h(3) by blast
next
  case (Some x)
  then show ?thesis using op work_on_error by blast
qed

end
