(* ===== verification/Job_Claims.thy ===== *)
theory Job_Claims
  imports Job_System
begin

text \<open>
  What the queue promises its workers: a bound on the attempts of a job, one live claim at a time,
  and that a lost claim stays lost; and the two ways round these promises that the queue's calls leave
  open, a copy whose claim has ended and an id that is submitted again.
\<close>

section \<open>A sample run\<close>

text \<open>A job that is submitted, claimed, and reclaimed or completed, under a codec that knows its four rows.\<close>

definition job_sample_now :: time where
  "job_sample_now = 63800000000 * 1000000000"

definition job_sample :: job where
  "job_sample =
     \<lparr>j_ID = 0, j_Tenant = str ''acme'', j_Namespace = [], j_Type = str ''embed'', j_Payload = [1], j_State = 0, j_Attempts = 0,
      j_MaxAttempts = 2, j_RunAt = 0, j_Lease = None, j_Checkpoint = [], j_LastError = [], j_Priority = 0, j_CreatedAt = 0,
      j_UpdatedAt = 0, j_stored = []\<rparr>"

definition job_sample_a :: job where
  "job_sample_a = enqueue_defaults job_sample_now 5 job_sample"

definition job_sample_ka :: bytes where
  "job_sample_ka = projr (job_Key job_sample_a)"

definition job_sample_b :: job where
  "job_sample_b = leased NewQueue job_sample_now [119] 9 (stored_job job_sample_ka job_sample_a)"

definition job_sample_kb :: bytes where
  "job_sample_kb = projr (job_Key job_sample_b)"

definition job_sample_c :: job where
  "job_sample_c = reclaimed job_sample_now (stored_job job_sample_kb job_sample_b)"

definition job_sample_kc :: bytes where
  "job_sample_kc = projr (job_Key job_sample_c)"

definition job_sample_d :: job where
  "job_sample_d = finished StCompleted [] job_sample_now (stored_job job_sample_kb job_sample_b)"

definition job_sample_kd :: bytes where
  "job_sample_kd = projr (job_Key job_sample_d)"

definition job_sample_proto :: jproto where
  "job_sample_proto =
     \<lparr>encJ = (\<lambda>r. if r = job_row job_sample_a then Some [1] else if r = job_row job_sample_b then Some [2]
              else if r = job_row job_sample_c then Some [3] else if r = job_row job_sample_d then Some [4] else None),
      decJ = (\<lambda>b. if b = [1] then Some (job_row job_sample_a) else if b = [2] then Some (job_row job_sample_b)
              else if b = [3] then Some (job_row job_sample_c) else if b = [4] then Some (job_row job_sample_d) else None),
      encU = (\<lambda>_. None), decU = (\<lambda>_. None), encP = (\<lambda>_. None), decP = (\<lambda>_. None)\<rparr>"

lemmas job_sample_defs = job_sample_a_def job_sample_b_def job_sample_c_def job_sample_d_def finished_def enqueue_defaults_def leased_def reclaimed_def
  job_sample_def job_namespace_def stored_job_def

lemma job_sample_proto_ok: "jproto_ok job_sample_proto"
proof -
  have "fits (pbj_Namespace (job_row job_sample_a))" "fits (pbj_Namespace (job_row job_sample_b))"
      "fits (pbj_Namespace (job_row job_sample_c))" "fits (pbj_Namespace (job_row job_sample_d))"
    by (simp_all add: job_sample_defs job_row_def)
  then show ?thesis by (auto simp: jproto_ok_def job_sample_proto_def split: if_splits)
qed

lemma job_sample_fields:
  assumes "j \<in> {job_sample_a, job_sample_b, job_sample_c, job_sample_d}"
  shows "j_ID j = 5" "j_Tenant j = str ''acme''" "job_namespace j = DefaultNamespace" "j_Type j = str ''embed''" "j_Payload j = [1]"
  using assms by (auto simp: job_sample_defs)

lemma job_sample_ids: "j_Tenant job_sample_a = str ''acme''" "j_Tenant job_sample_b = str ''acme''" "j_ID job_sample_a = 5" "j_ID job_sample_b = 5"
  by (rule job_sample_fields, blast)+

lemma job_sample_states:
  "j_State job_sample_a = StPending" "j_State job_sample_b = StRunning" "j_State job_sample_c = StPending" "j_State job_sample_d = StCompleted"
  "j_LastError job_sample_a = []" "j_LastError job_sample_c \<noteq> []" "j_Lease job_sample_b \<noteq> None"
proof -
  have "\<not> (2 :: 32 word) \<le> 1" by code_simp
  then show "j_State job_sample_a = StPending" "j_State job_sample_b = StRunning" "j_State job_sample_c = StPending" "j_State job_sample_d = StCompleted"
    "j_LastError job_sample_a = []" "j_LastError job_sample_c \<noteq> []" "j_Lease job_sample_b \<noteq> None"
    by (simp_all add: job_sample_defs str_def)
qed

lemma job_Key_total:
  assumes "j_Tenant j \<noteq> []" "Partition (j_State j) = JobRunning \<Longrightarrow> j_Lease j \<noteq> None"
  shows "job_Key j = Inr (projr (job_Key j))"
  using assms by (cases "j_Lease j") (auto simp: job_Key_def Let_def)

lemma job_sample_Key:
  assumes "j \<in> {job_sample_a, job_sample_b, job_sample_c, job_sample_d}"
  shows "job_Key j = Inr (projr (job_Key j))"
proof (rule job_Key_total)
  show "j_Tenant j \<noteq> []" unfolding job_sample_fields(2) [OF assms] by (simp add: str_def)
  show "j_Lease j \<noteq> None" if "Partition (j_State j) = JobRunning" using assms that job_sample_states by auto
qed

lemma job_sample_keys:
  "job_Key job_sample_a = Inr job_sample_ka" "job_Key job_sample_b = Inr job_sample_kb" "job_Key job_sample_c = Inr job_sample_kc"
  "job_Key job_sample_d = Inr job_sample_kd"
  unfolding job_sample_ka_def job_sample_kb_def job_sample_kc_def job_sample_kd_def by (rule job_sample_Key, simp)+

lemma job_sample_names: "tenant_Valid (str ''acme'')" "namespace_Valid DefaultNamespace" "ParseType (str ''embed'') = Inr (str ''embed'')"
  by code_simp+

lemma job_sample_valid:
  assumes "j \<in> {job_sample_a, job_sample_b, job_sample_c, job_sample_d}"
  shows "job_Validate j = None"
proof -
  have "stateNames (j_State j) \<noteq> None" using assms by (auto simp: job_sample_states) (simp_all add: stateNames_def states)
  then show ?thesis
    using job_sample_fields [OF assms] job_sample_names by (simp add: job_Validate_def Let_def MaxPayloadBytes_def str_def)
qed

lemma job_sample_row_differ:
  "job_row job_sample_b \<noteq> job_row job_sample_a" "job_row job_sample_c \<noteq> job_row job_sample_a" "job_row job_sample_d \<noteq> job_row job_sample_a"
  "job_row job_sample_c \<noteq> job_row job_sample_b" "job_row job_sample_d \<noteq> job_row job_sample_b" "job_row job_sample_d \<noteq> job_row job_sample_c"
  using job_sample_states by (auto simp: job_row_def states)

lemma job_sample_rows:
  "job_Marshal job_sample_proto job_sample_a = Inr [1]" "job_Marshal job_sample_proto job_sample_b = Inr [2]"
  "job_Marshal job_sample_proto job_sample_c = Inr [3]" "job_Marshal job_sample_proto job_sample_d = Inr [4]"
  by (simp_all add: job_Marshal_def job_sample_valid job_sample_proto_def job_sample_row_differ)

lemma job_sample_clock: "clock_ok NewQueue job_sample_now"
  by (simp add: clock_ok_def ms_fits_def UnixMilli_def unix_epoch_ms_def NewQueue_def DefaultLease_def job_sample_now_def RetryCap_def)

lemma job_sample_ms: "ms_time job_sample_now = job_sample_now"
  by code_simp

lemma job_sample_times: "times_fit job_sample_a" "times_fit job_sample_b" "times_fit job_sample_c" "times_fit job_sample_d"
  using job_sample_clock by (simp_all add: times_fit_def job_sample_defs clock_ok_def job_sample_ms)

lemma job_Key_parses:
  assumes "job_Key j = Inr k" "job_Validate j = None"
  obtains d where "ParseJob k = Inr (j_Tenant j, job_namespace j, Partition (j_State j), d, j_ID j)"
proof -
  obtain d where "k = Job (j_Tenant j) (job_namespace j) (Partition (j_State j)) d (j_ID j)" using job_Key_shape [OF assms(1)] by blast
  then show thesis using that [of d] job_Validate_scope [OF assms(2)] by (simp add: ParseJob_iff)
qed

lemma job_keys_differ:
  assumes "job_Key i = Inr k" "job_Key j = Inr k'" "job_Validate i = None" "job_Validate j = None" "Partition (j_State i) \<noteq> Partition (j_State j)"
  shows "k \<noteq> k'"
  using job_Key_parses [OF assms(1,3)] job_Key_parses [OF assms(2,4)] assms(5) by (metis Inr_inject Pair_inject)

lemma job_sample_distinct:
  "job_sample_ka \<noteq> job_sample_kb" "job_sample_kb \<noteq> job_sample_kc" "job_sample_kb \<noteq> job_sample_kd" "job_sample_ka \<noteq> job_sample_kd"
  using job_keys_differ [OF job_sample_keys(1,2)] job_keys_differ [OF job_sample_keys(2,3)] job_keys_differ [OF job_sample_keys(2,4)]
    job_keys_differ [OF job_sample_keys(1,4)]
  by (simp_all add: job_sample_valid job_sample_states)

abbreviation job_sample_start :: jsys where
  "job_sample_start \<equiv> \<lparr>js_store = New, js_held = {}, js_used = {}\<rparr>"

abbreviation job_sample_held :: job where
  "job_sample_held \<equiv> job_sample_b\<lparr>j_stored := job_sample_kb\<rparr>"

lemma job_sample_start_ok: "jsys_start job_sample_start"
  by (simp add: jsys_start_def New_def)

lemma job_sample_submitted:
  obtains s1 where
    "Submit job_sample_proto NewQueue job_sample_now 5 New job_sample = (s1, job_sample_a\<lparr>j_stored := job_sample_ka\<rparr>, None)"
    "s_data s1 = [job_sample_ka \<mapsto> [1]]" "\<not> s_closed s1" "store_ok s1"
    "jstep job_sample_proto NewQueue job_sample_start \<lparr>js_store = s1, js_held = {}, js_used = {5}\<rparr>"
proof -
  let ?P = job_sample_proto
  obtain s1 where s1: "Submit ?P NewQueue job_sample_now 5 New job_sample = (s1, job_sample_a\<lparr>j_stored := job_sample_ka\<rparr>, None)"
      "s_data s1 = [job_sample_ka \<mapsto> [1]]" "\<not> s_closed s1"
  proof (rule Submit_succeeds [of job_sample job_sample_now 5 job_sample_ka ?P "[1]" New NewQueue, folded job_sample_a_def])
    show "j_Tenant job_sample \<noteq> []" "j_State job_sample_a = StPending" "s_data New job_sample_ka = None" "\<not> s_closed New"
      by (simp_all add: New_def job_sample_a_def enqueue_defaults_def job_sample_def str_def)
  qed (use job_sample_keys(1) job_sample_rows(1) in \<open>simp_all add: New_def\<close>)
  moreover have "jstep ?P NewQueue job_sample_start \<lparr>js_store = s1, js_held = {}, js_used = {5}\<rparr>"
    using Submit_step [of ?P NewQueue job_sample_now 5 job_sample_start job_sample s1 "job_sample_a\<lparr>j_stored := job_sample_ka\<rparr>"]
      s1(1) job_sample_times(1)
    by (simp add: job_sample_def new_job_def)
  moreover have "store_ok s1" using store_ok_Submit [OF s1(1)] by simp
  ultimately show thesis using that by blast
qed

lemmas job_sample_decoded =
  job_Unmarshal_Marshal [OF job_sample_proto_ok job_sample_keys(1) job_sample_rows(1) job_sample_times(1)]
  job_Unmarshal_Marshal [OF job_sample_proto_ok job_sample_keys(2) job_sample_rows(2) job_sample_times(2)]
  job_Unmarshal_Marshal [OF job_sample_proto_ok job_sample_keys(3) job_sample_rows(3) job_sample_times(3)]
  job_Unmarshal_Marshal [OF job_sample_proto_ok job_sample_keys(4) job_sample_rows(4) job_sample_times(4)]

lemma job_sample_run:
  obtains s2 s3 where
    "(jstep job_sample_proto NewQueue)\<^sup>*\<^sup>* job_sample_start \<lparr>js_store = s2, js_held = {job_sample_held}, js_used = {9, 5}\<rparr>"
    "jstep job_sample_proto NewQueue \<lparr>js_store = s2, js_held = {job_sample_held}, js_used = {9, 5}\<rparr>
       \<lparr>js_store = s3, js_held = {job_sample_held}, js_used = {9, 5}\<rparr>"
    "s_data s3 = [job_sample_kc \<mapsto> [3]]"
proof -
  let ?P = job_sample_proto
  obtain s1 where s1: "Submit ?P NewQueue job_sample_now 5 New job_sample = (s1, job_sample_a\<lparr>j_stored := job_sample_ka\<rparr>, None)"
      "s_data s1 = [job_sample_ka \<mapsto> [1]]" "\<not> s_closed s1"
      and step1: "jstep ?P NewQueue job_sample_start \<lparr>js_store = s1, js_held = {}, js_used = {5}\<rparr>"
    by (rule job_sample_submitted)
  obtain s2 where s2: "move ?P NewQueue s1 job_sample_ka [1] job_sample_b = (s2, job_sample_held, None)"
      "s_data s2 = [job_sample_kb \<mapsto> [2]]" "\<not> s_closed s2"
    using move_succeeds [OF job_sample_keys(2) job_sample_rows(2), of s1 job_sample_ka "[1]" NewQueue] s1(2,3)
    by (auto simp: job_sample_distinct fun_upd_idem)
  have step2: "jstep ?P NewQueue \<lparr>js_store = s1, js_held = {}, js_used = {5}\<rparr> \<lparr>js_store = s2, js_held = {job_sample_held}, js_used = {9, 5}\<rparr>"
    using jstep.claim [OF job_sample_decoded(1), of 9 "\<lparr>js_store = s1, js_held = {}, js_used = {5}\<rparr>" NewQueue job_sample_now "[119]", folded job_sample_b_def]
      s2(1) job_sample_clock
    by (simp add: stored_job_def job_sample_a_def enqueue_defaults_def job_sample_def)
  obtain s3 where s3: "move ?P NewQueue s2 job_sample_kb [2] job_sample_c = (s3, job_sample_c\<lparr>j_stored := job_sample_kc\<rparr>, None)"
      "s_data s3 = [job_sample_kc \<mapsto> [3]]"
    using move_succeeds [OF job_sample_keys(3) job_sample_rows(3), of s2 job_sample_kb "[2]" NewQueue] s2(2,3)
    by (auto simp: job_sample_distinct)
  have step3: "jstep ?P NewQueue \<lparr>js_store = s2, js_held = {job_sample_held}, js_used = {9, 5}\<rparr>
      \<lparr>js_store = s3, js_held = {job_sample_held}, js_used = {9, 5}\<rparr>"
    using jstep.reclaim [OF job_sample_decoded(2), of NewQueue job_sample_now "\<lparr>js_store = s2, js_held = {job_sample_held}, js_used = {9, 5}\<rparr>", folded job_sample_c_def]
      s3(1) job_sample_clock
    by (simp add: stored_job_def job_sample_b_def leased_def)
  show thesis using that step1 step2 step3 s3(2) by (meson converse_rtranclp_into_rtranclp rtranclp.rtrancl_refl)
qed

section \<open>Attempts, claims and their fencing\<close>

definition lease_token :: "job \<Rightarrow> id option" where
  "lease_token j = map_option l_Token (j_Lease j)"

lemma held_claim:
  assumes "jsys_ok P st" "h \<in> js_held st" "lease_token h = Some x"
  obtains l where "j_Lease h = Some l" "l_Token l = x" "claim_copy (sys_rows P st) (js_used st) h l"
  using assms unfolding jsys_ok_def copy_ok_def lease_token_def by blast

lemma claim_copy_live:
  assumes "claim_copy rows used h l" "l_Token l \<in> tokens rows"
  obtains r where "r \<in> rows" "lease_token r = Some (l_Token l)" "same_job r h"
proof -
  obtain r l' where r: "r \<in> rows" "j_Lease r = Some l'" "l_Token l' = l_Token l" using assms(2) unfolding tokens_def by auto
  then have "same_job r h" using assms(1) unfolding claim_copy_def by blast
  then show thesis using that [of r] r by (simp add: lease_token_def)
qed

lemma one_live_claim:
  assumes ok: "jsys_ok P st" and h: "h \<in> js_held st" "h' \<in> js_held st" "same_job h h'"
    and live: "lease_token h = Some x" "x \<in> tokens (sys_rows P st)" "lease_token h' = Some y" "y \<in> tokens (sys_rows P st)"
  shows "x = y"
proof -
  obtain l where l: "l_Token l = x" "claim_copy (sys_rows P st) (js_used st) h l" by (rule held_claim [OF ok h(1) live(1)])
  obtain l' where l': "l_Token l' = y" "claim_copy (sys_rows P st) (js_used st) h' l'" by (rule held_claim [OF ok h(2) live(3)])
  obtain r where r: "r \<in> sys_rows P st" "lease_token r = Some x" "same_job r h"
    using claim_copy_live [OF l(2)] live(2) l(1) by metis
  obtain r' where r': "r' \<in> sys_rows P st" "lease_token r' = Some y" "same_job r' h'"
    using claim_copy_live [OF l'(2)] live(4) l'(1) by metis
  have "same_job r r'" using r(3) r'(3) h(3) by (simp add: same_job_def)
  then have "r = r'" by (rule rows_ok_single [OF rows_okD [OF ok] r(1) r'(1)])
  then show ?thesis using r(2) r'(2) by simp
qed

lemma run_ok: "jproto_ok P \<Longrightarrow> jsys_start st0 \<Longrightarrow> (jstep P q)\<^sup>*\<^sup>* st0 st \<Longrightarrow> jsys_ok P st"
  by (rule jsys_nextD(1) [OF jsteps_next [OF _ _ jsys_start_ok]])





section \<open>Where the fence does not reach\<close>

lemma transition_succeeds:
  assumes "j_Tenant j \<noteq> []" "j_stored j \<noteq> []" "\<not> s_closed s" "s_data s (j_stored j) = Some val" "job_Unmarshal P (j_stored j) val = Inr cur"
    "fence ''jobs.transition'' j cur = None" "job_Key (f cur) = Inr k" "job_Marshal P (f cur) = Inr v"
  obtains s' where "transitionWithRun P q now s j f None = (s', (f cur)\<lparr>j_stored := k\<rparr>, None)"
    "s_data s' = (s_data s)(j_stored j := None, k \<mapsto> v)" "\<not> s_closed s'"
proof -
  let ?tx = "tx_Set k v (tx_Delete (j_stored j) (tx_Expect (j_stored j) val True (tx_New (q_sync q) :: unit tx)))"
  have "tx_live s ?tx" "\<forall>c\<in>set (tx_conds ?tx). \<not> condition_fails s c" "tx_view s ?tx = (s_data s)(j_stored j := None, k \<mapsto> v)"
    using assms(3,4) by (simp_all add: staging tx_conds_Expect_New condition_fails_iff)
  then obtain s' t' where c: "tx_Commit s ?tx = (s', t', None, tx_onCommit ?tx)"
      "s_data s' = (s_data s)(j_stored j := None, k \<mapsto> v)" "\<not> s_closed s'"
    using tx_Commit_live by metis
  have "store_Get s (j_stored j) = Inr val" using assms(3,4) by (simp add: store_Get_Inr)
  then show thesis using that [of s'] c assms(1,2,5-8) by (simp add: transitionWithRun_def Let_def)
qed

text \<open>
  C0: The fence passes a copy that carries no lease. A worker that has completed its job and then
  releases the same copy is not refused: the finished job goes back to the queue as pending, and runs
  again.
\<close>

theorem Release_after_Complete_reopens:
  assumes P: "jproto_ok P" and t: "fits (j_Tenant j)" and ended: "Complete P q now s j = (s', j', None)" and times: "times_fit j'"
    and reopened: "job_Marshal P (released now' (stored_job (j_stored j') j')) = Inr v"
  shows "\<exists>s'' j''. Release P q now' s' j' = (s'', j'', None) \<and> j_State j' = StCompleted \<and> j_State j'' = StPending \<and>
           same_job j'' j' \<and> s_data s'' (j_stored j'') = Some v"
proof -
  have "transitionWithRun P q now s j (finished StCompleted [] now) None = (s', j', None)"
    using ended by (simp add: Complete_def finish_def finishWithRun_def split: if_splits)
  then obtain cur k u where u: "job_Key (finished StCompleted [] now cur) = Inr k" "job_Marshal P (finished StCompleted [] now cur) = Inr u"
      "j' = (finished StCompleted [] now cur)\<lparr>j_stored := k\<rparr>" "\<not> s_closed s'"
      "\<forall>x y. ParseJob x = Inr y \<longrightarrow> s_data s' x = ((s_data s)(j_stored j := None, k \<mapsto> u)) x"
    using transitionWithRun_ok [OF _ t] by metis
  have j': "job_Key j' = Inr k" "job_Marshal P j' = Inr u" "j_stored j' = k" "j_Lease j' = None" "j_State j' = StCompleted"
    using u(1,2,3) by (simp_all add: finished_def)
  have row: "job_Unmarshal P k u = Inr (stored_job k j')" by (rule job_Unmarshal_Marshal [OF P j'(1,2) times])
  then obtain y where y: "ParseJob k = Inr y" using job_Unmarshal_props(4) [OF P] by blast
  have at: "s_data s' (j_stored j') = Some u" "job_Unmarshal P (j_stored j') u = Inr (stored_job k j')"
    using u(5) [rule_format, OF y] j'(3) row by simp_all
  have ten: "j_Tenant j' \<noteq> []" "j_stored j' \<noteq> []" using job_Key_tenant [OF j'(1)] job_Key_not_Nil [OF j'(1)] j'(3) by simp_all
  let ?n = "released now' (stored_job k j')"
  have "job_Key ?n = Inr (projr (job_Key ?n))" using ten(1) by (intro job_Key_total) (simp_all add: released_def stored_job_def)
  then obtain s'' where "transitionWithRun P q now' s' j' (released now') None = (s'', ?n\<lparr>j_stored := projr (job_Key ?n)\<rparr>, None)"
      "s_data s'' = (s_data s')(j_stored j' := None, projr (job_Key ?n) \<mapsto> v)"
    using transition_succeeds [OF ten u(4) at, of "released now'" _ v q now'] reopened j'(3,4) by (auto simp: fence_def)
  then show ?thesis using j'(5)
    by (intro exI [of _ s''] exI [of _ "?n\<lparr>j_stored := projr (job_Key ?n)\<rparr>"])
       (simp add: Release_def transition_def released_def stored_job_def same_job_def)
qed

lemma job_Validate_cong:
  assumes "j_ID i = j_ID j" "j_Tenant i = j_Tenant j" "job_namespace i = job_namespace j" "j_Type i = j_Type j" "j_State i = j_State j"
    "j_Payload i = j_Payload j"
  shows "job_Validate i = job_Validate j"
  unfolding job_Validate_def assms by (rule refl)

text \<open>Releasing the sample job after its completion leaves the row it was submitted with.\<close>

lemma job_sample_reopened: "job_Marshal job_sample_proto (released job_sample_now (stored_job job_sample_kd job_sample_d)) = Inr [1]"
proof -
  let ?e = "released job_sample_now (stored_job job_sample_kd job_sample_d)"
  have "job_row ?e = job_row job_sample_a" by (simp add: job_row_def job_sample_defs released_def job_sample_ms)
  moreover have "job_Validate ?e = job_Validate job_sample_a"
    by (rule job_Validate_cong) (simp_all add: job_sample_defs released_def)
  ultimately have "job_Marshal job_sample_proto ?e = job_Marshal job_sample_proto job_sample_a" unfolding job_Marshal_def by metis
  then show ?thesis using job_sample_rows(1) by simp
qed

theorem Release_after_Complete_reopens_witness:
  "\<exists>s s' j' s'' j''. s_data s = [job_sample_kb \<mapsto> [2]] \<and> Complete job_sample_proto NewQueue job_sample_now s job_sample_held = (s', j', None) \<and>
     Release job_sample_proto NewQueue job_sample_now s' j' = (s'', j'', None) \<and> j_State j'' = StPending"
proof -
  let ?P = job_sample_proto and ?now = job_sample_now
  let ?s = "New\<lparr>s_data := [job_sample_kb \<mapsto> [2]]\<rparr>" and ?j' = "job_sample_d\<lparr>j_stored := job_sample_kd\<rparr>"
  have held: "j_Tenant job_sample_held \<noteq> []" "j_stored job_sample_held \<noteq> []" "fits (j_Tenant job_sample_held)"
    using job_Key_not_Nil [OF job_sample_keys(2)] by (simp_all add: job_sample_ids str_def fitsI)
  have "fence ''jobs.transition'' job_sample_held (stored_job job_sample_kb job_sample_b) = None"
    by (simp add: fence_def job_sample_b_def leased_def stored_job_def)
  from transition_succeeds [OF held(1,2) _ _ _ this, where s = ?s and val = "[2]" and P = ?P and f = "finished StCompleted [] ?now" and now = ?now,
      folded job_sample_d_def, OF _ _ _ job_sample_keys(4) job_sample_rows(4)] job_sample_decoded(2)
  obtain s' where s': "transitionWithRun ?P NewQueue ?now ?s job_sample_held (finished StCompleted [] ?now) None = (s', ?j', None)"
    by (auto simp: New_def)
  then have c: "Complete ?P NewQueue ?now ?s job_sample_held = (s', ?j', None)"
    by (simp add: Complete_def finish_def finishWithRun_def Terminal_def states)
  have t: "times_fit ?j'" using job_sample_times(4) by simp
  have "stored_job (j_stored ?j') ?j' = stored_job job_sample_kd job_sample_d" by (simp add: stored_job_def)
  then have "job_Marshal ?P (released ?now (stored_job (j_stored ?j') ?j')) = Inr [1]" using job_sample_reopened by simp
  from Release_after_Complete_reopens [OF job_sample_proto_ok held(3) c t this] obtain s'' j'' where
    r: "Release ?P NewQueue ?now s' ?j' = (s'', j'', None)" "j_State j'' = StPending" by blast
  have "s_data ?s = [job_sample_kb \<mapsto> [2]]" by simp
  with c r show ?thesis by blast
qed

text \<open>
  A submission expects its own key absent and no more. A job whose id is already stored at another
  key, because it was claimed since or because the new one runs at another time, is accepted and
  leaves two rows with one id.
\<close>

lemma resubmitted_id_stored_twice:
  assumes P: "jproto_ok P" and r: "r \<in> job_rows P (s_data s)" "same_job r (enqueue_defaults now fresh j)"
    and j: "j_Tenant j \<noteq> []" "j_State (enqueue_defaults now fresh j) = StPending" "job_Key (enqueue_defaults now fresh j) = Inr k"
      "job_Marshal P (enqueue_defaults now fresh j) = Inr v" "times_fit (enqueue_defaults now fresh j)"
    and s: "s_data s k = None" "\<not> s_closed s"
  shows "\<exists>s' j' i. Submit P q now fresh s j = (s', j', None) \<and> r \<in> job_rows P (s_data s') \<and> i \<in> job_rows P (s_data s') \<and>
           same_job r i \<and> r \<noteq> i"
proof -
  let ?n = "enqueue_defaults now fresh j"
  obtain s' where s': "Submit P q now fresh s j = (s', ?n\<lparr>j_stored := k\<rparr>, None)" "s_data s' = (s_data s)(k \<mapsto> v)"
    by (rule Submit_succeeds [OF j(1-4) s])
  obtain u y where u: "s_data s (j_stored r) = Some u" "job_Unmarshal P (j_stored r) u = Inr r" by (rule job_rowsE [OF P r(1)])
  then have "j_stored r \<noteq> k" using s(1) by auto
  then have "r \<in> job_rows P (s_data s')" "stored_job k ?n \<in> job_rows P (s_data s')" "r \<noteq> stored_job k ?n"
    using u s'(2) job_Unmarshal_Marshal [OF P j(3-5)] by (auto intro: job_rowsI simp: stored_job_def)
  then show ?thesis using s'(1) r(2) by (metis same_job_stored(2))
qed

lemma job_sample_resubmitted:
  "\<exists>s s' j' r i. s_data s = [job_sample_kb \<mapsto> [2]] \<and>
     Submit job_sample_proto NewQueue job_sample_now 5 s (job_sample\<lparr>j_ID := 5\<rparr>) = (s', j', None) \<and>
     r \<in> job_rows job_sample_proto (s_data s') \<and> i \<in> job_rows job_sample_proto (s_data s') \<and> same_job r i \<and> r \<noteq> i"
proof -
  let ?s = "New\<lparr>s_data := [job_sample_kb \<mapsto> [2]]\<rparr>" and ?r = "stored_job job_sample_kb job_sample_b" and ?j = "job_sample\<lparr>j_ID := 5\<rparr>"
  have n: "enqueue_defaults job_sample_now 5 ?j = job_sample_a" by (simp add: job_sample_a_def enqueue_defaults_def job_sample_def)
  have "?r \<in> job_rows job_sample_proto (s_data ?s)" using job_sample_decoded(2) by (intro job_rowsI [of _ job_sample_kb "[2]"]) simp_all
  moreover have "same_job ?r job_sample_a" by (simp add: same_job_def job_sample_ids stored_job_def)
  moreover have "j_Tenant ?j \<noteq> []" "\<not> s_closed ?s" by (simp_all add: job_sample_def str_def New_def)
  moreover have at: "s_data ?s = [job_sample_kb \<mapsto> [2]]" "s_data ?s job_sample_ka = None" using job_sample_distinct(1) by simp_all
  ultimately show ?thesis
    using resubmitted_id_stored_twice [of job_sample_proto ?r ?s job_sample_now 5 ?j job_sample_ka "[1]" NewQueue, unfolded n,
        OF job_sample_proto_ok _ _ _ job_sample_states(1) job_sample_keys(1) job_sample_rows(1) job_sample_times(1) at(2)]
    by metis
qed

end
