(* ===== verification/Job_Scans.thy ===== *)
theory Job_Scans
  imports Job_Claims "HOL-Library.Sublist"
begin

text \<open>
  What the queue's scans find and do: a claim takes due jobs of its tenant, in order of priority, and
  is a run of the system's steps, as a reclaim is; the delay of a retry; the pause of a job type.
\<close>

section \<open>What a scan finds\<close>

lemma due_loop_sound:
  "due_loop P types want es n out = Inr cs \<Longrightarrow> c \<in> set cs \<Longrightarrow>
   c \<in> set out \<or> (cd_key c, cd_value c) \<in> set es \<and> job_Unmarshal P (cd_key c) (cd_value c) = Inr (cd_job c) \<and> wanted (j_Type (cd_job c)) types"
proof (induction es arbitrary: n out)
  case (Cons e es)
  obtain k v where e: "e = (k, v)" by force
  show ?case
  proof (cases "claimScanCap < n + 1")
    case True
    then show ?thesis using Cons.prems e by simp
  next
    case False
    then obtain j where j: "job_Unmarshal P k v = Inr j" using Cons.prems(1) e by (auto split: sum.splits)
    show ?thesis using Cons.IH Cons.prems False j e by (fastforce simp: Let_def split: if_splits)
  qed
qed simp

lemma job_Key_pending:
  "job_Key j = Inr k \<Longrightarrow> Partition (j_State j) = JobPending \<Longrightarrow>
   k = Job (j_Tenant j) (job_namespace j) JobPending (job_unixMilli (j_RunAt j)) (j_ID j)"
  by (simp add: job_Key_def Let_def fail_def split: if_splits)

lemma due_sound:
  assumes P: "jproto_ok P" and s: "store_ok s" and t: "fits t" and due: "due P s t part bound types want = Inr cs" and c: "c \<in> set cs"
  shows "job_Unmarshal P (cd_key c) (cd_value c) = Inr (cd_job c)" "wanted (j_Type (cd_job c)) types"
    "j_Tenant (cd_job c) = t" "job_namespace (cd_job c) = DefaultNamespace" "Partition (j_State (cd_job c)) = part"
    "part = JobPending \<Longrightarrow> job_unixMilli (j_RunAt (cd_job c)) \<le> job_unixMilli bound"
proof -
  let ?r = "JobDueRange t DefaultNamespace part (job_unixMilli bound)"
  obtain lo hi where r: "?r = (lo, hi)" by force
  obtain es where es: "itr_entries (store_NewIterator s (Some lo) hi) = Inr es" "due_loop P types want es 0 [] = Inr cs"
    using due by (auto simp: due_def r bindR_eq_Inr)
  have live: "\<not> s_closed s" using es(1) by (auto simp: store_NewIterator_def split: if_splits)
  then have scan: "es = store_scan s ?r" using es(1) itr_entries_store [OF live, of lo hi] r by simp
  note found = due_loop_sound [OF es(2) c]
  then show j: "job_Unmarshal P (cd_key c) (cd_value c) = Inr (cd_job c)" and "wanted (j_Type (cd_job c)) types" by simp_all
  have range: "in_range ?r (cd_key c)"
    using found scan memkv.scan_set [of s ?r] s live by (auto simp: store_live_def)
  obtain d where "ParseJob (cd_key c) = Inr (j_Tenant (cd_job c), job_namespace (cd_job c), Partition (j_State (cd_job c)), d, j_ID (cd_job c))"
    using job_Unmarshal_props(4) [OF P j] by blast
  then have k: "scope_fits (j_Tenant (cd_job c)) (job_namespace (cd_job c))"
      "cd_key c = Job (j_Tenant (cd_job c)) (job_namespace (cd_job c)) (Partition (j_State (cd_job c))) d (j_ID (cd_job c))"
    by (simp_all add: ParseJob_iff)
  have iff: "t = j_Tenant (cd_job c) \<and> DefaultNamespace = job_namespace (cd_job c) \<and> part = Partition (j_State (cd_job c)) \<and> d \<le> job_unixMilli bound"
    using range k t by (simp add: Job_in_JobDueRange_iff)
  then show "j_Tenant (cd_job c) = t" "job_namespace (cd_job c) = DefaultNamespace" "Partition (j_State (cd_job c)) = part" by simp_all
  show "job_unixMilli (j_RunAt (cd_job c)) \<le> job_unixMilli bound" if "part = JobPending"
    using iff that job_Key_pending [OF job_Unmarshal_props(2) [OF P j]] k by (simp add: Job_def)
qed

section \<open>What a claim takes\<close>

definition claim_of :: "Queue \<Rightarrow> time \<Rightarrow> bytes \<Rightarrow> job \<Rightarrow> candidate \<Rightarrow> bool" where
  "claim_of q now owner j c \<longleftrightarrow> (\<exists>token k. j = (leased q now owner token (cd_job c))\<lparr>j_stored := k\<rparr>)"

lemma Claim_loop_takes:
  "Claim_loop P q now owner env fresh n i cs s out = (s', out', e) \<Longrightarrow> int (length out) \<le> n \<Longrightarrow>
   int (length out') \<le> n \<and> (\<exists>js cs'. out' = out @ js \<and> subseq cs' cs \<and> list_all2 (claim_of q now owner) js cs')"
proof (induction cs arbitrary: i s out)
  case Nil
  then show ?case by (intro conjI exI [of _ "[]"]) auto
next
  case (Cons c cs)
  show ?case
  proof (cases "int (length out) = n")
    case True
    then show ?thesis using Cons.prems by (intro conjI exI [of _ "[]"]) auto
  next
    case False
    obtain s1 j x where m: "move P q (env i s) (cd_key c) (cd_value c) (leased q now owner (fresh i) (cd_job c)) = (s1, j, x)"
      by (metis prod_cases3)
    show ?thesis
    proof (cases x)
      case None
      have j: "claim_of q now owner j c" using move_ok [OF m [unfolded None]] unfolding claim_of_def by metis
      have "Claim_loop P q now owner env fresh n (i + 1) cs s1 (out @ [j]) = (s', out', e)" "int (length (out @ [j])) \<le> n"
        using Cons.prems False m None by simp_all
      from Cons.IH [OF this] obtain js cs' where "int (length out') \<le> n" "out' = out @ [j] @ js" "subseq cs' cs"
          "list_all2 (claim_of q now owner) js cs'" by auto
      then show ?thesis using j by (intro conjI exI [of _ "j # js"] exI [of _ "c # cs'"]) simp_all
    next
      case (Some y)
      show ?thesis
      proof (cases "is_kind y Conflict")
        case True
        then have "Claim_loop P q now owner env fresh n (i + 1) cs s1 out = (s', out', e)" using Cons.prems False m Some by simp
        from Cons.IH [OF this Cons.prems(2)] show ?thesis using list_emb_Cons by blast
      next
        case False
        then show ?thesis using Cons.prems \<open>int (length out) \<noteq> n\<close> m Some by (intro conjI exI [of _ "[]"]) auto
      qed
    qed
  qed
qed

lemma claim_of_fields:
  assumes "claim_of q now owner j c"
  shows "j_Priority j = j_Priority (cd_job c)" "j_Tenant j = j_Tenant (cd_job c)" "job_namespace j = job_namespace (cd_job c)"
    "j_RunAt j = j_RunAt (cd_job c)" "j_Type j = j_Type (cd_job c)" "j_State j = StRunning"
    "\<exists>l. j_Lease j = Some l \<and> l_Owner l = owner \<and> l_ExpiresAt l = now + q_lease q"
  using assms by (auto simp: claim_of_def leased_def job_namespace_def)

lemma claim_of_priorities:
  "list_all2 (claim_of q now owner) js cs \<Longrightarrow> map (\<lambda>j. - sint (j_Priority j)) js = map (\<lambda>c. - sint (j_Priority (cd_job c))) cs"
  by (induction rule: list_all2_induct) (simp_all add: claim_of_fields)

lemma sorted_subseq: "subseq xs ys \<Longrightarrow> sorted ys \<Longrightarrow> sorted xs"
  by (auto simp: subseq_conv_nths sorted_nths)

lemma subseq_set_subset: "subseq xs ys \<Longrightarrow> set xs \<subseteq> set ys"
  by (auto simp: subseq_conv_nths dest: in_set_nthsD)

lemma Claim_takes:
  assumes "Claim P q now env fresh s t owner types n = (s', out, e)" "out \<noteq> []"
  obtains cs cs' where "due P s t JobPending now types n = Inr cs" "int (length out) \<le> n"
    "subseq cs' (sort_key (\<lambda>c. - sint (j_Priority (cd_job c))) cs)" "list_all2 (claim_of q now owner) out cs'"
proof -
  obtain cs where cs: "due P s t JobPending now types n = Inr cs" "0 < n"
      "Claim_loop P q now owner env fresh n 0 (sort_key (\<lambda>c. - sint (j_Priority (cd_job c))) cs) s [] = (s', out, e)"
    using assms by (auto simp: Claim_def Let_def split: if_splits sum.splits)
  show thesis using Claim_loop_takes [OF cs(3)] cs(1,2) that by auto
qed

text \<open>
  C35: A claim returns at most the number of jobs asked for, each of the caller's tenant and of a type
  asked for, due by now, leased to the caller for the queue's term and running, and the batch is in
  descending order of priority.
\<close>

theorem Claim_takes_due_jobs:
  assumes "jproto_ok P" "store_ok s" "fits t" "Claim P q now env fresh s t owner types n = (s', out, e)"
  shows "int (length out) \<le> max 0 n \<and> sorted (map (\<lambda>j. - sint (j_Priority j)) out) \<and>
         (\<forall>j\<in>set out. j_Tenant j = t \<and> wanted (j_Type j) types \<and> job_unixMilli (j_RunAt j) \<le> job_unixMilli now \<and>
            j_State j = StRunning \<and> (\<exists>l. j_Lease j = Some l \<and> l_Owner l = owner \<and> l_ExpiresAt l = now + q_lease q))"
proof (cases "out = []")
  case False
  obtain cs cs' where c: "due P s t JobPending now types n = Inr cs" "int (length out) \<le> n"
      "subseq cs' (sort_key (\<lambda>c. - sint (j_Priority (cd_job c))) cs)" "list_all2 (claim_of q now owner) out cs'"
    by (rule Claim_takes [OF assms(4) False])
  have "subseq (map (\<lambda>c. - sint (j_Priority (cd_job c))) cs') (map (\<lambda>c. - sint (j_Priority (cd_job c))) (sort_key (\<lambda>c. - sint (j_Priority (cd_job c))) cs))"
    using c(3) by (rule subseq_map)
  then have "sorted (map (\<lambda>j. - sint (j_Priority j)) out)"
    using sorted_subseq [of _ "map (\<lambda>c. - sint (j_Priority (cd_job c))) (sort_key (\<lambda>c. - sint (j_Priority (cd_job c))) cs)"]
    unfolding claim_of_priorities [OF c(4)] by simp
  moreover have "j_Tenant j = t \<and> wanted (j_Type j) types \<and> job_unixMilli (j_RunAt j) \<le> job_unixMilli now \<and>
      j_State j = StRunning \<and> (\<exists>l. j_Lease j = Some l \<and> l_Owner l = owner \<and> l_ExpiresAt l = now + q_lease q)" if jin: "j \<in> set out" for j
  proof -
    obtain i where i: "i < length out" "out ! i = j" using jin unfolding in_set_conv_nth by blast
    let ?d = "cs' ! i"
    have d: "?d \<in> set cs'" "claim_of q now owner j ?d"
      using list_all2_nthD [OF c(4) i(1)] list_all2_lengthD [OF c(4)] i by simp_all
    then have "?d \<in> set cs" using subseq_set_subset [OF c(3)] by auto
    note found = due_sound [OF assms(1-3) c(1) this]
    show ?thesis using found(2,3) found(6) [OF refl] claim_of_fields [OF d(2)] by simp
  qed
  ultimately show ?thesis using c(2) by simp
qed simp

section \<open>Claiming and reclaiming as runs of the system\<close>

text \<open>
  What a claim and a reclaim rely on: at each turn, from the state the system is then in, the other
  workers, operators and writers take steps of the system, and they leave the store the turn finds.
  The token a claim draws is new at that moment.
\<close>

fun others_at_claim ::
    "jproto \<Rightarrow> Queue \<Rightarrow> time \<Rightarrow> bytes \<Rightarrow> (nat \<Rightarrow> Store \<Rightarrow> Store) \<Rightarrow> (nat \<Rightarrow> id) \<Rightarrow> nat \<Rightarrow> candidate list \<Rightarrow> jsys \<Rightarrow> bool" where
  "others_at_claim P q now owner env fresh i [] st \<longleftrightarrow> True"
| "others_at_claim P q now owner env fresh i (c # cs) st \<longleftrightarrow>
     (\<exists>st1. (jstep P q)\<^sup>*\<^sup>* st st1 \<and> js_store st1 = env i (js_store st) \<and> fresh i \<notin> js_used st1 \<and>
        (case move P q (js_store st1) (cd_key c) (cd_value c) (leased q now owner (fresh i) (cd_job c)) of
           (s2, j, e) \<Rightarrow>
             others_at_claim P q now owner env fresh (i + 1) cs
               \<lparr>js_store = s2, js_held = (if e = None then insert j (js_held st1) else js_held st1),
                js_used = insert (fresh i) (js_used st1)\<rparr>))"

fun others_at_reclaim :: "jproto \<Rightarrow> Queue \<Rightarrow> time \<Rightarrow> (nat \<Rightarrow> Store \<Rightarrow> Store) \<Rightarrow> nat \<Rightarrow> candidate list \<Rightarrow> jsys \<Rightarrow> bool" where
  "others_at_reclaim P q now env i [] st \<longleftrightarrow> True"
| "others_at_reclaim P q now env i (c # cs) st \<longleftrightarrow>
     (\<exists>st1. (jstep P q)\<^sup>*\<^sup>* st st1 \<and> js_store st1 = env i (js_store st) \<and>
        (case move P q (js_store st1) (cd_key c) (cd_value c) (reclaimed now (cd_job c)) of
           (s2, j, e) \<Rightarrow> others_at_reclaim P q now env (i + 1) cs (st1\<lparr>js_store := s2\<rparr>)))"

definition claim_order :: "candidate list \<Rightarrow> candidate list" where
  "claim_order = sort_key (\<lambda>c. - sint (j_Priority (cd_job c)))"

definition others_during_claim ::
    "jproto \<Rightarrow> Queue \<Rightarrow> time \<Rightarrow> (nat \<Rightarrow> Store \<Rightarrow> Store) \<Rightarrow> (nat \<Rightarrow> id) \<Rightarrow> jsys \<Rightarrow> tenant \<Rightarrow> bytes \<Rightarrow> bytes list \<Rightarrow> int \<Rightarrow> bool" where
  "others_during_claim P q now env fresh st t owner types n \<longleftrightarrow>
     (\<forall>cs. due P (js_store st) t JobPending now types n = Inr cs \<longrightarrow> others_at_claim P q now owner env fresh 0 (claim_order cs) st)"

definition others_during_reclaim ::
    "jproto \<Rightarrow> Queue \<Rightarrow> time \<Rightarrow> (nat \<Rightarrow> Store \<Rightarrow> Store) \<Rightarrow> jsys \<Rightarrow> tenant \<Rightarrow> int \<Rightarrow> bool" where
  "others_during_reclaim P q now env st t limit \<longleftrightarrow>
     (\<forall>cs. due P (js_store st) t JobRunning now [] limit = Inr cs \<longrightarrow> others_at_reclaim P q now env 0 cs st)"

definition candidate_ok :: "jproto \<Rightarrow> jobstate \<Rightarrow> candidate \<Rightarrow> bool" where
  "candidate_ok P part c \<longleftrightarrow> job_Unmarshal P (cd_key c) (cd_value c) = Inr (cd_job c) \<and> Partition (j_State (cd_job c)) = part"

lemma claimed_copy:
  assumes "move P q s k v (leased q now owner token c) = (s', j', None)"
  shows "lease_token j' = Some token"
  using move_ok [OF assms] by (force simp: lease_token_def leased_def)

lemma Claim_loop_runs:
  assumes P: "jproto_ok P" and clock: "clock_ok q now"
  shows "Claim_loop P q now owner env fresh n i cs (js_store st) out = (s', out', e) \<Longrightarrow> \<forall>c\<in>set cs. candidate_ok P JobPending c \<Longrightarrow>
    others_at_claim P q now owner env fresh i cs st \<Longrightarrow> jsys_ok P st \<Longrightarrow>
    (\<exists>st'. (jstep P q)\<^sup>*\<^sup>* st st' \<and> js_store st' = s') \<and>
    (\<forall>j\<in>set out'. j \<in> set out \<or> 0 < j_Attempts j \<and> j_Attempts j \<le> j_MaxAttempts j)"
proof (induction cs arbitrary: i st out)
  case Nil
  then show ?case by auto
next
  case (Cons c cs)
  show ?case
  proof (cases "int (length out) = n")
    case True
    then show ?thesis using Cons.prems by auto
  next
    case False
    obtain st1 where st1: "(jstep P q)\<^sup>*\<^sup>* st st1" "js_store st1 = env i (js_store st)" "fresh i \<notin> js_used st1"
        and next': "case move P q (js_store st1) (cd_key c) (cd_value c) (leased q now owner (fresh i) (cd_job c)) of
           (s2, j, e) \<Rightarrow>
             others_at_claim P q now owner env fresh (i + 1) cs
               \<lparr>js_store = s2, js_held = (if e = None then insert j (js_held st1) else js_held st1),
                js_used = insert (fresh i) (js_used st1)\<rparr>"
      using Cons.prems(3) by auto
    obtain s2 j x where m: "move P q (js_store st1) (cd_key c) (cd_value c) (leased q now owner (fresh i) (cd_job c)) = (s2, j, x)"
      by (metis prod_cases3)
    let ?st2 = "\<lparr>js_store = s2, js_held = (if x = None then insert j (js_held st1) else js_held st1), js_used = insert (fresh i) (js_used st1)\<rparr>"
    have rely: "others_at_claim P q now owner env fresh (i + 1) cs ?st2" using next' m by simp
    have "jstep P q st1 ?st2"
      using Cons.prems(2) m clock st1(3) by (intro jstep.claim) (auto simp: candidate_ok_def)
    then have st2: "(jstep P q)\<^sup>*\<^sup>* st ?st2" using st1(1) by (rule rtranclp.rtrancl_into_rtrancl [rotated])
    have ok: "jsys_ok P ?st2" by (rule jsys_nextD(1) [OF jsteps_next [OF P st2 Cons.prems(4)]])
    have new: "0 < j_Attempts j \<and> j_Attempts j \<le> j_MaxAttempts j" if none: "x = None"
      using claimed_copy [OF m [unfolded none]] held_claim [OF ok] none unfolding claim_copy_def by fastforce
    have rest: "\<forall>c\<in>set cs. candidate_ok P JobPending c" using Cons.prems(2) by simp
    show ?thesis
    proof (cases "x = None \<or> (\<exists>y. x = Some y \<and> is_kind y Conflict)")
      case True
      let ?out = "if x = None then out @ [j] else out"
      have "Claim_loop P q now owner env fresh n (i + 1) cs (js_store ?st2) ?out = (s', out', e)"
        using Cons.prems(1) False True m st1(2) by auto
      from Cons.IH [OF this rest rely ok] obtain st' where st': "(jstep P q)\<^sup>*\<^sup>* ?st2 st'" "js_store st' = s'"
          and o: "\<forall>j\<in>set out'. j \<in> set ?out \<or> 0 < j_Attempts j \<and> j_Attempts j \<le> j_MaxAttempts j" by auto
      moreover have "\<forall>j\<in>set out'. j \<in> set out \<or> 0 < j_Attempts j \<and> j_Attempts j \<le> j_MaxAttempts j"
        using o new by (auto split: if_splits)
      ultimately show ?thesis using rtranclp_trans [OF st2 st'(1)] st'(2) by blast
    next
      case other: False
      then have "s' = s2" "out' = out" using Cons.prems(1) False m st1(2) by (auto split: option.splits)
      then show ?thesis using st2 by (intro conjI exI [of _ ?st2]) simp_all
    qed
  qed
qed

lemma Reclaim_loop_runs:
  assumes clock: "clock_ok q now"
  shows "Reclaim_loop P q now env i cs (js_store st) n = (s', n', e) \<Longrightarrow> \<forall>c\<in>set cs. candidate_ok P JobRunning c \<Longrightarrow>
    others_at_reclaim P q now env i cs st \<Longrightarrow> \<exists>st'. (jstep P q)\<^sup>*\<^sup>* st st' \<and> js_store st' = s'"
proof (induction cs arbitrary: i st n)
  case Nil
  then show ?case by auto
next
  case (Cons c cs)
  obtain st1 where st1: "(jstep P q)\<^sup>*\<^sup>* st st1" "js_store st1 = env i (js_store st)"
      and next': "case move P q (js_store st1) (cd_key c) (cd_value c) (reclaimed now (cd_job c)) of
           (s2, j, e) \<Rightarrow> others_at_reclaim P q now env (i + 1) cs (st1\<lparr>js_store := s2\<rparr>)"
    using Cons.prems(3) by auto
  obtain s2 j x where m: "move P q (js_store st1) (cd_key c) (cd_value c) (reclaimed now (cd_job c)) = (s2, j, x)"
    by (metis prod_cases3)
  let ?st2 = "st1\<lparr>js_store := s2\<rparr>"
  have rely: "others_at_reclaim P q now env (i + 1) cs ?st2" using next' m by simp
  have "jstep P q st1 ?st2" using Cons.prems(2) m clock by (intro jstep.reclaim) (auto simp: candidate_ok_def)
  then have st2: "(jstep P q)\<^sup>*\<^sup>* st ?st2" using st1(1) by (rule rtranclp.rtrancl_into_rtrancl [rotated])
  show ?case
  proof (cases "x = None \<or> (\<exists>y. x = Some y \<and> is_kind y Conflict)")
    case True
    then obtain n'' where "Reclaim_loop P q now env (i + 1) cs (js_store ?st2) n'' = (s', n', e)"
      using Cons.prems(1) m st1(2) by auto
    from Cons.IH [OF this _ rely] Cons.prems(2) obtain st' where st': "(jstep P q)\<^sup>*\<^sup>* ?st2 st'" "js_store st' = s'" by auto
    then show ?thesis using rtranclp_trans [OF st2 st'(1)] by blast
  next
    case False
    then have "s' = s2" using Cons.prems(1) m st1(2) by (auto split: option.splits)
    then show ?thesis using st2 by (intro exI [of _ ?st2]) simp
  qed
qed

lemma due_candidates:
  assumes "jproto_ok P" "store_ok s" "fits t" "due P s t part bound types want = Inr cs"
  shows "\<forall>c\<in>set cs. candidate_ok P part c"
  using due_sound [OF assms] by (simp add: candidate_ok_def)

lemma Claim_runs:
  assumes P: "jproto_ok P" and ok: "jsys_ok P st" and s: "store_ok (js_store st)" "fits t" and clock: "clock_ok q now"
    and others: "others_during_claim P q now env fresh st t owner types n"
    and c: "Claim P q now env fresh (js_store st) t owner types n = (s', out, e)"
  shows "(\<exists>st'. (jstep P q)\<^sup>*\<^sup>* st st' \<and> js_store st' = s') \<and> (\<forall>j\<in>set out. 0 < j_Attempts j \<and> j_Attempts j \<le> j_MaxAttempts j)"
proof (cases "due P (js_store st) t JobPending now types n")
  case (Inl x)
  then show ?thesis using c by (auto simp: Claim_def Let_def split: if_splits)
next
  case (Inr cs)
  have cands: "\<forall>c\<in>set (claim_order cs). candidate_ok P JobPending c"
    using due_candidates [OF P s Inr] by (simp add: claim_order_def)
  have rely: "others_at_claim P q now owner env fresh 0 (claim_order cs) st" using others Inr by (simp add: others_during_claim_def)
  show ?thesis
  proof (cases "t = [] \<or> owner = [] \<or> n \<le> 0")
    case True
    then show ?thesis using c by (auto simp: Claim_def Let_def split: if_splits)
  next
    case False
    then have "Claim_loop P q now owner env fresh n 0 (claim_order cs) (js_store st) [] = (s', out, e)"
      using c Inr by (simp add: Claim_def claim_order_def)
    from Claim_loop_runs [OF P clock this cands rely ok] show ?thesis by auto
  qed
qed

lemma Reclaim_runs:
  assumes P: "jproto_ok P" and s: "store_ok (js_store st)" "fits t" and clock: "clock_ok q now"
    and others: "others_during_reclaim P q now env st t limit" and c: "Reclaim P q now env (js_store st) t limit = (s', n, e)"
  shows "\<exists>st'. (jstep P q)\<^sup>*\<^sup>* st st' \<and> js_store st' = s'"
proof (cases "due P (js_store st) t JobRunning now [] limit")
  case (Inl x)
  then show ?thesis using c by (auto simp: Reclaim_def split: if_splits)
next
  case (Inr cs)
  have rely: "others_at_reclaim P q now env 0 cs st" using others Inr by (simp add: others_during_reclaim_def)
  show ?thesis
  proof (cases "t = [] \<or> limit \<le> 0")
    case True
    then show ?thesis using c by (auto simp: Reclaim_def split: if_splits)
  next
    case False
    then have "Reclaim_loop P q now env 0 cs (js_store st) 0 = (s', n, e)" using c Inr by (simp add: Reclaim_def)
    from Reclaim_loop_runs [OF clock this due_candidates [OF P s Inr] rely] show ?thesis .
  qed
qed

lemma store_scan_single:
  assumes "store_ok s" "\<not> s_closed s" "s_data s = [k \<mapsto> v]" "in_range r k"
  shows "store_scan s r = [(k, v)]"
proof -
  have live: "store_live s" using assms by (simp add: store_live_def)
  have set: "set (store_scan s r) = {(k, v)}" using memkv.scan_set [OF live, of r] assms(3,4) by (auto split: if_splits)
  have "distinct (store_scan s r)"
    using memkv.scan_sorted [OF live, of r] by (metis distinct_map sorted_wrt_map strict_sorted_iff)
  then show ?thesis using set by (metis distinct_card card.empty card_insert_disjoint finite.intros(1) empty_iff length_Suc_conv list.set_intros(1)
        list.size(3) length_0_conv singletonD)
qed

abbreviation job_sample_fresh :: "nat \<Rightarrow> id" where
  "job_sample_fresh \<equiv> \<lambda>i. of_nat i + 9"

abbreviation job_sample_candidate :: candidate where
  "job_sample_candidate \<equiv> \<lparr>cd_key = job_sample_ka, cd_value = [1], cd_job = stored_job job_sample_ka job_sample_a\<rparr>"

lemma job_sample_due:
  assumes s1: "s_data s1 = [job_sample_ka \<mapsto> [1]]" "\<not> s_closed s1" "store_ok s1"
  shows "due job_sample_proto s1 (str ''acme'') JobPending job_sample_now [] 5 = Inr [job_sample_candidate]"
proof -
  let ?P = job_sample_proto and ?ka = job_sample_ka
  have a: "Partition (j_State job_sample_a) = JobPending" "j_Tenant job_sample_a = str ''acme''" "job_namespace job_sample_a = DefaultNamespace"
      "j_RunAt job_sample_a = job_sample_now"
    by (simp_all add: job_sample_a_def enqueue_defaults_def job_sample_def job_namespace_def)
  let ?r = "JobDueRange (str ''acme'') DefaultNamespace JobPending (job_unixMilli job_sample_now)"
  obtain lo hi where r: "?r = (lo, hi)" by force
  have ka: "?ka = Job (str ''acme'') DefaultNamespace JobPending (job_unixMilli job_sample_now) (j_ID job_sample_a)"
    using job_Key_pending [OF job_sample_keys(1) a(1)] a(2-4) by simp
  have "scope_fits (str ''acme'') DefaultNamespace" by (simp add: fitsI)
  then have "in_range ?r ?ka" unfolding ka by (simp add: Job_in_JobDueRange_iff)
  then have "store_scan s1 (lo, hi) = [(?ka, [1])]" using store_scan_single [OF s1(3,2,1)] r by simp
  then show ?thesis
    using s1(2) job_sample_decoded(1) by (simp add: due_def r itr_entries_store wanted_def claimScanCap_def)
qed

lemma job_sample_moves:
  assumes "s_data s1 = [job_sample_ka \<mapsto> [1]]" "\<not> s_closed s1"
  obtains s2 where "move job_sample_proto NewQueue s1 job_sample_ka [1] job_sample_b = (s2, job_sample_held, None)"
    "s_data s2 = [job_sample_kb \<mapsto> [2]]"
  using move_succeeds [OF job_sample_keys(2) job_sample_rows(2), of s1 job_sample_ka "[1]" NewQueue] assms
  by (auto simp: job_sample_distinct fun_upd_idem)

lemma job_sample_claims:
  obtains s1 s2 where "store_ok s1"
    "Claim job_sample_proto NewQueue job_sample_now (\<lambda>_ s. s) job_sample_fresh s1 (str ''acme'') [119] [] 5 = (s2, [job_sample_held], None)"
proof -
  let ?P = job_sample_proto
  obtain s1 where s1: "s_data s1 = [job_sample_ka \<mapsto> [1]]" "\<not> s_closed s1" "store_ok s1"
    by (rule job_sample_submitted)
  obtain s2 where "move ?P NewQueue s1 job_sample_ka [1] job_sample_b = (s2, job_sample_held, None)"
    by (rule job_sample_moves [OF s1(1,2)])
  then have "Claim ?P NewQueue job_sample_now (\<lambda>_ s. s) job_sample_fresh s1 (str ''acme'') [119] [] 5 = (s2, [job_sample_held], None)"
    using job_sample_due [OF s1] by (simp add: Claim_def Let_def str_def job_sample_b_def [symmetric])
  then show thesis using that s1(3) by blast
qed

theorem Claim_takes_due_jobs_witness:
  "\<exists>s s'. Claim job_sample_proto NewQueue job_sample_now (\<lambda>_ s. s) job_sample_fresh s (str ''acme'') [119] [] 5 =
       (s', [job_sample_held], None) \<and> j_Tenant job_sample_held = str ''acme'' \<and> j_State job_sample_held = StRunning"
proof -
  obtain s1 s2 where c: "store_ok s1"
      "Claim job_sample_proto NewQueue job_sample_now (\<lambda>_ s. s) job_sample_fresh s1 (str ''acme'') [119] [] 5 = (s2, [job_sample_held], None)"
    by (rule job_sample_claims)
  have "fits (str ''acme'')" by (simp add: fitsI)
  from Claim_takes_due_jobs [OF job_sample_proto_ok c(1) this c(2)]
  have "j_Tenant job_sample_held = str ''acme'' \<and> j_State job_sample_held = StRunning" by simp
  then show ?thesis using c(2) by blast
qed

text \<open>
  C36: A claim, and a reclaim, are runs of the system's steps, whatever steps of the system other
  workers, operators and writers take between their scan and each of their commits, as long as the
  tokens the claim draws are new: what holds of every run holds of the store they leave and of the
  jobs a claim hands out, which are at an attempt between 1 and their limit.
\<close>

theorem claims_and_reclaims_are_runs:
  assumes "jproto_ok P" "jsys_start st0" "(jstep P q)\<^sup>*\<^sup>* st0 st" "store_ok (js_store st)" "fits t" "clock_ok q now"
    "others_during_claim P q now env fresh st t owner types n" "others_during_reclaim P q now env' st t limit"
    "Claim P q now env fresh (js_store st) t owner types n = (s', out, e)" "Reclaim P q now env' (js_store st) t limit = (s'', m, e')"
  shows "(\<exists>st'. (jstep P q)\<^sup>*\<^sup>* st0 st' \<and> js_store st' = s') \<and> (\<exists>st'. (jstep P q)\<^sup>*\<^sup>* st0 st' \<and> js_store st' = s'') \<and>
         (\<forall>j\<in>set out. 0 < j_Attempts j \<and> j_Attempts j \<le> j_MaxAttempts j)"
  using Claim_runs [OF assms(1) run_ok [OF assms(1-3)] assms(4-7,9)] Reclaim_runs [OF assms(1,4-6,8,10)] rtranclp_trans [OF assms(3)] by blast

lemma others_idle: "others_at_reclaim P q now (\<lambda>_ s. s) i cs st"
proof (induction cs arbitrary: i st)
  case (Cons c cs i st)
  show ?case unfolding others_at_reclaim.simps by (intro exI [of _ st]) (simp add: Cons split: prod.splits)
qed simp

text \<open>Between the scan and its commit another worker claims the job: the store the claim finds is not the one it scanned.\<close>

theorem claims_and_reclaims_are_runs_witness:
  "\<exists>env st s' out e st'. others_during_claim job_sample_proto NewQueue job_sample_now env (\<lambda>i. of_nat i + 10) st (str ''acme'') [119] [] 5 \<and>
     s_data (js_store st) = [job_sample_ka \<mapsto> [1]] \<and> s_data (env 0 (js_store st)) = [job_sample_kb \<mapsto> [2]] \<and>
     Claim job_sample_proto NewQueue job_sample_now env (\<lambda>i. of_nat i + 10) (js_store st) (str ''acme'') [119] [] 5 = (s', out, e) \<and>
     (jstep job_sample_proto NewQueue)\<^sup>*\<^sup>* job_sample_start st' \<and> js_store st' = s'"
proof -
  let ?P = job_sample_proto and ?fresh = "\<lambda>i. of_nat i + 10 :: id" and ?t = "str ''acme''" and ?now = job_sample_now
  obtain s1 where s1: "s_data s1 = [job_sample_ka \<mapsto> [1]]" "\<not> s_closed s1" "store_ok s1"
      and step1: "jstep ?P NewQueue job_sample_start \<lparr>js_store = s1, js_held = {}, js_used = {5}\<rparr>"
    by (rule job_sample_submitted)
  obtain s2 where s2: "move ?P NewQueue s1 job_sample_ka [1] job_sample_b = (s2, job_sample_held, None)" "s_data s2 = [job_sample_kb \<mapsto> [2]]"
    by (rule job_sample_moves [OF s1(1,2)])
  let ?st = "\<lparr>js_store = s1, js_held = {}, js_used = {5}\<rparr>" and ?st1 = "\<lparr>js_store = s2, js_held = {job_sample_held}, js_used = {9, 5}\<rparr>"
  let ?env = "\<lambda>_ _. s2"
  have "jstep ?P NewQueue ?st ?st1"
    using jstep.claim [OF job_sample_decoded(1), of 9 ?st NewQueue ?now "[119]", folded job_sample_b_def] s2(1) job_sample_clock
    by (simp add: stored_job_def job_sample_a_def enqueue_defaults_def job_sample_def)
  then have "(jstep ?P NewQueue)\<^sup>*\<^sup>* ?st ?st1" by (rule r_into_rtranclp)
  then have "others_at_claim ?P NewQueue ?now [119] ?env ?fresh 0 [job_sample_candidate] ?st"
    unfolding others_at_claim.simps by (intro exI [of _ ?st1]) (simp split: prod.splits)
  then have o: "others_during_claim ?P NewQueue ?now ?env ?fresh ?st ?t [119] [] 5"
    using job_sample_due [OF s1] by (simp add: others_during_claim_def claim_order_def)
  have o': "others_during_reclaim ?P NewQueue ?now (\<lambda>_ s. s) ?st ?t 5" by (simp add: others_during_reclaim_def others_idle)
  obtain s' out e where c: "Claim ?P NewQueue ?now ?env ?fresh (js_store ?st) ?t [119] [] 5 = (s', out, e)" by (metis prod_cases3)
  obtain s'' m e' where r: "Reclaim ?P NewQueue ?now (\<lambda>_ s. s) (js_store ?st) ?t 5 = (s'', m, e')" by (metis prod_cases3)
  have "store_ok (js_store ?st)" "fits ?t" using s1(3) by (simp_all add: fitsI)
  from claims_and_reclaims_are_runs [OF job_sample_proto_ok job_sample_start_ok r_into_rtranclp [of "jstep ?P NewQueue", OF step1] this job_sample_clock o o' c r]
  obtain st' where "(jstep ?P NewQueue)\<^sup>*\<^sup>* job_sample_start st'" "js_store st' = s'" by blast
  moreover have "s_data (js_store ?st) = [job_sample_ka \<mapsto> [1]]" "s_data (?env 0 (js_store ?st)) = [job_sample_kb \<mapsto> [2]]" using s1(1) s2(2) by simp_all
  ultimately show ?thesis using o c by blast
qed

section \<open>Jobs of another namespace\<close>

lemma move_frame:
  assumes "move P q s k v nxt = (s', j', e)" "x \<noteq> k" "job_Key nxt \<noteq> Inr x"
  shows "s_data s' x = s_data s x"
proof (cases e)
  case None
  show ?thesis by (rule move_ok [OF assms(1) [unfolded None]]) (use assms(2,3) in auto)
next
  case (Some y)
  then show ?thesis using move_error assms(1) by blast
qed

lemma Job_namespace_inject:
  assumes "Job t ns part d jid = Job t' ns' part' d' jid'" "scope_fits t ns" "scope_fits t' ns'"
  shows "ns = ns'"
  using assms(1) unfolding Job_def begin_key_append_eq_iff [OF assms(2,3)] by blast

lemma leased_Key_namespace:
  assumes "jproto_ok P" "candidate_ok P JobPending c" "job_namespace (cd_job c) = DefaultNamespace" "scope_fits t ns" "ns \<noteq> DefaultNamespace"
  shows "Job t ns part d jid \<noteq> cd_key c" "job_Key (leased q now owner token (cd_job c)) \<noteq> Inr (Job t ns part d jid)"
proof -
  let ?j = "cd_job c" and ?n = "leased q now owner token (cd_job c)"
  have dec: "job_Unmarshal P (cd_key c) (cd_value c) = Inr ?j" using assms(2) by (simp add: candidate_ok_def)
  obtain d' where "ParseJob (cd_key c) = Inr (j_Tenant ?j, DefaultNamespace, Partition (j_State ?j), d', j_ID ?j)"
    using job_Unmarshal_props(4) [OF assms(1) dec] assms(3) by auto
  then have k: "cd_key c = Job (j_Tenant ?j) DefaultNamespace (Partition (j_State ?j)) d' (j_ID ?j)" "scope_fits (j_Tenant ?j) DefaultNamespace"
    by (simp_all add: ParseJob_iff)
  show "Job t ns part d jid \<noteq> cd_key c" using Job_namespace_inject [OF _ assms(4) k(2)] assms(5) unfolding k(1) by blast
  have n: "j_Tenant ?n = j_Tenant ?j" "job_namespace ?n = DefaultNamespace" using assms(3) by (auto simp: leased_def job_namespace_def)
  show "job_Key ?n \<noteq> Inr (Job t ns part d jid)"
  proof
    assume "job_Key ?n = Inr (Job t ns part d jid)"
    then obtain d2 where "Job t ns part d jid = Job (j_Tenant ?j) DefaultNamespace (Partition (j_State ?n)) d2 (j_ID ?n)"
      using job_Key_shape n by metis
    then show False using Job_namespace_inject [OF _ assms(4) k(2)] assms(5) by blast
  qed
qed

lemma Claim_loop_frame:
  assumes "jproto_ok P" "scope_fits t ns" "ns \<noteq> DefaultNamespace"
  shows "Claim_loop P q now owner (\<lambda>_ s. s) fresh n i cs s out = (s', out', e) \<Longrightarrow>
    \<forall>c\<in>set cs. candidate_ok P JobPending c \<and> job_namespace (cd_job c) = DefaultNamespace \<Longrightarrow>
    s_data s' (Job t ns part d jid) = s_data s (Job t ns part d jid)"
proof (induction cs arbitrary: i s out)
  case (Cons c cs)
  obtain s1 j x where m: "move P q s (cd_key c) (cd_value c) (leased q now owner (fresh i) (cd_job c)) = (s1, j, x)"
    by (metis prod_cases3)
  have c: "candidate_ok P JobPending c" "job_namespace (cd_job c) = DefaultNamespace" using Cons.prems(2) by simp_all
  have "s_data s1 (Job t ns part d jid) = s_data s (Job t ns part d jid)"
    by (rule move_frame [OF m leased_Key_namespace [OF assms(1) c assms(2,3)]])
  then show ?case using Cons.IH Cons.prems m by (auto split: if_splits option.splits)
qed simp

text \<open>
  C37: A job submitted in a namespace other than the default one is accepted and stored, and no claim
  ever takes it: whatever the tenant and the types asked for, its row stays where the submission put
  it, and it is none of the jobs handed out.
\<close>

theorem namespaced_job_never_claimed:
  assumes "jproto_ok P" "Submit P q now fresh s j = (s1, j1, None)" "job_namespace j1 \<noteq> DefaultNamespace"
    "store_ok s2" "fits t" "Claim P q now' (\<lambda>_ s. s) fresh' s2 t owner types n = (s3, out, e)"
  shows "s_data s3 (j_stored j1) = s_data s2 (j_stored j1) \<and> (\<forall>i\<in>set out. job_namespace i \<noteq> job_namespace j1)"
proof -
  obtain k v where k: "job_Key j1 = Inr k" "job_Marshal P j1 = Inr v" "j_stored j1 = k"
    using assms(2) by (auto simp: Submit_def Enqueue_def Let_def split: if_splits prod.splits option.splits sum.splits)
  obtain d where key: "k = Job (j_Tenant j1) (job_namespace j1) (Partition (j_State j1)) d (j_ID j1)"
    using job_Key_shape [OF k(1)] by blast
  have cand: "candidate_ok P JobPending c \<and> job_namespace (cd_job c) = DefaultNamespace"
    if "due P s2 t JobPending now' types n = Inr cs" "c \<in> set cs" for cs c
    using due_sound(1,4,5) [OF assms(1,4,5) that] by (simp add: candidate_ok_def)
  have "s_data s3 k = s_data s2 k"
    using assms(6) Claim_loop_frame [OF assms(1) job_Marshal_scope [OF k(2)] assms(3)] cand unfolding key
    by (fastforce simp: Claim_def Let_def split: if_splits sum.splits)
  moreover have "job_namespace i = DefaultNamespace" if i: "i \<in> set out" for i
  proof -
    have "out \<noteq> []" using i by auto
    then obtain cs cs' where c: "due P s2 t JobPending now' types n = Inr cs"
        "subseq cs' (sort_key (\<lambda>c. - sint (j_Priority (cd_job c))) cs)" "list_all2 (claim_of q now' owner) out cs'"
      by (rule Claim_takes [OF assms(6)])
    obtain m where m: "m < length out" "out ! m = i" using i unfolding in_set_conv_nth by blast
    have "cs' ! m \<in> set cs" using subseq_set_subset [OF c(2)] list_all2_lengthD [OF c(3)] m(1) by auto
    then show ?thesis using cand [OF c(1)] claim_of_fields(3) [OF list_all2_nthD [OF c(3) m(1)]] m(2) by simp
  qed
  ultimately show ?thesis using assms(3) k(3) by auto
qed

definition job_sample_ns :: job where
  "job_sample_ns = enqueue_defaults job_sample_now 5 (job_sample\<lparr>j_Namespace := str ''lab''\<rparr>)"

definition job_sample_ns_proto :: jproto where
  "job_sample_ns_proto =
     \<lparr>encJ = (\<lambda>r. if r = job_row job_sample_ns then Some [1] else None),
      decJ = (\<lambda>b. if b = [1] then Some (job_row job_sample_ns) else None),
      encU = (\<lambda>_. None), decU = (\<lambda>_. None), encP = (\<lambda>_. None), decP = (\<lambda>_. None)\<rparr>"

lemma job_sample_ns_facts:
  "jproto_ok job_sample_ns_proto" "j_State job_sample_ns = StPending" "job_namespace job_sample_ns \<noteq> DefaultNamespace"
  by (auto simp: jproto_ok_def job_sample_ns_proto_def job_sample_ns_def enqueue_defaults_def job_sample_def job_row_def job_namespace_def
      str_def fitsI DefaultNamespace_def)

lemma job_sample_ns_row: "job_Key job_sample_ns = Inr (projr (job_Key job_sample_ns))" "job_Marshal job_sample_ns_proto job_sample_ns = Inr [1]"
  by code_simp+

theorem namespaced_job_never_claimed_witness:
  "\<exists>s1 j1 s3 out e. Submit job_sample_ns_proto NewQueue job_sample_now 5 New (job_sample\<lparr>j_Namespace := str ''lab''\<rparr>) = (s1, j1, None) \<and>
     Claim job_sample_ns_proto NewQueue job_sample_now (\<lambda>_ s. s) job_sample_fresh s1 (str ''acme'') [119] [] 5 = (s3, out, e) \<and>
     s_data s3 (j_stored j1) = Some [1]"
proof -
  let ?k = "projr (job_Key job_sample_ns)"
  obtain s1 where s1: "Submit job_sample_ns_proto NewQueue job_sample_now 5 New (job_sample\<lparr>j_Namespace := str ''lab''\<rparr>) =
      (s1, job_sample_ns\<lparr>j_stored := ?k\<rparr>, None)" "s_data s1 = (s_data New)(?k \<mapsto> [1])"
  proof (rule Submit_succeeds [of "job_sample\<lparr>j_Namespace := str ''lab''\<rparr>" job_sample_now 5 ?k job_sample_ns_proto "[1]" New NewQueue,
        folded job_sample_ns_def])
    show "j_Tenant (job_sample\<lparr>j_Namespace := str ''lab''\<rparr>) \<noteq> []" by (simp add: job_sample_def str_def)
  qed (use job_sample_ns_facts(2) job_sample_ns_row in \<open>simp_all add: New_def\<close>)
  obtain s3 out e where c: "Claim job_sample_ns_proto NewQueue job_sample_now (\<lambda>_ s. s) job_sample_fresh s1 (str ''acme'') [119] [] 5 = (s3, out, e)"
    by (metis prod_cases3)
  have ok: "store_ok s1" "fits (str ''acme'')" using store_ok_Submit [OF s1(1)] by (simp_all add: fitsI)
  have "job_namespace (job_sample_ns\<lparr>j_stored := ?k\<rparr>) \<noteq> DefaultNamespace" using job_sample_ns_facts(3) by simp
  from namespaced_job_never_claimed [OF job_sample_ns_facts(1) s1(1) this ok c] have "s_data s3 ?k = Some [1]" using s1(2) by simp
  then show ?thesis using s1(1) c by force
qed

section \<open>Retries\<close>

lemma BackoffWindow_small:
  "list_all (\<lambda>s. sint (if sint RetryCap < sint (push_bit s RetryBase) \<or> sint (push_bit s RetryBase) \<le> 0 then RetryCap else push_bit s RetryBase) =
     min (sint RetryCap) (sint RetryBase * 2 ^ s)) [0..<41]"
  by code_simp

text \<open>
  C38: The window of a retry's delay doubles from one second with each attempt up to ten minutes, for
  every attempt number 32 bits can hold: the 64-bit shift wraps for some, and the guards catch each.
\<close>

theorem BackoffWindow_doubles_to_cap:
  "sint (BackoffWindow n) = min (sint RetryCap) (sint RetryBase * 2 ^ (unat n - 1))"
proof -
  let ?s = "(if n < 1 then 1 else n) - 1"
  have s: "unat ?s = unat n - 1" using unat_minus_one [of n] by (auto simp: word_less_1)
  show ?thesis
  proof (cases "unat n - 1 \<le> 40")
    case True
    then have "\<not> 40 < ?s" using s by (simp add: word_less_nat_alt)
    then have w: "sint (BackoffWindow n) =
        sint (if sint RetryCap < sint (push_bit (unat ?s) RetryBase) \<or> sint (push_bit (unat ?s) RetryBase) \<le> 0 then RetryCap
              else push_bit (unat ?s) RetryBase)"
      by (simp add: BackoffWindow_def Let_def)
    have "unat n - 1 \<in> set [0..<41]" using True by simp
    from trans [OF w [unfolded s] bspec [OF BackoffWindow_small [unfolded list_all_iff] this]] show ?thesis .
  next
    case False
    then have "40 < ?s" using s by (simp add: word_less_nat_alt)
    then have "BackoffWindow n = RetryCap" by (simp add: BackoffWindow_def Let_def)
    moreover have "(2 :: int) ^ 41 \<le> 2 ^ (unat n - 1)" using False by (intro power_increasing) simp_all
    ultimately show ?thesis by (simp add: RetryCap_def RetryBase_def)
  qed
qed

section \<open>Pauses\<close>

lemma Enqueue_tx:
  assumes "Enqueue P now fresh j tx = (tx', j', None)"
  obtains k v where "tx' = tx_Set k v (tx_Expect k [] False tx)"
  using assms by (auto simp: Enqueue_def Let_def split: if_splits sum.splits)

lemma pauseKey_op: "pauseKey op t ty = Inr k \<Longrightarrow> pauseKey op' t ty = Inr k"
  by (auto simp: pauseKey_def fail_def split: if_splits)

lemma PauseOf_Inr:
  assumes "PauseOf P now s t ty = Inr p"
  obtains k v where "pauseKey op t ty = Inr k" "store_Get s k = Inr v" "unmarshalPause P k v = Inr p" "pause_Active (Some p) now"
proof -
  obtain k where k: "pauseKey ''jobs.PauseOf'' t ty = Inr k" using assms by (auto simp: PauseOf_def Let_def bindR_eq_Inr)
  then obtain v where v: "store_Get s k = Inr v"
    using assms by (cases "store_Get s k") (auto simp: PauseOf_def Let_def fail_def split: if_splits)
  with k have "unmarshalPause P k v = Inr p \<and> pause_Active (Some p) now"
    using assms by (auto simp: PauseOf_def Let_def bindR_eq_Inr fail_def split: if_splits)
  then show thesis using that pauseKey_op [OF k] v by blast
qed

lemma submitConditional_condition:
  assumes "submitConditional P q now fresh s j k v ex = (s', j', r)"
  shows "(s' = s \<and> r \<noteq> Inr True) \<or> s_data s k = (if ex then Some v else None)"
proof (cases "Enqueue P now fresh j (tx_Expect k v ex (tx_New (q_sync q) :: unit tx))")
  case (fields tx1 j1 e)
  show ?thesis
  proof (cases e)
    case (Some x)
    then show ?thesis using assms fields by (auto simp: submitConditional_def)
  next
    case None
    obtain k' v' where tx1: "tx1 = tx_Set k' v' (tx_Expect k' [] False (tx_Expect k v ex (tx_New (q_sync q))))"
      by (rule Enqueue_tx [OF fields [unfolded None]])
    have cond: "\<lparr>c_key = k, c_value = v, c_exists = ex\<rparr> \<in> set (tx_conds tx1)"
      using conds_Expect_New [of k v ex "q_sync q"] set_conds_Expect unfolding tx1 by (fastforce simp: staging)
    obtain s2 t2 e2 cbs where c: "tx_Commit s tx1 = (s2, t2, e2, cbs)" by (metis prod_cases4)
    show ?thesis
    proof (cases e2)
      case None
      then show ?thesis using tx_Commit_view [OF c [unfolded None]] cond by (auto simp: condition_fails_iff)
    next
      case (Some y)
      then show ?thesis using assms fields None c tx_Commit_error [OF c [unfolded Some]]
        by (auto simp: submitConditional_def split: if_splits sum.splits bool.splits)
    qed
  qed
qed

text \<open>
  C39: The scheduler's enqueue never beats a pause: whatever other writers did between the read of the
  pause and the commit, when a pause of the type is in force as the commit begins, or was when the
  pause was read, the job is not written and the call does not report that it was.
\<close>

theorem pause_beats_the_scheduler:
  assumes "SubmitUnlessPaused P q now fresh env s j = (s', j', r)"
    "PauseOf P now (env s) (j_Tenant j) (j_Type j) = Inr p \<or> PauseOf P now s (j_Tenant j) (j_Type j) = Inr p"
  shows "r \<noteq> Inr True \<and> (s' = s \<or> s' = env s)"
proof -
  let ?key = "pauseKey ''jobs.SubmitUnlessPaused'' (j_Tenant j) (j_Type j)"
  have in_force: "r \<noteq> Inr True \<and> (s' = s \<or> s' = env s)"
    if k: "?key = Inr k" "store_Get s k = Inr v" "unmarshalPause P k v = Inr p" "pause_Active (Some p) now" for k v
    using assms(1) k by (auto simp: SubmitUnlessPaused_def)
  have raced: "r \<noteq> Inr True \<and> (s' = s \<or> s' = env s)"
    if k: "?key = Inr k" "store_Get (env s) k = Inr v" "unmarshalPause P k v = Inr p" "pause_Active (Some p) now" for k v
  proof -
    have v: "s_data (env s) k = Some v" using k(2) by (simp add: store_Get_Inr)
    have cond: "r \<noteq> Inr True \<and> s' = env s"
      if "submitConditional P q now fresh (env s) j k w ex = (s', j', r)" "ex \<Longrightarrow> w \<noteq> v" for w ex
      using submitConditional_condition [OF that(1)] that(2) v by (auto split: if_splits)
    show ?thesis
    proof (cases "store_Get s k")
      case (Inl e)
      then show ?thesis using assms(1) k(1) cond [of "[]" False] by (auto simp: SubmitUnlessPaused_def split: if_splits)
    next
      case (Inr w)
      show ?thesis
      proof (cases "w = v")
        case True
        then show ?thesis using assms(1) k Inr by (auto simp: SubmitUnlessPaused_def)
      next
        case False
        then show ?thesis using assms(1) k(1) Inr cond [of w True] by (auto simp: SubmitUnlessPaused_def split: sum.splits if_splits)
      qed
    qed
  qed
  from assms(2) show ?thesis
  proof
    assume "PauseOf P now (env s) (j_Tenant j) (j_Type j) = Inr p"
    then show ?thesis by (rule PauseOf_Inr) (rule raced)
  next
    assume "PauseOf P now s (j_Tenant j) (j_Type j) = Inr p"
    then show ?thesis by (rule PauseOf_Inr) (rule in_force)
  qed
qed

definition job_sample_pause :: pb_Pause where
  "job_sample_pause = \<lparr>pbp_Type = str ''embed'', pbp_ExpiresAtUnixMs = job_unixMilli job_sample_now + 1000, pbp_SetBy = [], pbp_SetAtUnixMs = 0\<rparr>"

definition job_sample_paused :: "Store" where
  "job_sample_paused = store_set New (JobPause (str ''acme'') DefaultNamespace (str ''embed'')) [4]"

abbreviation job_sample_pauses :: jproto where
  "job_sample_pauses \<equiv> job_sample_proto\<lparr>encP := (\<lambda>_. Some [4]), decP := (\<lambda>_. Some job_sample_pause)\<rparr>"

lemma job_sample_in_force:
  "map_sum id p_Type (PauseOf job_sample_pauses job_sample_now job_sample_paused (str ''acme'') (str ''embed'')) = Inr (str ''embed'')"
  by code_simp

theorem pause_beats_the_scheduler_witness:
  "fst (SubmitUnlessPaused job_sample_pauses NewQueue job_sample_now 5 (\<lambda>_. job_sample_paused) New job_sample) \<in> {New, job_sample_paused}"
proof -
  obtain s' j' r where r: "SubmitUnlessPaused job_sample_pauses NewQueue job_sample_now 5 (\<lambda>_. job_sample_paused) New job_sample = (s', j', r)"
    by (metis prod_cases3)
  obtain p where "PauseOf job_sample_pauses job_sample_now job_sample_paused (j_Tenant job_sample) (j_Type job_sample) = Inr p"
    using job_sample_in_force by (cases "PauseOf job_sample_pauses job_sample_now job_sample_paused (str ''acme'') (str ''embed'')")
      (auto simp: job_sample_def)
  then show ?thesis using pause_beats_the_scheduler [OF r] r by auto
qed

end
