(* ===== verification/Spec2Isabelle.thy ===== *)
theory Spec2Isabelle
  imports Attr_Select Job_Scans
begin

text \<open>
  Root.
\<close>

end
